(* ===== verification/Mock_Prelude.thy ===== *)
theory Mock_Prelude
  imports Main "HOL-Library.Word" "HOL-Library.Multiset" "HOL-Library.List_Lexorder"
begin

text \<open>
  Shared vocabulary of the development: Go strings as byte strings, the functions of Go's
  \<^verbatim>\<open>strings\<close>, \<^verbatim>\<open>bytes\<close> and \<^verbatim>\<open>sort\<close> packages that the modelled code uses, machine counters,
  and the generic lemmas about them. Nothing here is specific to one component.
\<close>

section \<open>Types and automation\<close>

text \<open>A Go \<^verbatim>\<open>string\<close> or \<^verbatim>\<open>[]byte\<close> is a list of bytes, and HOL's \<open>char\<close> is a byte.\<close>

type_synonym bytes = string
type_synonym u64 = "64 word"
type_synonym values_map = "string \<rightharpoonup> string list"

named_theorems go_strings \<open>unfolding rules of the byte-string functions\<close>

lemma map_sum_Inr_iff [simp]: "map_sum id f x = Inr y \<longleftrightarrow> (\<exists>z. x = Inr z \<and> y = f z)"
  by (cases x) auto

lemma map_sum_Inl_iff [simp]: "map_sum id f x = Inl e \<longleftrightarrow> x = Inl e"
  by (cases x) auto

section \<open>Byte strings\<close>

definition has_prefix :: "string \<Rightarrow> string \<Rightarrow> bool" where
  "has_prefix s p \<longleftrightarrow> take (length p) s = p"

definition has_suffix :: "string \<Rightarrow> string \<Rightarrow> bool" where
  "has_suffix s p \<longleftrightarrow> length p \<le> length s \<and> drop (length s - length p) s = p"

definition trim_prefix :: "string \<Rightarrow> string \<Rightarrow> string" where
  "trim_prefix s p = (if has_prefix s p then drop (length p) s else s)"

text \<open>\<^verbatim>\<open>strings.IndexByte\<close> and \<^verbatim>\<open>strings.LastIndexByte\<close>, with \<^verbatim>\<open>-1\<close> as \<open>None\<close>.\<close>

fun index_byte :: "string \<Rightarrow> char \<Rightarrow> nat option" where
  "index_byte [] c = None"
| "index_byte (x # xs) c = (if x = c then Some 0 else map_option Suc (index_byte xs c))"

fun last_index_byte :: "string \<Rightarrow> char \<Rightarrow> nat option" where
  "last_index_byte [] c = None"
| "last_index_byte (x # xs) c =
     (case last_index_byte xs c of
        Some i \<Rightarrow> Some (Suc i)
      | None \<Rightarrow> if x = c then Some 0 else None)"

text \<open>\<^verbatim>\<open>strings.Cut\<close> at a one-byte separator: before, after, found.\<close>

fun cut_at :: "string \<Rightarrow> char \<Rightarrow> string \<times> string \<times> bool" where
  "cut_at [] c = ([], [], False)"
| "cut_at (x # xs) c =
     (if x = c then ([], xs, True)
      else case cut_at xs c of (before, after, found) \<Rightarrow> (x # before, after, found))"

text \<open>\<^verbatim>\<open>strings.Split\<close> at a one-byte separator: always at least one part.\<close>

fun split :: "string \<Rightarrow> char \<Rightarrow> string list" where
  "split [] c = [[]]"
| "split (x # xs) c =
     (if x = c then [] # split xs c
      else case split xs c of [] \<Rightarrow> [[x]] | p # ps \<Rightarrow> (x # p) # ps)"

text \<open>\<^verbatim>\<open>strings.Contains\<close> and \<^verbatim>\<open>strings.ContainsAny\<close> (over ASCII sets).\<close>

fun contains_str :: "string \<Rightarrow> string \<Rightarrow> bool" where
  "contains_str [] p = (p = [])"
| "contains_str (x # xs) p = (has_prefix (x # xs) p \<or> contains_str xs p)"

definition contains_any :: "string \<Rightarrow> string \<Rightarrow> bool" where
  "contains_any s cs = list_ex (\<lambda>c. c \<in> set cs) s"

definition join_str :: "string \<Rightarrow> string list \<Rightarrow> string" where
  "join_str sep xs = (case xs of [] \<Rightarrow> [] | y # ys \<Rightarrow> y @ concat (map (\<lambda>s. sep @ s) ys))"

lemma has_prefix_Nil [simp]: "has_prefix s []"
  by (simp add: has_prefix_def)

lemma has_prefix_Cons [simp]:
  "has_prefix [] (c # p) = False"
  "has_prefix (x # s) (c # p) = (x = c \<and> has_prefix s p)"
  by (auto simp: has_prefix_def)

lemma has_prefix_append [simp]: "has_prefix (p @ s) p"
  by (simp add: has_prefix_def)

lemma has_prefix_iff: "has_prefix s p \<longleftrightarrow> (\<exists>r. s = p @ r)"
  by (metis append_eq_conv_conj has_prefix_def)

lemma has_prefix_trans: "has_prefix s q \<Longrightarrow> has_prefix q p \<Longrightarrow> has_prefix s p"
  by (auto simp: has_prefix_iff)

lemma index_byte_None: "index_byte s c = None \<longleftrightarrow> c \<notin> set s"
  by (induction s) auto

lemma index_byte_Some:
  "index_byte s c = Some i \<Longrightarrow> s = take i s @ c # drop (Suc i) s \<and> c \<notin> set (take i s) \<and> i < length s"
  by (induction s arbitrary: i) (auto split: if_splits)

lemma index_byte_append: "c \<notin> set p \<Longrightarrow> index_byte (p @ c # s) c = Some (length p)"
  by (induction p) auto

lemma last_index_byte_None: "last_index_byte s c = None \<longleftrightarrow> c \<notin> set s"
  by (induction s) (auto split: option.splits)

lemma last_index_byte_Some:
  "last_index_byte s c = Some i \<Longrightarrow> s = take i s @ c # drop (Suc i) s \<and> c \<notin> set (drop (Suc i) s) \<and> i < length s"
  by (induction s arbitrary: i) (auto split: option.splits if_splits simp: last_index_byte_None)

lemma last_index_byte_append: "c \<notin> set t \<Longrightarrow> last_index_byte (p @ c # t) c = Some (length p)"
proof (induction p)
  case Nil
  then show ?case by (simp add: last_index_byte_None [THEN iffD2])
qed simp

lemma split_nonempty [simp]: "split s c \<noteq> []"
  by (cases s) (auto split: list.splits)

lemma split_append: "c \<notin> set p \<Longrightarrow> split (p @ c # s) c = p # split s c"
  by (induction p) auto

lemma split_no_sep: "c \<notin> set p \<Longrightarrow> split p c = [p]"
  by (induction p) auto

lemma split_parts: "p \<in> set (split s c) \<Longrightarrow> c \<notin> set p"
  by (induction s arbitrary: p) (auto split: list.splits if_splits)

lemma join_split: "join_str [c] (split s c) = s"
proof (induction s)
  case Nil
  then show ?case by (simp add: join_str_def)
next
  case (Cons x xs)
  then show ?case
    by (cases "split xs c") (auto simp: join_str_def)
qed

lemma split_join:
  "ps \<noteq> [] \<Longrightarrow> (\<And>p. p \<in> set ps \<Longrightarrow> c \<notin> set p) \<Longrightarrow> split (join_str [c] ps) c = ps"
proof (induction ps)
  case (Cons p ps)
  have "join_str [c] (p # ps) = (if ps = [] then p else p @ c # join_str [c] ps)"
    by (cases ps) (simp_all add: join_str_def)
  with Cons show ?case by (simp add: split_append split_no_sep)
qed simp

lemma cut_append: "c \<notin> set p \<Longrightarrow> cut_at (p @ c # s) c = (p, s, True)"
  by (induction p) auto

lemma cut_no_sep: "c \<notin> set p \<Longrightarrow> cut_at p c = (p, [], False)"
  by (induction p) auto

lemma cut_length: "cut_at s c = (a, b, f) \<Longrightarrow> length a + length b \<le> length s"
  by (induction s arbitrary: a b f) (auto split: if_splits prod.splits)

lemma cut_found: "cut_at s c = (a, b, True) \<Longrightarrow> s = a @ c # b \<and> c \<notin> set a"
  by (induction s arbitrary: a b) (auto split: if_splits prod.splits)

lemma cut_not_found: "cut_at s c = (a, b, False) \<Longrightarrow> a = s \<and> b = [] \<and> c \<notin> set s"
  by (induction s arbitrary: a b) (auto split: if_splits prod.splits)

lemma cut_shorter: "s \<noteq> [] \<Longrightarrow> cut_at s c = (a, b, f) \<Longrightarrow> length b < length s"
  by (cases f) (auto dest: cut_found cut_not_found)

lemma contains_str_iff: "contains_str s p \<longleftrightarrow> (\<exists>a b. s = a @ p @ b)"
proof (induction s)
  case (Cons x xs)
  show ?case (is "?l \<longleftrightarrow> ?r")
  proof
    assume ?l
    then consider "has_prefix (x # xs) p" | "contains_str xs p" by auto
    then show ?r
    proof cases
      case 1
      then show ?thesis by (metis append_Nil has_prefix_iff)
    next
      case 2
      then show ?thesis using Cons.IH by (metis append_Cons)
    qed
  next
    assume ?r
    then obtain a b where ab: "x # xs = a @ p @ b" by blast
    show ?l
    proof (cases a)
      case Nil
      then have "has_prefix (x # xs) p" using ab by (metis append_Nil has_prefix_append)
      then show ?thesis by simp
    next
      case (Cons y ys)
      then show ?thesis using ab Cons.IH by auto
    qed
  qed
qed auto

section \<open>Unicode-aware functions of the strings package\<close>

text \<open>
  \<^verbatim>\<open>strings.EqualFold\<close> and \<^verbatim>\<open>strings.ToLower\<close> walk ASCII bytes themselves and consult the
  Unicode case tables only from the first non-ASCII byte on. The tables are the parameter
  \<open>unicode\<close>; the ASCII part is written out.
\<close>

record unicode =
  uc_fold_tail :: "string \<Rightarrow> string \<Rightarrow> bool"
  uc_lower :: "string \<Rightarrow> string"

definition is_ascii :: "char \<Rightarrow> bool" where
  "is_ascii c \<longleftrightarrow> of_char c < (128 :: nat)"

definition is_upper :: "char \<Rightarrow> bool" where
  "is_upper c \<longleftrightarrow> 65 \<le> (of_char c :: nat) \<and> of_char c \<le> (90 :: nat)"

definition is_lower :: "char \<Rightarrow> bool" where
  "is_lower c \<longleftrightarrow> 97 \<le> (of_char c :: nat) \<and> of_char c \<le> (122 :: nat)"

definition is_digit :: "char \<Rightarrow> bool" where
  "is_digit c \<longleftrightarrow> 48 \<le> (of_char c :: nat) \<and> of_char c \<le> (57 :: nat)"

definition ascii_lower :: "char \<Rightarrow> char" where
  "ascii_lower c = (if is_upper c then char_of (of_char c + 32 :: nat) else c)"

definition ascii_upper :: "char \<Rightarrow> char" where
  "ascii_upper c = (if is_lower c then char_of (of_char c - 32 :: nat) else c)"

fun equal_fold :: "unicode \<Rightarrow> string \<Rightarrow> string \<Rightarrow> bool" where
  "equal_fold u (a # s) (b # t) =
     (if \<not> is_ascii a \<or> \<not> is_ascii b then uc_fold_tail u (a # s) (b # t)
      else if ascii_lower a = ascii_lower b then equal_fold u s t else False)"
| "equal_fold u s t = (s = [] \<and> t = [])"

definition to_lower :: "unicode \<Rightarrow> string \<Rightarrow> string" where
  "to_lower u s = (if list_all is_ascii s then map ascii_lower s else uc_lower u s)"

lemma equal_fold_ascii:
  "list_all is_ascii s \<Longrightarrow> list_all is_ascii t \<Longrightarrow>
   equal_fold u s t \<longleftrightarrow> map ascii_lower s = map ascii_lower t"
  by (induction u s t rule: equal_fold.induct) auto

text \<open>
  \<^verbatim>\<open>strings.TrimSpace\<close>: the encodings of the code points \<^verbatim>\<open>unicode.IsSpace\<close> accepts.
\<close>

definition space_runes :: "string list" where
  "space_runes =
     [[CHR 0x09], [CHR 0x0A], [CHR 0x0B], [CHR 0x0C], [CHR 0x0D], [CHR 0x20],
      [CHR 0xC2, CHR 0x85], [CHR 0xC2, CHR 0xA0], [CHR 0xE1, CHR 0x9A, CHR 0x80],
      [CHR 0xE2, CHR 0x80, CHR 0x80], [CHR 0xE2, CHR 0x80, CHR 0x81],
      [CHR 0xE2, CHR 0x80, CHR 0x82], [CHR 0xE2, CHR 0x80, CHR 0x83],
      [CHR 0xE2, CHR 0x80, CHR 0x84], [CHR 0xE2, CHR 0x80, CHR 0x85],
      [CHR 0xE2, CHR 0x80, CHR 0x86], [CHR 0xE2, CHR 0x80, CHR 0x87],
      [CHR 0xE2, CHR 0x80, CHR 0x88], [CHR 0xE2, CHR 0x80, CHR 0x89],
      [CHR 0xE2, CHR 0x80, CHR 0x8A], [CHR 0xE2, CHR 0x80, CHR 0xA8],
      [CHR 0xE2, CHR 0x80, CHR 0xA9], [CHR 0xE2, CHR 0x80, CHR 0xAF],
      [CHR 0xE2, CHR 0x81, CHR 0x9F], [CHR 0xE3, CHR 0x80, CHR 0x80]]"

function trim_left_of :: "string list \<Rightarrow> string \<Rightarrow> string" where
  "trim_left_of ps s =
     (case find (\<lambda>p. p \<noteq> [] \<and> has_prefix s p) ps of
        None \<Rightarrow> s
      | Some p \<Rightarrow> trim_left_of ps (drop (length p) s))"
  by pat_completeness auto
termination
proof (relation "measure (\<lambda>(ps, s). length s)")
  fix ps :: "string list" and s p :: string
  assume "find (\<lambda>p. p \<noteq> [] \<and> has_prefix s p) ps = Some p"
  then have "p \<noteq> []" "has_prefix s p" by (auto simp: find_Some_iff)
  then show "((ps, drop (length p) s), ps, s) \<in> measure (\<lambda>(ps, s). length s)"
    by (cases s; cases p) auto
qed simp

declare trim_left_of.simps [simp del]

definition trim_space :: "string \<Rightarrow> string" where
  "trim_space s =
     rev (trim_left_of (map rev space_runes) (rev (trim_left_of space_runes s)))"

text \<open>\<^verbatim>\<open>strings.Trim\<close> with a one-byte cutset.\<close>

definition trim_byte :: "string \<Rightarrow> char \<Rightarrow> string" where
  "trim_byte s c = rev (dropWhile (\<lambda>x. x = c) (rev (dropWhile (\<lambda>x. x = c) s)))"

section \<open>Decimal rendering\<close>

text \<open>\<^verbatim>\<open>strconv.Itoa\<close> and the digit characters.\<close>

definition digit_char :: "nat \<Rightarrow> char" where
  "digit_char d = char_of (48 + d)"

fun show_nat :: "nat \<Rightarrow> string" where
  "show_nat n = (if n < 10 then [digit_char n] else show_nat (n div 10) @ [digit_char (n mod 10)])"

declare show_nat.simps [simp del]

definition show_int :: "int \<Rightarrow> string" where
  "show_int i = (if i < 0 then CHR ''-'' # show_nat (nat (- i)) else show_nat (nat i))"

text \<open>The value of a run of digits, \<^verbatim>\<open>strconv.Atoi\<close>, and 64-bit wrap-around.\<close>

definition digit_value :: "char \<Rightarrow> nat" where
  "digit_value c = of_char c - 48"

definition digits_value :: "string \<Rightarrow> nat" where
  "digits_value ds = foldl (\<lambda>n c. 10 * n + digit_value c) 0 ds"

definition wrap64 :: "int \<Rightarrow> int" where
  "wrap64 i = (i + 2 ^ 63) mod 2 ^ 64 - 2 ^ 63"

definition atoi :: "string \<Rightarrow> int option" where
  "atoi s =
     (let neg = has_prefix s ''-'';
          ds = (if neg \<or> has_prefix s ''+'' then drop 1 s else s);
          v = (if neg then - int (digits_value ds) else int (digits_value ds))
      in if ds = [] \<or> \<not> list_all is_digit ds \<or> v < - (2 ^ 63) \<or> 2 ^ 63 \<le> v then None else Some v)"

text \<open>\<^verbatim>\<open>strings.IndexAny\<close> over an ASCII set.\<close>

fun index_any :: "string \<Rightarrow> string \<Rightarrow> nat option" where
  "index_any [] cs = None"
| "index_any (x # xs) cs = (if x \<in> set cs then Some 0 else map_option Suc (index_any xs cs))"

lemma index_any_append: "set p \<inter> set cs = {} \<Longrightarrow> c \<in> set cs \<Longrightarrow> index_any (p @ c # s) cs = Some (length p)"
  by (induction p) auto

lemma index_any_None: "set p \<inter> set cs = {} \<Longrightarrow> index_any p cs = None"
  by (induction p) auto

lemma wrap64_id: "- (2 ^ 63) \<le> i \<Longrightarrow> i < 2 ^ 63 \<Longrightarrow> wrap64 i = i"
  by (simp add: wrap64_def mod_pos_pos_trivial)

lemma wrap64_bounds: "- (2 ^ 63) \<le> wrap64 i \<and> wrap64 i < 2 ^ 63"
  using pos_mod_bound [of "2 ^ 64" "i + 2 ^ 63"] pos_mod_sign [of "2 ^ 64" "i + 2 ^ 63"]
  by (simp add: wrap64_def)

lemma of_char_digit_char: "d < 10 \<Longrightarrow> of_char (digit_char d) = 48 + d"
  by (simp add: digit_char_def)

lemma is_digit_digit_char [simp]: "d < 10 \<Longrightarrow> is_digit (digit_char d)"
  by (simp add: is_digit_def of_char_digit_char)

lemma digit_value_digit_char [simp]: "d < 10 \<Longrightarrow> digit_value (digit_char d) = d"
  by (simp add: digit_value_def of_char_digit_char)

lemma digits_value_snoc: "digits_value (ds @ [c]) = 10 * digits_value ds + digit_value c"
  by (simp add: digits_value_def)

lemma digits_value_Nil [simp]: "digits_value [] = 0"
  by (simp add: digits_value_def)

lemma digits_value_show_nat [simp]: "digits_value (show_nat n) = n"
proof (induction n rule: show_nat.induct)
  case (1 n)
  then show ?case
    by (cases "n < 10") (simp_all add: show_nat.simps [of n] digits_value_snoc, simp add: digits_value_def)
qed

lemma show_nat_digits: "list_all is_digit (show_nat n) \<and> show_nat n \<noteq> []"
proof (induction n rule: show_nat.induct)
  case (1 n)
  then show ?case by (cases "n < 10") (simp_all add: show_nat.simps [of n])
qed

lemma show_nat_inject [simp]: "show_nat m = show_nat n \<longleftrightarrow> m = n"
  by (metis digits_value_show_nat)

lemma show_nat_chars: "c \<in> set (show_nat n) \<Longrightarrow> is_digit c"
  using show_nat_digits [of n] by (simp add: list_all_iff)

lemma not_is_digit [simp]:
  "\<not> is_digit (CHR ''.'')" "\<not> is_digit (CHR ''e'')" "\<not> is_digit (CHR ''E'')" "\<not> is_digit (CHR ''+'')"
  "\<not> is_digit (CHR ''-'')"
  by (simp_all add: is_digit_def)

lemma minus_not_digit: "\<not> is_digit (CHR ''-'')"
  by (simp add: is_digit_def)

lemma show_int_inject [simp]: "show_int i = show_int j \<longleftrightarrow> i = j"
proof -
  have "CHR ''-'' # s \<noteq> show_nat n" for s n
    using show_nat_chars [of "CHR ''-''" n] minus_not_digit by (metis list.set_intros(1))
  then show ?thesis by (auto simp: show_int_def) metis+
qed

section \<open>Stable sorting\<close>

text \<open>
  \<^verbatim>\<open>sort.SliceStable(xs, less)\<close> as a stable insertion sort over the comparison the code
  passes. For a comparison induced by a key it is \<open>sort_key\<close>.
\<close>

fun insert_stable :: "('a \<Rightarrow> 'a \<Rightarrow> bool) \<Rightarrow> 'a \<Rightarrow> 'a list \<Rightarrow> 'a list" where
  "insert_stable lt x [] = [x]"
| "insert_stable lt x (y # ys) = (if lt y x then y # insert_stable lt x ys else x # y # ys)"

definition sort_stable :: "('a \<Rightarrow> 'a \<Rightarrow> bool) \<Rightarrow> 'a list \<Rightarrow> 'a list" where
  "sort_stable lt xs = foldr (insert_stable lt) xs []"

lemma insert_stable_insort:
  assumes "\<And>a b. lt a b \<longleftrightarrow> (key a :: 'k::linorder) < key b"
  shows "insert_stable lt x ys = insort_key key x ys"
  by (induction ys) (auto simp: assms not_less)

lemma sort_stable_key:
  assumes "\<And>a b. lt a b \<longleftrightarrow> (key a :: 'k::linorder) < key b"
  shows "sort_stable lt xs = sort_key key xs"
  unfolding sort_stable_def sort_key_def
  by (induction xs) (simp_all add: insert_stable_insort [OF assms])

lemma sort_key_perm_unique:
  assumes "mset xs = mset ys" and "inj_on (key :: 'a \<Rightarrow> 'k::linorder) (set xs)"
  shows "sort_key key xs = sort_key key ys"
  by (rule sort_key_inj_key_eq) (use assms in simp_all)

text \<open>\<^verbatim>\<open>sort.Strings\<close> orders by bytes.\<close>

fun string_less :: "string \<Rightarrow> string \<Rightarrow> bool" where
  "string_less [] [] = False"
| "string_less [] (b # bs) = True"
| "string_less (a # as) [] = False"
| "string_less (a # as) (b # bs) =
     (if a = b then string_less as bs else (of_char a :: nat) < of_char b)"

text \<open>The order as the lexicographic order of the byte values.\<close>

definition byte_key :: "string \<Rightarrow> nat list" where
  "byte_key s = map of_char s"

lemma string_less_key: "string_less a b \<longleftrightarrow> byte_key a < byte_key b"
  unfolding byte_key_def
  by (induction a b rule: string_less.induct) (auto simp: of_char_eq_iff)

lemma inj_byte_key [simp]: "inj_on byte_key A"
  unfolding byte_key_def by (rule inj_onI) (metis inj_of_char inj_map_eq_map)

lemma sort_strings_key: "sort_stable string_less xs = sort_key byte_key xs"
  by (rule sort_stable_key) (rule string_less_key)

lemma set_sort_stable [simp]: "set (sort_stable lt xs) = set xs"
proof -
  have "set (insert_stable lt x ys) = insert x (set ys)" for x and ys :: "'a list"
    by (induction ys) auto
  then show ?thesis by (induction xs) (simp_all add: sort_stable_def)
qed

lemma length_sort_stable [simp]: "length (sort_stable lt xs) = length xs"
proof -
  have "length (insert_stable lt x ys) = Suc (length ys)" for x and ys :: "'a list"
    by (induction ys) auto
  then show ?thesis by (induction xs) (simp_all add: sort_stable_def)
qed

lemma mset_sort_stable [simp]: "mset (sort_stable lt xs) = mset xs"
proof -
  have "mset (insert_stable lt x ys) = add_mset x (mset ys)" for x and ys :: "'a list"
    by (induction ys) auto
  then show ?thesis by (induction xs) (simp_all add: sort_stable_def)
qed

lemma distinct_sort_stable [simp]: "distinct (map f (sort_stable lt xs)) = distinct (map f xs)"
  by (rule mset_eq_imp_distinct_iff) simp

text \<open>Sortedness for any strict weak order.\<close>

lemma sorted_sort_stable:
  assumes asym: "\<And>a b. lt a b \<Longrightarrow> \<not> lt b a" and trans: "\<And>a b c. \<not> lt b a \<Longrightarrow> \<not> lt c b \<Longrightarrow> \<not> lt c a"
  shows "sorted_wrt (\<lambda>a b. \<not> lt b a) (sort_stable lt xs)"
proof -
  have set: "set (insert_stable lt x ys) = insert x (set ys)" for x ys by (induction ys) auto
  have "sorted_wrt (\<lambda>a b. \<not> lt b a) (insert_stable lt x ys)" if "sorted_wrt (\<lambda>a b. \<not> lt b a) ys" for x ys
    using that
    by (induction ys) (auto simp: set dest: asym, meson asym trans)
  then show ?thesis by (induction xs) (simp_all add: sort_stable_def)
qed

section \<open>Results of many attempts\<close>

text \<open>What succeeded and what failed, each in order.\<close>

definition rights :: "('a + 'b) list \<Rightarrow> 'b list" where
  "rights xs = concat (map (\<lambda>x. case x of Inl _ \<Rightarrow> [] | Inr y \<Rightarrow> [y]) xs)"

definition lefts :: "('a + 'b) list \<Rightarrow> 'a list" where
  "lefts xs = concat (map (\<lambda>x. case x of Inl y \<Rightarrow> [y] | Inr _ \<Rightarrow> []) xs)"

lemma rights_simps [simp]:
  "rights [] = []" "rights (Inl e # xs) = rights xs" "rights (Inr y # xs) = y # rights xs"
  "lefts [] = []" "lefts (Inl e # xs) = e # lefts xs" "lefts (Inr y # xs) = lefts xs"
  by (simp_all add: rights_def lefts_def)

lemma in_rights [simp]: "y \<in> set (rights xs) \<longleftrightarrow> Inr y \<in> set xs"
  by (auto simp: rights_def split: sum.splits)

end
