(* ===== verification/Path_Template.thy ===== *)
theory Path_Template
  imports Mock_Prelude
begin

text \<open>
  \<^verbatim>\<open>internal/stub/pathtemplate.go\<close>: WireMock URL path templates. \<open>parse_path_template\<close> is
  \<^verbatim>\<open>ParsePathTemplate\<close> with its five refusals as values, \<open>template_match\<close> is the in-place walk of
  \<^verbatim>\<open>PathTemplate.Match\<close> together with the bindings it reports. The lemmas relate the walk to
  splitting the path, the compiled literal prefix to the paths that match, and a template to
  the paths obtained by filling in its variables.
\<close>

section \<open>Compilation\<close>

record template_segment =
  seg_literal :: string
  seg_name :: string
  seg_is_var :: bool

record path_template =
  pt_source :: string
  pt_segments :: "template_segment list"
  pt_vars :: "string list"
  pt_literal_prefix :: string

datatype template_error =
    EmptyTemplate
  | MissingLeadingSlash
  | UnnamedVariable
  | MalformedVariable string
  | DuplicateVariable string
  | VariableNotWholeSegment

abbreviation lit_segment :: "string \<Rightarrow> template_segment" where
  "lit_segment l \<equiv> \<lparr>seg_literal = l, seg_name = [], seg_is_var = False\<rparr>"

abbreviation var_segment :: "string \<Rightarrow> template_segment" where
  "var_segment n \<equiv> \<lparr>seg_literal = [], seg_name = n, seg_is_var = True\<rparr>"

text \<open>The loop over the parts; \<open>seen\<close> holds the variable names bound so far.\<close>

fun parse_segments :: "string list \<Rightarrow> string list \<Rightarrow> template_error + template_segment list" where
  "parse_segments seen [] = Inr []"
| "parse_segments seen (part # parts) =
     (if has_prefix part ''{'' \<and> has_suffix part ''}'' then
        (let name = drop 1 (take (length part - 1) part) in
         if name = [] then Inl UnnamedVariable
         else if contains_any name ''{}/'' then Inl (MalformedVariable part)
         else if name \<in> set seen then Inl (DuplicateVariable name)
         else map_sum id (Cons (var_segment name)) (parse_segments (name # seen) parts))
      else if contains_any part ''{}'' then Inl VariableNotWholeSegment
      else map_sum id (Cons (lit_segment part)) (parse_segments seen parts))"

definition segment_vars :: "template_segment list \<Rightarrow> string list" where
  "segment_vars segs = map seg_name (filter seg_is_var segs)"

fun leading_literals :: "template_segment list \<Rightarrow> string" where
  "leading_literals [] = []"
| "leading_literals (seg # segs) =
     (if seg_is_var seg then [] else CHR ''/'' # seg_literal seg @ leading_literals segs)"

definition compute_template_prefix :: "template_segment list \<Rightarrow> string" where
  "compute_template_prefix segs =
     (let s = leading_literals segs in if s = [] then ''/'' else s)"

definition parse_path_template :: "string \<Rightarrow> template_error + path_template" where
  "parse_path_template source =
     (if source = [] then Inl EmptyTemplate
      else if \<not> has_prefix source ''/'' then Inl MissingLeadingSlash
      else map_sum id
        (\<lambda>segs. \<lparr>pt_source = source, pt_segments = segs, pt_vars = segment_vars segs,
                 pt_literal_prefix = compute_template_prefix segs\<rparr>)
        (parse_segments [] (split (trim_prefix source ''/'') (CHR ''/''))))"

section \<open>Matching\<close>

text \<open>
  The walk over the path. A binding is reported as soon as its segment is consumed, so a
  failed match may have reported some; the second component lists them in order.
\<close>

fun match_segments :: "template_segment list \<Rightarrow> string \<Rightarrow> bool \<times> (string \<times> string) list" where
  "match_segments [] rest = (rest = [], [])"
| "match_segments (seg # segs) rest =
     (let slash = index_byte rest (CHR ''/'');
          part = (case slash of Some i \<Rightarrow> take i rest | None \<Rightarrow> rest);
          rest' = (case slash of Some i \<Rightarrow> drop (Suc i) rest | None \<Rightarrow> [])
      in if slash \<noteq> None \<and> segs = [] then (False, [])
         else if slash = None \<and> segs \<noteq> [] then (False, [])
         else if seg_is_var seg then
           (if part = [] then (False, [])
            else case match_segments segs rest' of (ok, bs) \<Rightarrow> (ok, (seg_name seg, part) # bs))
         else if part \<noteq> seg_literal seg then (False, [])
         else match_segments segs rest')"

definition template_match :: "path_template \<Rightarrow> string \<Rightarrow> bool \<times> (string \<times> string) list" where
  "template_match t path =
     (if \<not> has_prefix path ''/'' then (False, []) else match_segments (pt_segments t) (drop 1 path))"

section \<open>Reference semantics and lemmas\<close>

definition segment_fits :: "template_segment \<Rightarrow> string \<Rightarrow> bool" where
  "segment_fits seg part \<longleftrightarrow> (if seg_is_var seg then part \<noteq> [] else part = seg_literal seg)"

definition segment_bindings :: "template_segment list \<Rightarrow> string list \<Rightarrow> (string \<times> string) list" where
  "segment_bindings segs parts =
     map (\<lambda>(s, p). (seg_name s, p)) (filter (\<lambda>(s, p). seg_is_var s) (zip segs parts))"

lemma segment_fits_simps [simp]:
  "seg_is_var seg \<Longrightarrow> segment_fits seg part \<longleftrightarrow> part \<noteq> []"
  "\<not> seg_is_var seg \<Longrightarrow> segment_fits seg part \<longleftrightarrow> part = seg_literal seg"
  by (simp_all add: segment_fits_def)

text \<open>One template part as it is written.\<close>

definition render_segment :: "template_segment \<Rightarrow> string" where
  "render_segment seg = (if seg_is_var seg then ''{'' @ seg_name seg @ ''}'' else seg_literal seg)"

text \<open>A segment with its variable filled in.\<close>

definition fill_segment :: "(string \<Rightarrow> string) \<Rightarrow> template_segment \<Rightarrow> string" where
  "fill_segment \<sigma> seg = (if seg_is_var seg then \<sigma> (seg_name seg) else seg_literal seg)"

definition fill_template :: "(string \<Rightarrow> string) \<Rightarrow> path_template \<Rightarrow> string" where
  "fill_template \<sigma> t = CHR ''/'' # join_str ''/'' (map (fill_segment \<sigma>) (pt_segments t))"

lemma split_slash:
  "index_byte rest c = Some i \<Longrightarrow> split rest c = take i rest # split (drop (Suc i) rest) c"
  by (metis index_byte_Some split_append)

lemma match_segments_split:
  "segs \<noteq> [] \<Longrightarrow>
   fst (match_segments segs rest) \<longleftrightarrow> list_all2 segment_fits segs (split rest (CHR ''/''))"
proof (induction segs arbitrary: rest)
  case (Cons seg segs)
  show ?case
  proof (cases "index_byte rest (CHR ''/'')")
    case None
    then have "split rest (CHR ''/'') = [rest]"
      by (simp add: index_byte_None split_no_sep)
    then show ?thesis
      using None by (cases segs) (auto simp: Let_def split: prod.splits)
  next
    case (Some i)
    show ?thesis
    proof (cases "segs = []")
      case True
      then show ?thesis using Some split_slash [OF Some] by (simp add: Let_def)
    next
      case False
      with Cons.IH [of "drop (Suc i) rest"] Some split_slash [OF Some] show ?thesis
        by (auto simp: Let_def split: prod.splits)
    qed
  qed
qed simp

lemma match_segments_bindings:
  "segs \<noteq> [] \<Longrightarrow> fst (match_segments segs rest) \<Longrightarrow>
   snd (match_segments segs rest) = segment_bindings segs (split rest (CHR ''/''))"
proof (induction segs arbitrary: rest)
  case (Cons seg segs)
  show ?case
  proof (cases "index_byte rest (CHR ''/'')")
    case None
    then have "split rest (CHR ''/'') = [rest]"
      by (simp add: index_byte_None split_no_sep)
    then show ?thesis
      using None Cons.prems by (cases segs) (auto simp: segment_bindings_def Let_def split: if_splits)
  next
    case (Some i)
    with Cons.prems have "segs \<noteq> []" by (auto simp: Let_def)
    with Cons.IH [of "drop (Suc i) rest"] Some split_slash [OF Some] Cons.prems show ?thesis
      by (auto simp: segment_bindings_def Let_def split: prod.splits if_splits)
  qed
qed simp

lemma brace_name:
  assumes "has_prefix part ''{''" and "has_suffix part ''}''"
  shows "part = ''{'' @ drop 1 (take (length part - 1) part) @ ''}''"
proof -
  from assms(1) obtain r where r: "part = CHR ''{'' # r" by (auto simp: has_prefix_iff)
  from assms(2) r have "r \<noteq> []" by (auto simp: has_suffix_def)
  then obtain m c where m: "r = m @ [c]" by (cases r rule: rev_cases) auto
  from assms(2) r m have "c = CHR ''}''" by (auto simp: has_suffix_def)
  with r m show ?thesis by simp
qed

lemma parse_segments_render:
  "parse_segments seen parts = Inr segs \<Longrightarrow> map render_segment segs = parts"
proof (induction seen parts arbitrary: segs rule: parse_segments.induct)
  case (2 seen part parts)
  then show ?case
    using brace_name [of part] by (auto simp: Let_def render_segment_def split: if_splits)
qed simp

lemma parse_segments_vars:
  "parse_segments seen parts = Inr segs \<Longrightarrow>
   distinct (segment_vars segs) \<and> set (segment_vars segs) \<inter> set seen = {} \<and> [] \<notin> set (segment_vars segs)"
proof (induction seen parts arbitrary: segs rule: parse_segments.induct)
  case (2 seen part parts)
  then show ?case by (fastforce simp: Let_def segment_vars_def split: if_splits)
qed (simp add: segment_vars_def)

lemma parse_segments_literals:
  "parse_segments seen parts = Inr segs \<Longrightarrow> seg \<in> set segs \<Longrightarrow> \<not> seg_is_var seg \<Longrightarrow>
   seg_literal seg \<in> set parts"
proof (induction seen parts arbitrary: segs rule: parse_segments.induct)
  case (2 seen part parts)
  then show ?case by (fastforce simp: Let_def split: if_splits)
qed simp

lemma leading_literals_prefix:
  "list_all2 segment_fits segs parts \<Longrightarrow> parts \<noteq> [] \<Longrightarrow>
   has_prefix (CHR ''/'' # join_str ''/'' parts) (leading_literals segs)"
proof (induction segs parts rule: list_all2_induct)
  case (Cons seg segs part parts)
  have tail: "CHR ''/'' # join_str ''/'' (part # parts) =
      CHR ''/'' # part @ (if parts = [] then [] else CHR ''/'' # join_str ''/'' parts)"
    by (cases parts) (simp_all add: join_str_def)
  show ?case
  proof (cases "seg_is_var seg \<or> parts = []")
    case True
    with Cons show ?thesis unfolding tail by (cases segs) (auto simp: has_prefix_def)
  next
    case False
    with Cons have "has_prefix (CHR ''/'' # join_str ''/'' parts) (leading_literals segs)" by simp
    with False Cons.hyps show ?thesis unfolding tail by (auto simp: has_prefix_def)
  qed
qed simp

lemma template_match_fits:
  assumes "parse_path_template source = Inr t"
  shows "template_match t path =
     (if has_prefix path ''/'' \<and>
         list_all2 segment_fits (pt_segments t) (split (drop 1 path) (CHR ''/''))
      then (True, segment_bindings (pt_segments t) (split (drop 1 path) (CHR ''/'')))
      else (False, snd (template_match t path)))"
proof -
  from assms obtain segs where "parse_segments [] (split (trim_prefix source ''/'') (CHR ''/'')) = Inr segs"
    and t: "pt_segments t = segs"
    by (auto simp: parse_path_template_def split: if_splits)
  then have "map render_segment segs \<noteq> []"
    by (simp add: parse_segments_render)
  then have "segs \<noteq> []" by simp
  then show ?thesis
    using match_segments_split [of segs "drop 1 path"] match_segments_bindings [of segs "drop 1 path"] t
    by (auto simp: template_match_def prod_eq_iff)
qed

lemma template_prefix:
  assumes "parse_path_template source = Inr t" and "fst (template_match t path)"
  shows "has_prefix path (pt_literal_prefix t)"
proof -
  let ?parts = "split (drop 1 path) (CHR ''/'')"
  from assms have fits: "list_all2 segment_fits (pt_segments t) ?parts" and slash: "has_prefix path ''/''"
    by (auto simp: template_match_fits [OF assms(1)] split: if_splits)
  from slash have path: "path = CHR ''/'' # join_str ''/'' ?parts"
    by (auto simp: join_split has_prefix_iff)
  have "has_prefix path (leading_literals (pt_segments t))"
    by (subst path) (rule leading_literals_prefix [OF fits], simp)
  then show ?thesis
    using assms(1) slash
    by (auto simp: parse_path_template_def compute_template_prefix_def Let_def split: if_splits)
qed

section \<open>Properties\<close>

text \<open>
  C38. A path matches a template exactly when, cut at every slash after the first byte, its parts
  line up one to one with the template's segments: a literal part is equal to its segment and a
  variable's part is not empty. The in-place walk of \<^verbatim>\<open>PathTemplate.Match\<close> computes that
  for every path, including those with too few or too many parts, and the bindings it reports on
  success are exactly the variables' parts in order.
\<close>

theorem template_match_split:
  assumes "parse_path_template source = Inr t"
  shows "template_match t path =
     (if has_prefix path ''/'' \<and>
         list_all2 segment_fits (pt_segments t) (split (drop 1 path) (CHR ''/''))
      then (True, segment_bindings (pt_segments t) (split (drop 1 path) (CHR ''/'')))
      else (False, snd (template_match t path)))"
  using assms by (rule template_match_fits)

theorem template_match_split_witness:
  "fst (template_match \<lparr>pt_source = ''/a/{id}'', pt_segments = [lit_segment ''a'', var_segment ''id''],
      pt_vars = [''id''], pt_literal_prefix = ''/a''\<rparr> ''/a/7'')"
proof -
  have "parse_path_template ''/a/{id}'' =
      Inr \<lparr>pt_source = ''/a/{id}'', pt_segments = [lit_segment ''a'', var_segment ''id''],
      pt_vars = [''id''], pt_literal_prefix = ''/a''\<rparr>"
    by code_simp
  from template_match_split [OF this, of "''/a/7''"] show ?thesis
    by (simp add: has_prefix_def)
qed

text \<open>
  C40. The compiled literal prefix is a sound prefilter: the engine skips a template candidate whose
  \<^verbatim>\<open>LiteralPrefix\<close> the path does not start with, and no path the template would have matched
  is lost that way.
\<close>

theorem template_prefix_sound:
  assumes "parse_path_template source = Inr t" and "fst (template_match t path)"
  shows "has_prefix path (pt_literal_prefix t)"
  using assms by (rule template_prefix)

theorem template_prefix_sound_witness: "has_prefix ''/orders/7'' ''/orders''"
proof -
  let ?t = "\<lparr>pt_source = ''/orders/{id}'', pt_segments = [lit_segment ''orders'', var_segment ''id''],
      pt_vars = [''id''], pt_literal_prefix = ''/orders''\<rparr>"
  have "parse_path_template ''/orders/{id}'' = Inr ?t" by code_simp
  moreover have "fst (template_match ?t ''/orders/7'')" by code_simp
  ultimately show ?thesis using template_prefix_sound [of "''/orders/{id}''" ?t] by simp
qed

text \<open>
  C39. Parsing loses nothing and binds every variable once: the segments of an accepted template
  render back to the source, the variable names are distinct and non-empty, and filling the
  variables with any non-empty slash-free values gives a path the template matches, binding
  exactly those values.
\<close>

theorem template_roundtrip:
  assumes "parse_path_template source = Inr t"
    and "\<And>x. x \<in> set (pt_vars t) \<Longrightarrow> \<sigma> x \<noteq> [] \<and> CHR ''/'' \<notin> set (\<sigma> x)"
  shows "CHR ''/'' # join_str ''/'' (map render_segment (pt_segments t)) = source \<and>
    distinct (pt_vars t) \<and> [] \<notin> set (pt_vars t) \<and>
    template_match t (fill_template \<sigma> t) = (True, map (\<lambda>x. (x, \<sigma> x)) (pt_vars t))"
proof -
  let ?parts = "split (trim_prefix source ''/'') (CHR ''/'')"
  from assms(1) have segs: "parse_segments [] ?parts = Inr (pt_segments t)"
    and vars: "pt_vars t = segment_vars (pt_segments t)" and slash: "has_prefix source ''/''"
    by (auto simp: parse_path_template_def split: if_splits)
  have r1: "CHR ''/'' # join_str ''/'' (map render_segment (pt_segments t)) = source"
    using slash parse_segments_render [OF segs]
    by (auto simp: join_split trim_prefix_def has_prefix_iff)
  have r2: "distinct (pt_vars t) \<and> [] \<notin> set (pt_vars t)"
    using parse_segments_vars [OF segs] vars by simp
  let ?filled = "map (fill_segment \<sigma>) (pt_segments t)"
  have ne: "pt_segments t \<noteq> []"
    using parse_segments_render [OF segs] by (metis list.map_disc_iff split_nonempty)
  have free: "CHR ''/'' \<notin> set (fill_segment \<sigma> seg) \<and> segment_fits seg (fill_segment \<sigma> seg)"
    if "seg \<in> set (pt_segments t)" for seg
    using that assms(2) vars parse_segments_literals [OF segs that] split_parts [of _ "trim_prefix source ''/''"]
    by (cases "seg_is_var seg") (fastforce simp: fill_segment_def segment_vars_def)+
  have split: "split (join_str ''/'' ?filled) (CHR ''/'') = ?filled"
    by (rule split_join) (use ne free in auto)
  have "list_all2 segment_fits (pt_segments t) ?filled"
    using free by (auto simp: list_all2_conv_all_nth)
  moreover have "segment_bindings segs (map (fill_segment \<sigma>) segs) = map (\<lambda>x. (x, \<sigma> x)) (segment_vars segs)"
    for segs
    by (induction segs) (auto simp: segment_bindings_def segment_vars_def fill_segment_def)
  ultimately have "template_match t (fill_template \<sigma> t) = (True, map (\<lambda>x. (x, \<sigma> x)) (pt_vars t))"
    by (simp add: template_match_fits [OF assms(1)] fill_template_def split vars has_prefix_def)
  with r1 r2 show ?thesis by simp
qed

theorem template_roundtrip_witness:
  "template_match \<lparr>pt_source = ''/o/{id}/{x}'',
      pt_segments = [lit_segment ''o'', var_segment ''id'', var_segment ''x''],
      pt_vars = [''id'', ''x''], pt_literal_prefix = ''/o''\<rparr> ''/o/v/v'' =
   (True, [(''id'', ''v''), (''x'', ''v'')])"
proof -
  let ?t = "\<lparr>pt_source = ''/o/{id}/{x}'',
      pt_segments = [lit_segment ''o'', var_segment ''id'', var_segment ''x''],
      pt_vars = [''id'', ''x''], pt_literal_prefix = ''/o''\<rparr>"
  have "parse_path_template ''/o/{id}/{x}'' = Inr ?t" by code_simp
  moreover have "fill_template (\<lambda>_. ''v'') ?t = ''/o/v/v''" by code_simp
  ultimately show ?thesis
    using template_roundtrip [of "''/o/{id}/{x}''" ?t "\<lambda>_. ''v''"] by simp
qed

end
