(* ===== verification/Array_Pairing.thy ===== *)
theory Array_Pairing
  imports Mock_Prelude
begin

text \<open>
  \<^verbatim>\<open>arrayEqualUnordered\<close>, \<^verbatim>\<open>arrayMatchable\<close> and \<^verbatim>\<open>augmentPairing\<close> of
  \<^verbatim>\<open>internal/matchers/matchers.go\<close>: pairing every expected array element with a distinct actual
  one, by a greedy pass first and Kuhn's augmenting paths when that fails. The element comparison
  is a parameter here, because the routine never looks inside it. The main result is that the two
  passes together decide the existence of such a pairing, whatever the comparison is.
\<close>

section \<open>The greedy pass\<close>

text \<open>The inner loop: the first unused actual element that the expected one accepts.\<close>

fun first_unused :: "('a \<Rightarrow> 'b \<Rightarrow> bool) \<Rightarrow> 'a \<Rightarrow> 'b list \<Rightarrow> bool list \<Rightarrow> nat option" where
  "first_unused R e (a # as) (u # us) =
     (if \<not> u \<and> R e a then Some 0 else map_option Suc (first_unused R e as us))"
| "first_unused R e _ _ = None"

text \<open>The outer loop: \<open>True\<close> when every expected element found one, \<open>False\<close> at the first that did not.\<close>

fun greedy_pairing :: "('a \<Rightarrow> 'b \<Rightarrow> bool) \<Rightarrow> 'a list \<Rightarrow> 'b list \<Rightarrow> bool list \<Rightarrow> bool" where
  "greedy_pairing R [] as used = True"
| "greedy_pairing R (e # es) as used =
     (case first_unused R e as used of
        None \<Rightarrow> False
      | Some i \<Rightarrow> greedy_pairing R es as (used[i := True]))"

section \<open>Augmenting paths\<close>

text \<open>
  \<^verbatim>\<open>augmentPairing(i, candidates, pairedWith, visited)\<close>. The slices it writes through are passed
  and returned; \<open>None\<close> stands for the \<^verbatim>\<open>-1\<close> of an unpaired element, and \<open>js\<close> is what is left of
  \<^verbatim>\<open>range candidates[i]\<close>. Candidate indices are always in range in the code; the bound test makes
  the function total.
\<close>

definition unvisited :: "bool list \<Rightarrow> nat set" where
  "unvisited v = {j. j < length v \<and> \<not> v ! j}"

lemma unvisited_code [code]: "unvisited v = set (filter (\<lambda>j. \<not> v ! j) [0..<length v])"
  by (auto simp: unvisited_def)

lemma finite_unvisited [simp]: "finite (unvisited v)"
  by (simp add: unvisited_def)

lemma unvisited_update: "j \<in> unvisited v \<Longrightarrow> unvisited (v[j := True]) = unvisited v - {j}"
  by (auto simp: unvisited_def nth_list_update)

lemma card_unvisited_less:
  assumes "j \<in> unvisited v" and "unvisited v' \<subseteq> unvisited (v[j := True])"
  shows "card (unvisited v') < card (unvisited v)"
proof (rule psubset_card_mono)
  show "unvisited v' \<subset> unvisited v"
    using assms unvisited_update [OF assms(1)] by auto
qed simp

function augment_pairing :: "nat list list \<Rightarrow> nat \<Rightarrow> nat list \<Rightarrow> nat option list \<Rightarrow> bool list \<Rightarrow>
    bool \<times> nat option list \<times> bool list" where
  "augment_pairing C i [] p v = (False, p, v)"
| "augment_pairing C i (j # js) p v =
     (if j \<notin> unvisited v then augment_pairing C i js p v
      else (let v1 = v[j := True] in
            case p ! j of
              None \<Rightarrow> (True, p[j := Some i], v1)
            | Some k \<Rightarrow>
                (case augment_pairing C k (C ! k) p v1 of
                   (True, p', v') \<Rightarrow> (True, p'[j := Some i], v')
                 | (False, p', v') \<Rightarrow> augment_pairing C i js p' v')))"
  by pat_completeness auto

lemma augment_pairing_unvisited_dom:
  "augment_pairing_dom (C, i, js, p, v) \<Longrightarrow>
   unvisited (snd (snd (augment_pairing C i js p v))) \<subseteq> unvisited v"
proof (induction rule: augment_pairing.pinduct)
  case (1 C i p v)
  then show ?case by (simp add: augment_pairing.psimps)
next
  case (2 C i j js p v)
  note dom = "2.hyps"
  show ?case
  proof (cases "j \<in> unvisited v")
    case False
    with "2.IH"(1) dom show ?thesis by (simp add: augment_pairing.psimps)
  next
    case True
    note up = unvisited_update [OF True]
    show ?thesis
    proof (cases "p ! j")
      case None
      with True dom up show ?thesis by (auto simp: augment_pairing.psimps)
    next
      case (Some k)
      obtain b p' v' where r: "augment_pairing C k (C ! k) p (v[j := True]) = (b, p', v')"
        by (metis prod_cases3)
      have le: "unvisited v' \<subseteq> unvisited v"
        using "2.IH"(2) [OF _ refl Some] True r up by auto
      show ?thesis
      proof (cases b)
        case True
        with r le Some \<open>j \<in> unvisited v\<close> dom show ?thesis by (simp add: augment_pairing.psimps)
      next
        case False
        then have "unvisited (snd (snd (augment_pairing C i js p' v'))) \<subseteq> unvisited v'"
          using "2.IH"(3) [OF _ refl Some r [symmetric]] True by auto
        with False r le Some \<open>j \<in> unvisited v\<close> dom show ?thesis
          by (auto simp: augment_pairing.psimps)
      qed
    qed
  qed
qed

termination augment_pairing
proof (relation "measures [\<lambda>(C, i, js, p, v). card (unvisited v), \<lambda>(C, i, js, p, v). length js]", goal_cases)
  case (3 C i j js p v v1 k)
  then show ?case using card_unvisited_less [of j v "v[j := True]"] by simp
next
  case (4 C i j js p v v1 k b rest p' v')
  then have "unvisited v' \<subseteq> unvisited (v[j := True])"
    using augment_pairing_unvisited_dom [of C k "C ! k" p "v[j := True]"] by (metis snd_conv)
  then have "card (unvisited v') < card (unvisited v)"
    using 4 card_unvisited_less [of j v v'] by blast
  with 4 show ?case by (cases rest) simp
qed auto

text \<open>The outer loop of \<^verbatim>\<open>arrayMatchable\<close>: one search per expected element, \<open>visited\<close> cleared each time.\<close>

fun augment_all :: "nat list list \<Rightarrow> nat list \<Rightarrow> nat option list \<Rightarrow> bool" where
  "augment_all C [] p = True"
| "augment_all C (i # is) p =
     (case augment_pairing C i (C ! i) p (replicate (length p) False) of
        (ok, p', v') \<Rightarrow> if ok then augment_all C is p' else False)"

definition candidates :: "('a \<Rightarrow> 'b \<Rightarrow> bool) \<Rightarrow> 'b list \<Rightarrow> 'a \<Rightarrow> nat list" where
  "candidates R as e = filter (\<lambda>j. R e (as ! j)) [0..<length as]"

text \<open>
  \<^verbatim>\<open>arrayMatchable\<close>. The code returns as soon as one adjacency list is empty; building the others
  first has no effect, so the test is on the whole table.
\<close>

definition array_matchable :: "('a \<Rightarrow> 'b \<Rightarrow> bool) \<Rightarrow> 'a list \<Rightarrow> 'b list \<Rightarrow> bool" where
  "array_matchable R es as =
     (let C = map (candidates R as) es in
      if [] \<in> set C then False
      else augment_all C [0..<length es] (replicate (length as) None))"

definition array_equal_unordered :: "('a \<Rightarrow> 'b \<Rightarrow> bool) \<Rightarrow> bool \<Rightarrow> 'a list \<Rightarrow> 'b list \<Rightarrow> bool" where
  "array_equal_unordered R ignore_extra es as =
     (if length as < length es \<or> (\<not> ignore_extra \<and> length as \<noteq> length es) then False
      else if greedy_pairing R es as (replicate (length as) False) then True
      else array_matchable R es as)"

section \<open>Kuhn's search is correct\<close>

text \<open>A pairing uses candidate edges only and pairs no expected element twice.\<close>

definition pairing_ok :: "nat list list \<Rightarrow> nat option list \<Rightarrow> bool" where
  "pairing_ok C p \<longleftrightarrow>
     (\<forall>j a. j < length p \<longrightarrow> p ! j = Some a \<longrightarrow> j \<in> set (C ! a)) \<and>
     (\<forall>j j' a. j < length p \<longrightarrow> j' < length p \<longrightarrow> p ! j = Some a \<longrightarrow> p ! j' = Some a \<longrightarrow> j = j')"

definition paired :: "nat option list \<Rightarrow> nat \<Rightarrow> bool" where
  "paired p a \<longleftrightarrow> (\<exists>j < length p. p ! j = Some a)"

lemma paired_update:
  "j < length p \<Longrightarrow> paired (p[j := Some i]) a \<longleftrightarrow> a = i \<or> (\<exists>j' < length p. j' \<noteq> j \<and> p ! j' = Some a)"
  unfolding paired_def by (auto simp: nth_list_update)

text \<open>
  What a successful search leaves behind. The element \<open>i\<close> it started from now has exactly one
  partner among the positions that were unvisited; its old partner, if any, is visited and is
  about to be overwritten by the caller.
\<close>

definition augmented :: "nat list list \<Rightarrow> nat \<Rightarrow> nat option list \<Rightarrow> bool list \<Rightarrow> nat option list \<Rightarrow> bool" where
  "augmented C i p v p' \<longleftrightarrow>
     length p' = length p \<and>
     (\<forall>j. j < length p \<longrightarrow> v ! j \<longrightarrow> p' ! j = p ! j) \<and>
     (\<exists>j0 \<in> unvisited v. p' ! j0 = Some i \<and> (\<forall>j \<in> unvisited v. p' ! j = Some i \<longrightarrow> j = j0)) \<and>
     (\<forall>j a. j < length p \<longrightarrow> p' ! j = Some a \<longrightarrow> j \<in> set (C ! a)) \<and>
     (\<forall>j j' a. a \<noteq> i \<longrightarrow> j < length p \<longrightarrow> j' < length p \<longrightarrow> p' ! j = Some a \<longrightarrow> p' ! j' = Some a \<longrightarrow> j = j') \<and>
     (\<forall>a. paired p' a \<longleftrightarrow> a = i \<or> paired p a)"

lemma augment_pairing_length:
  "augment_pairing C i js p v = (b, p', v') \<Longrightarrow> length p' = length p \<and> length v' = length v"
proof (induction C i js p v arbitrary: b p' v' rule: augment_pairing.induct)
  case (2 C i j js p v)
  then show ?case
    by (auto simp: Let_def split: if_splits option.splits prod.splits bool.splits)
qed simp

lemma augment_pairing_failure:
  assumes "augment_pairing C i js p v = (False, p', v')" and "length v = length p"
  shows "p' = p \<and> unvisited v' \<subseteq> unvisited v \<and> set js \<inter> unvisited v' = {} \<and>
    (\<forall>j \<in> unvisited v - unvisited v'. \<exists>k. p ! j = Some k \<and> set (C ! k) \<inter> unvisited v' = {})"
  using assms
proof (induction C i js p v arbitrary: p' v' rule: augment_pairing.induct)
  case (1 C i p v)
  then show ?case by simp
next
  case (2 C i j js p v)
  show ?case
  proof (cases "j \<in> unvisited v")
    case False
    then have "augment_pairing C i js p v = (False, p', v')" using "2.prems"(1) by simp
    from "2.IH"(1) [OF False this "2.prems"(2)] False show ?thesis by auto
  next
    case j: True
    obtain k where Some: "p ! j = Some k" using j "2.prems"(1) by (cases "p ! j") (auto simp: Let_def)
    obtain b p1 v2 where r: "augment_pairing C k (C ! k) p (v[j := True]) = (b, p1, v2)"
      by (metis prod_cases3)
    have b: "b = False" using j Some r "2.prems"(1) by (cases b) (auto simp: Let_def)
    have nn: "\<not> j \<notin> unvisited v" using j by simp
    have IH1: "p1 = p \<and> unvisited v2 \<subseteq> unvisited (v[j := True]) \<and> set (C ! k) \<inter> unvisited v2 = {} \<and>
        (\<forall>j' \<in> unvisited (v[j := True]) - unvisited v2. \<exists>k. p ! j' = Some k \<and> set (C ! k) \<inter> unvisited v2 = {})"
      using "2.IH"(2) [OF nn refl Some, of p1 v2] r b "2.prems"(2) by simp
    have "augment_pairing C i js p v2 = (False, p', v')"
      using j Some r b IH1 "2.prems"(1) by (simp add: Let_def)
    moreover have "length v2 = length p"
      using augment_pairing_length [OF r] "2.prems"(2) by simp
    ultimately have IH2: "p' = p \<and> unvisited v' \<subseteq> unvisited v2 \<and> set js \<inter> unvisited v' = {} \<and>
        (\<forall>j' \<in> unvisited v2 - unvisited v'. \<exists>k. p ! j' = Some k \<and> set (C ! k) \<inter> unvisited v' = {})"
      using "2.IH"(3) [OF nn refl Some r [symmetric] b refl] IH1 by simp
    have "\<exists>k'. p ! j' = Some k' \<and> set (C ! k') \<inter> unvisited v' = {}"
      if "j' \<in> unvisited v" "j' \<notin> unvisited v'" for j'
    proof (cases "j' \<in> unvisited v2")
      case True
      then show ?thesis using IH2 that by blast
    next
      case False
      then have "\<exists>k'. p ! j' = Some k' \<and> set (C ! k') \<inter> unvisited v2 = {}"
        using IH1 Some that unvisited_update [OF j] by (cases "j' = j") auto
      then show ?thesis using IH2 by blast
    qed
    moreover have "j \<notin> unvisited v'" using IH1 IH2 unvisited_update [OF j] by blast
    moreover have "unvisited v' \<subseteq> unvisited v" using IH1 IH2 unvisited_update [OF j] by blast
    ultimately show ?thesis using IH2 by auto
  qed
qed

lemma augment_pairing_success:
  assumes "augment_pairing C i js p v = (True, p', v')"
    and "length v = length p" and "pairing_ok C p" and "set js \<subseteq> set (C ! i)"
    and "\<forall>j < length p. p ! j = Some i \<longrightarrow> v ! j"
  shows "augmented C i p v p'"
  using assms
proof (induction C i js p v arbitrary: p' v' rule: augment_pairing.induct)
  case (1 C i p v)
  then show ?case by simp
next
  case (2 C i j js p v)
  show ?case
  proof (cases "j \<in> unvisited v")
    case False
    then show ?thesis using "2.IH"(1) "2.prems" by simp
  next
    case j: True
    then have jlen: "j < length p" and jv: "\<not> v ! j" using "2.prems"(2) by (auto simp: unvisited_def)
    let ?v1 = "v[j := True]"
    show ?thesis
    proof (cases "p ! j")
      case None
      then have p': "p' = p[j := Some i]" using j "2.prems"(1) by simp
      have "paired p' a \<longleftrightarrow> a = i \<or> paired p a" for a
        unfolding p' paired_update [OF jlen] using None by (auto simp: paired_def)
      then show ?thesis
        using j jlen jv None "2.prems" unfolding p' augmented_def pairing_ok_def
        by (auto simp: nth_list_update unvisited_def)
    next
      case (Some k)
      have ki: "k \<noteq> i" using Some jlen jv "2.prems"(5) by blast
      obtain b p1 v2 where r: "augment_pairing C k (C ! k) p ?v1 = (b, p1, v2)"
        by (metis prod_cases3)
      show ?thesis
      proof (cases b)
        case True
        then have p': "p' = p1[j := Some i]" using j Some r "2.prems"(1) by simp
        have kv: "\<forall>j' < length p. p ! j' = Some k \<longrightarrow> ?v1 ! j'"
          using "2.prems"(2,3) Some jlen by (auto simp: pairing_ok_def nth_list_update)
        have "augmented C k p ?v1 p1"
          using "2.IH"(2) [OF _ refl Some] j r True "2.prems"(2,3) kv by simp
        then have A: "length p1 = length p" "\<forall>j'<length p. ?v1 ! j' \<longrightarrow> p1 ! j' = p ! j'"
          "\<exists>j0\<in>unvisited v - {j}. p1 ! j0 = Some k \<and> (\<forall>j'\<in>unvisited v - {j}. p1 ! j' = Some k \<longrightarrow> j' = j0)"
          "\<forall>j' a. j' < length p \<longrightarrow> p1 ! j' = Some a \<longrightarrow> j' \<in> set (C ! a)"
          "\<forall>j1 j2 a. a \<noteq> k \<longrightarrow> j1 < length p \<longrightarrow> j2 < length p \<longrightarrow> p1 ! j1 = Some a \<longrightarrow> p1 ! j2 = Some a \<longrightarrow> j1 = j2"
          "\<forall>a. paired p1 a \<longleftrightarrow> a = k \<or> paired p a"
          unfolding augmented_def unvisited_update [OF j] by blast+
        have p1j: "p1 ! j = Some k" using A(2) jlen Some "2.prems"(2) by simp
        obtain j0 where j0: "j0 \<in> unvisited v" "j0 \<noteq> j" "p1 ! j0 = Some k"
          and j0u: "\<And>j'. j' \<in> unvisited v \<Longrightarrow> j' \<noteq> j \<Longrightarrow> p1 ! j' = Some k \<Longrightarrow> j' = j0"
          using A(3) by blast
        have j0len: "j0 < length p" using j0(1) "2.prems"(2) by (simp add: unvisited_def)
        have "paired p' a \<longleftrightarrow> a = i \<or> paired p a" for a
        proof
          assume "paired p' a"
          then have "a = i \<or> paired p1 a"
            unfolding p' paired_update [OF jlen [folded A(1)]] by (auto simp: paired_def)
          then show "a = i \<or> paired p a" using A(6) Some jlen by (auto simp: paired_def)
        next
          assume "a = i \<or> paired p a"
          moreover have "\<exists>j' < length p1. j' \<noteq> j \<and> p1 ! j' = Some a" if pa: "paired p a"
          proof (cases "a = k")
            case True
            then show ?thesis using j0 j0len A(1) by auto
          next
            case False
            have "paired p1 a" using pa A(6) by simp
            then obtain j' where "j' < length p1" "p1 ! j' = Some a" by (auto simp: paired_def)
            then show ?thesis using False p1j by auto
          qed
          ultimately show "paired p' a" unfolding p' paired_update [OF jlen [folded A(1)]] by blast
        qed
        moreover have "p' ! j' = p ! j'" if "j' < length p" "v ! j'" for j'
          using that A(1,2) jv "2.prems"(2) unfolding p' by (cases "j' = j") (auto simp: nth_list_update)
        moreover have "j' = j" if "j' \<in> unvisited v" "p' ! j' = Some i" for j'
        proof (rule ccontr)
          assume ne: "j' \<noteq> j"
          with that(2) have pi: "p1 ! j' = Some i" unfolding p' by simp
          have jl: "j' < length p" using that(1) "2.prems"(2) by (simp add: unvisited_def)
          then have "paired p i" using pi A(1,6) ki unfolding paired_def by metis
          then obtain j3 where j3: "j3 < length p" "p ! j3 = Some i" by (auto simp: paired_def)
          then have "v ! j3" using "2.prems"(5) by blast
          moreover from this have "j3 \<noteq> j" using jv by blast
          ultimately have "?v1 ! j3" by simp
          then have "p1 ! j3 = Some i" using A(2) j3 by simp
          then have "j' = j3" using A(5) [rule_format, of i j' j3] ki pi jl j3(1) by simp
          with \<open>v ! j3\<close> that(1) show False by (simp add: unvisited_def)
        qed
        moreover have "j' \<in> set (C ! a)" if "j' < length p" "p' ! j' = Some a" for j' a
          using that A(1,4) "2.prems"(4) unfolding p' by (cases "j' = j") auto
        moreover have "j1 = j2"
          if "a \<noteq> i" "j1 < length p" "j2 < length p" "p' ! j1 = Some a" "p' ! j2 = Some a" for j1 j2 a
        proof -
          have pj: "p' ! j = Some i" using A(1) jlen unfolding p' by simp
          have n: "j1 \<noteq> j" "j2 \<noteq> j" using that(1,4,5) pj by auto
          then have e: "p1 ! j1 = Some a" "p1 ! j2 = Some a" using that(4,5) unfolding p' by simp_all
          show ?thesis
          proof (cases "a = k")
            case False
            then show ?thesis using A(5) that(2,3) e by blast
          next
            case True
            have unv: "j' \<in> unvisited v" if "j' < length p" "j' \<noteq> j" "p1 ! j' = Some k" for j'
            proof (rule ccontr)
              assume "j' \<notin> unvisited v"
              then have "v ! j'" using that(1) "2.prems"(2) by (simp add: unvisited_def)
              then have "p ! j' = Some k" using A(2) that "2.prems"(2) by (metis nth_list_update_neq)
              then show False using "2.prems"(3) Some that(1,2) jlen by (auto simp: pairing_ok_def)
            qed
            show ?thesis using unv j0u that(2,3) n e True by metis
          qed
        qed
        moreover have "length p' = length p" "p' ! j = Some i" using A(1) jlen unfolding p' by auto
        ultimately show ?thesis unfolding augmented_def using j by blast
      next
        case False
        have lv: "length v2 = length p"
          using augment_pairing_length [OF r] "2.prems"(2) by simp
        have fail: "p1 = p" "unvisited v2 \<subseteq> unvisited v"
          using augment_pairing_failure [of C k "C ! k" p ?v1 p1 v2] r False "2.prems"(2)
            unvisited_update [OF j] by auto
        have vis: "v2 ! j'" if "j' < length p" "v ! j'" for j'
          using that fail(2) lv by (auto simp: unvisited_def)
        have "augment_pairing C i js p v2 = (True, p', v')"
          using j Some r False fail(1) "2.prems"(1) by (simp add: Let_def)
        moreover have nn: "\<not> j \<notin> unvisited v" using j by simp
        moreover have js: "set js \<subseteq> set (C ! i)" using "2.prems"(4) by simp
        moreover have vis5: "\<forall>j' < length p. p ! j' = Some i \<longrightarrow> v2 ! j'" using "2.prems"(5) vis by blast
        moreover have bF: "b = False" using False by simp
        ultimately have aug: "augmented C i p v2 p'"
          using "2.IH"(3) [OF nn refl Some r [symmetric] bF refl, unfolded fail(1), of p' v']
            lv "2.prems"(3) js vis5 by blast
        have same: "p' ! j' = p ! j'" if "j' < length p" "v ! j'" for j'
          using aug that vis unfolding augmented_def by blast
        have uniq: "j' \<in> unvisited v2" if "j' \<in> unvisited v" "p' ! j' = Some i" for j'
        proof (rule ccontr)
          assume "j' \<notin> unvisited v2"
          then have jl: "j' < length p" and "v2 ! j'"
            using that(1) lv "2.prems"(2) by (auto simp: unvisited_def)
          then have "p ! j' = Some i" using aug that(2) unfolding augmented_def by simp
          then have "v ! j'" using "2.prems"(5) jl by blast
          then show False using that(1) by (simp add: unvisited_def)
        qed
        obtain j0 where j0: "j0 \<in> unvisited v2" "p' ! j0 = Some i"
          "\<And>j'. j' \<in> unvisited v2 \<Longrightarrow> p' ! j' = Some i \<Longrightarrow> j' = j0"
          using aug unfolding augmented_def by blast
        have "\<exists>j0 \<in> unvisited v. p' ! j0 = Some i \<and> (\<forall>j \<in> unvisited v. p' ! j = Some i \<longrightarrow> j = j0)"
          using j0 uniq fail(2) by blast
        with aug same show ?thesis unfolding augmented_def by simp
      qed
    qed
  qed
qed

lemma unvisited_replicate [simp]: "unvisited (replicate n False) = {..<n}"
  by (auto simp: unvisited_def)

lemma augmented_pairing_ok:
  assumes "augmented C i p (replicate (length p) False) p'"
  shows "pairing_ok C p' \<and> length p' = length p \<and> (\<forall>a. paired p' a \<longleftrightarrow> a = i \<or> paired p a)"
proof -
  from assms have len: "length p' = length p"
    and edges: "\<forall>j a. j < length p \<longrightarrow> p' ! j = Some a \<longrightarrow> j \<in> set (C ! a)"
    and other: "\<forall>j j' a. a \<noteq> i \<longrightarrow> j < length p \<longrightarrow> j' < length p \<longrightarrow> p' ! j = Some a \<longrightarrow> p' ! j' = Some a \<longrightarrow> j = j'"
    and cover: "\<forall>a. paired p' a \<longleftrightarrow> a = i \<or> paired p a"
    unfolding augmented_def by blast+
  from assms obtain j0 where "\<forall>j \<in> {..<length p}. p' ! j = Some i \<longrightarrow> j = j0"
    unfolding augmented_def by auto
  then have "\<forall>j j' a. j < length p \<longrightarrow> j' < length p \<longrightarrow> p' ! j = Some a \<longrightarrow> p' ! j' = Some a \<longrightarrow> j = j'"
    using other by (metis lessThan_iff)
  with len edges cover show ?thesis unfolding pairing_ok_def by simp
qed

text \<open>
  A failed search exhibits a Hall violator: the actual elements it visited are all paired, and
  the expected elements paired with them, together with the one that failed, have no other
  candidates.
\<close>

lemma augment_pairing_stuck:
  assumes fail: "augment_pairing C i (C ! i) p (replicate (length p) False) = (False, p', v')"
    and ok: "pairing_ok C p" and new: "\<not> paired p i"
    and D: "i \<in> D" "\<And>a. paired p a \<Longrightarrow> a \<in> D"
    and f: "inj_on f D" "\<And>a. a \<in> D \<Longrightarrow> f a \<in> set (C ! a) \<and> f a < length p"
  shows False
proof -
  let ?J = "{..<length p} - unvisited v'"
  let ?K = "{k. \<exists>j \<in> ?J. p ! j = Some k}"
  have A: "set (C ! i) \<inter> unvisited v' = {}"
    "\<forall>j \<in> ?J. \<exists>k. p ! j = Some k \<and> set (C ! k) \<inter> unvisited v' = {}"
    using augment_pairing_failure [OF fail] by simp_all
  have K: "?K = (\<lambda>j. the (p ! j)) ` ?J" using A(2) by force
  have "inj_on (\<lambda>j. the (p ! j)) ?J"
    using A(2) ok unfolding pairing_ok_def inj_on_def
    by (metis DiffD1 lessThan_iff option.sel)
  then have card_K: "card ?K = card ?J" unfolding K by (rule card_image)
  have KD: "insert i ?K \<subseteq> D" using D by (auto simp: paired_def)
  have "f ` insert i ?K \<subseteq> ?J"
  proof
    fix j assume "j \<in> f ` insert i ?K"
    then obtain a where a: "a \<in> insert i ?K" "j = f a" by blast
    have "set (C ! a) \<inter> unvisited v' = {}"
    proof (cases "a = i")
      case False
      then obtain j' where "j' \<in> ?J" "p ! j' = Some a" using a(1) by blast
      moreover obtain k where "p ! j' = Some k" "set (C ! k) \<inter> unvisited v' = {}"
        using A(2) calculation(1) by blast
      ultimately show ?thesis by simp
    qed (use A(1) in simp)
    then show "j \<in> ?J" using f(2) [of a] a KD by auto
  qed
  then have "card (f ` insert i ?K) \<le> card ?J" by (intro card_mono) auto
  moreover have "card (f ` insert i ?K) = card (insert i ?K)"
    using f(1) KD by (intro card_image) (rule inj_on_subset)
  moreover have "i \<notin> ?K" using new by (auto simp: paired_def)
  moreover have "finite ?K" unfolding K by simp
  ultimately show False using card_K by simp
qed

lemma augment_all_iff:
  assumes "pairing_ok C p" and "distinct is" and "\<forall>i \<in> set is. \<not> paired p i"
    and "\<And>i. i \<in> set is \<Longrightarrow> set (C ! i) \<subseteq> {..<length p}"
    and "\<And>a. paired p a \<Longrightarrow> set (C ! a) \<subseteq> {..<length p}"
  shows "augment_all C is p \<longleftrightarrow>
     (\<exists>f. inj_on f (set is \<union> {a. paired p a}) \<and> (\<forall>a \<in> set is \<union> {a. paired p a}. f a \<in> set (C ! a)))"
  using assms
proof (induction "is" arbitrary: p)
  case Nil
  let ?f = "\<lambda>a. SOME j. j < length p \<and> p ! j = Some a"
  have f: "?f a < length p \<and> p ! ?f a = Some a" if "paired p a" for a
    using that unfolding paired_def by (metis (mono_tags, lifting) someI_ex)
  then have "inj_on ?f {a. paired p a}"
    unfolding inj_on_def by (metis mem_Collect_eq option.inject)
  moreover have "?f a \<in> set (C ! a)" if "paired p a" for a
    using f [OF that] Nil.prems(1) unfolding pairing_ok_def by blast
  ultimately show ?case by auto
next
  case (Cons i "is")
  obtain ok p' v' where r: "augment_pairing C i (C ! i) p (replicate (length p) False) = (ok, p', v')"
    by (metis prod_cases3)
  show ?case
  proof (cases ok)
    case True
    have "augmented C i p (replicate (length p) False) p'"
      using augment_pairing_success [of C i "C ! i" p "replicate (length p) False" p' v'] r True Cons.prems
      by (auto simp: paired_def)
    from augmented_pairing_ok [OF this] have P: "pairing_ok C p'" "length p' = length p"
      "\<forall>a. paired p' a \<longleftrightarrow> a = i \<or> paired p a" by blast+
    have "set is \<union> {a. paired p' a} = set (i # is) \<union> {a. paired p a}" using P(3) by auto
    moreover have "augment_all C is p' \<longleftrightarrow>
        (\<exists>f. inj_on f (set is \<union> {a. paired p' a}) \<and> (\<forall>a \<in> set is \<union> {a. paired p' a}. f a \<in> set (C ! a)))"
    proof (rule Cons.IH)
      show "set (C ! a) \<subseteq> {..<length p'}" if "paired p' a" for a
        using that P Cons.prems(4) [of i] Cons.prems(5) [of a] by auto
      show "set (C ! a) \<subseteq> {..<length p'}" if "a \<in> set is" for a
        using that P Cons.prems(4) [of a] by simp
      show "\<forall>a \<in> set is. \<not> paired p' a" using P(3) Cons.prems(2,3) by auto
    qed (use P Cons.prems(2) in simp_all)
    ultimately show ?thesis using r True by simp
  next
    case False
    have "\<not> (inj_on f (set (i # is) \<union> {a. paired p a}) \<and>
       (\<forall>a \<in> set (i # is) \<union> {a. paired p a}. f a \<in> set (C ! a)))" for f
    proof
      assume "inj_on f (set (i # is) \<union> {a. paired p a}) \<and>
        (\<forall>a \<in> set (i # is) \<union> {a. paired p a}. f a \<in> set (C ! a))"
      moreover from this have "f a \<in> set (C ! a) \<and> f a < length p"
        if "a \<in> set (i # is) \<union> {a. paired p a}" for a
        using that Cons.prems(4,5) by blast
      ultimately show False
        using augment_pairing_stuck [of C i p p' v' "set (i # is) \<union> {a. paired p a}" f] r False Cons.prems
        by auto
    qed
    then show ?thesis using r False by simp
  qed
qed

section \<open>The whole routine\<close>

text \<open>A pairing of every expected element with a distinct actual element it accepts.\<close>

definition pairs_up :: "('a \<Rightarrow> 'b \<Rightarrow> bool) \<Rightarrow> 'a list \<Rightarrow> 'b list \<Rightarrow> (nat \<Rightarrow> nat) \<Rightarrow> bool" where
  "pairs_up R es as f \<longleftrightarrow>
     inj_on f {..<length es} \<and> (\<forall>i < length es. f i < length as \<and> R (es ! i) (as ! f i))"

lemma array_matchable_iff: "array_matchable R es as \<longleftrightarrow> (\<exists>f. pairs_up R es as f)"
proof -
  let ?C = "map (candidates R as) es"
  have C: "set (?C ! i) = {j. j < length as \<and> R (es ! i) (as ! j)}" if "i < length es" for i
    using that by (auto simp: candidates_def)
  have none: "\<not> paired (replicate (length as) None) a" for a
    by (auto simp: paired_def)
  have "augment_all ?C [0..<length es] (replicate (length as) None) \<longleftrightarrow>
     (\<exists>f. inj_on f {..<length es} \<and> (\<forall>a \<in> {..<length es}. f a \<in> set (?C ! a)))"
    using augment_all_iff [of ?C "replicate (length as) None" "[0..<length es]"] none C
    by (auto simp: pairing_ok_def atLeast0LessThan)
  also have "\<dots> \<longleftrightarrow> (\<exists>f. pairs_up R es as f)"
    unfolding pairs_up_def using C by auto
  finally have aug: "augment_all ?C [0..<length es] (replicate (length as) None) \<longleftrightarrow> (\<exists>f. pairs_up R es as f)" .
  show ?thesis
  proof (cases "[] \<in> set ?C")
    case True
    then obtain e where "e \<in> set es" "candidates R as e = []" by auto
    then obtain i where "i < length es" "candidates R as (es ! i) = []" by (metis in_set_conv_nth)
    then have "\<not> pairs_up R es as f" for f
      by (auto simp: pairs_up_def candidates_def filter_empty_conv dest!: spec [of _ i])
    then show ?thesis using True by (simp add: array_matchable_def Let_def)
  next
    case False
    then show ?thesis using aug by (simp add: array_matchable_def Let_def)
  qed
qed

lemma first_unused_Some:
  "first_unused R e as used = Some i \<Longrightarrow>
   i < length as \<and> i < length used \<and> \<not> used ! i \<and> R e (as ! i)"
  by (induction R e as used arbitrary: i rule: first_unused.induct) (auto split: if_splits)

lemma greedy_pairing_sound:
  assumes "greedy_pairing R es as used" and "length used = length as"
  shows "\<exists>f. pairs_up R es as f \<and> (\<forall>i < length es. \<not> used ! f i)"
  using assms
proof (induction R es as used rule: greedy_pairing.induct)
  case (1 R as used)
  then show ?case by (auto simp: pairs_up_def)
next
  case (2 R e es as used)
  then obtain j where j: "first_unused R e as used = Some j" by (auto split: option.splits)
  with 2 obtain f where f: "pairs_up R es as f" "\<forall>i < length es. \<not> used[j := True] ! f i"
    by auto
  from first_unused_Some [OF j] have j': "j < length as" "\<not> used ! j" "R e (as ! j)" "j < length used"
    by auto
  let ?g = "\<lambda>i. case i of 0 \<Rightarrow> j | Suc i \<Rightarrow> f i"
  have fj: "f i \<noteq> j" if "i < length es" for i using f(2) that j'(4) by auto
  have nu: "\<not> used ! f i" if "i < length es" for i
    using f(2) fj [OF that] that nth_list_update_neq [of j "f i" used True] by auto
  have "pairs_up R (e # es) as ?g"
    using f(1) j' fj unfolding pairs_up_def inj_on_def
    by (auto simp: less_Suc_eq_0_disj split: nat.splits)
  moreover have "\<not> used ! ?g i" if "i < length (e # es)" for i
    using that nu j'(2) by (auto split: nat.splits)
  ultimately show ?case by blast
qed

lemma array_equal_unordered_iff:
  "array_equal_unordered R ignore_extra es as \<longleftrightarrow>
     (ignore_extra \<or> length as = length es) \<and> (\<exists>f. pairs_up R es as f)"
proof -
  have short: "\<not> pairs_up R es as f" if "length as < length es" for f
  proof
    assume "pairs_up R es as f"
    then have "f ` {..<length es} \<subseteq> {..<length as}" and "inj_on f {..<length es}"
      by (auto simp: pairs_up_def)
    then show False using that card_inj_on_le [of f "{..<length es}" "{..<length as}"] by simp
  qed
  have "greedy_pairing R es as (replicate (length as) False) \<Longrightarrow> \<exists>f. pairs_up R es as f"
    using greedy_pairing_sound [of R es as "replicate (length as) False"] by auto
  then show ?thesis
    using short by (auto simp: array_equal_unordered_def array_matchable_iff)
qed

text \<open>Only the answers on the elements of the two arrays matter.\<close>

lemma array_equal_unordered_cong [fundef_cong]:
  assumes "es = es'" and "as = as'" and "ig = ig'"
    and "\<And>e a. e \<in> set es' \<Longrightarrow> a \<in> set as' \<Longrightarrow> R e a = R' e a"
  shows "array_equal_unordered R ig es as = array_equal_unordered R' ig' es' as'"
proof -
  have "pairs_up R es' as' = pairs_up R' es' as'"
    unfolding pairs_up_def fun_eq_iff using assms(4) by (metis nth_mem)
  then show ?thesis unfolding array_equal_unordered_iff using assms(1,2,3) by simp
qed

lemma array_equal_unordered_refl:
  "(\<And>e. e \<in> set es \<Longrightarrow> R e e) \<Longrightarrow> array_equal_unordered R ig es es"
  by (auto simp: array_equal_unordered_iff pairs_up_def intro!: exI [of _ id])

section \<open>Properties\<close>

text \<open>
  C37. The unordered array comparison of equalToJson is exact: whatever the element comparison is,
  \<^verbatim>\<open>arrayEqualUnordered\<close> answers yes precisely when the lengths agree (unless extra
  elements are ignored) and the expected elements can be assigned pairwise distinct actual
  elements they accept. The greedy pass alone does not decide this; the augmenting-path pass behind it
  finds an assignment whenever one exists, in every order of the two arrays.
\<close>

theorem array_equal_unordered_exact:
  "array_equal_unordered R ignore_extra es as \<longleftrightarrow>
     (ignore_extra \<or> length as = length es) \<and>
     (\<exists>f. inj_on f {..<length es} \<and> (\<forall>i. i < length es \<longrightarrow> f i < length as \<and> R (es ! i) (as ! f i)))"
  by (simp add: array_equal_unordered_iff pairs_up_def)

text \<open>The first element takes the only partner of the second; the augmenting path moves it.\<close>

theorem array_equal_unordered_exact_witness:
  "array_equal_unordered (\<lambda>e a. e = 5 \<or> e = a) False [5, 1] [1, 2 :: nat]"
  unfolding array_equal_unordered_exact
  by (auto intro!: exI [of _ "\<lambda>i. 1 - i"] simp: inj_on_def less_Suc_eq numeral_2_eq_2)

end
