(* ===== verification/Json_Number.thy ===== *)
theory Json_Number
  imports Complex_Main Mock_Prelude
begin

text \<open>
  JSON number literals in \<^verbatim>\<open>internal/matchers/jsonunit.go\<close>: \<^verbatim>\<open>canonicalDecimal\<close>, which normalises
  a literal so that equal strings mean equal numbers, and the byte scan
  \<^verbatim>\<open>documentNeedsExactNumbers\<close> / \<^verbatim>\<open>scanNumberLiteral\<close> that decides whether float64 precision may
  have blurred a comparison. The lemmas relate both to the rational value of a literal.
\<close>

section \<open>Normal forms of decimals\<close>

fun strip_zeros :: "string \<Rightarrow> int \<Rightarrow> string \<times> int" where
  "strip_zeros [] e = ([], e)"
| "strip_zeros (c # cs) e = (if c = CHR ''0'' then strip_zeros cs (wrap64 (e + 1)) else (c # cs, e))"

text \<open>
  \<^verbatim>\<open>canonicalDecimal\<close>. Go's \<^verbatim>\<open>int\<close> is 64 bits wide here, so the two exponent adjustments wrap; the
  trailing digits are stripped from the reversed digit string.
\<close>

definition canonical_decimal :: "string \<Rightarrow> string" where
  "canonical_decimal literal =
     (let negative = has_prefix literal ''-'';
          rest = (if negative then drop 1 literal else literal)
      in case (case index_any rest ''eE'' of
                 None \<Rightarrow> Some (rest, 0)
               | Some i \<Rightarrow> map_option (\<lambda>p. (take i rest, p)) (atoi (drop (Suc i) rest))) of
           None \<Rightarrow> literal
         | Some (mantissa, exponent) \<Rightarrow>
             (let (digits, exponent) =
                    (case index_byte mantissa (CHR ''.'') of
                       None \<Rightarrow> (mantissa, exponent)
                     | Some i \<Rightarrow> (take i mantissa @ drop (Suc i) mantissa,
                                  wrap64 (exponent - int (length mantissa - i - 1))));
                  digits = dropWhile (\<lambda>c. c = CHR ''0'') digits;
                  (stripped, exponent) = strip_zeros (rev digits) exponent
              in if stripped = [] then ''0''
                 else (if negative then ''-'' else []) @ rev stripped @ CHR ''e'' # show_int exponent))"

section \<open>The width filter\<close>

definition float64_safe_digits :: nat where "float64_safe_digits = 15"
definition float64_safe_exponent :: int where "float64_safe_exponent = 300"

text \<open>
  The loop of \<^verbatim>\<open>scanNumberLiteral\<close>, from index \<open>i\<close> on: the index where the token ends, and the
  digit count, exponent and sign collected.
\<close>

function scan_loop :: "string \<Rightarrow> nat \<Rightarrow> nat \<Rightarrow> int \<Rightarrow> int \<Rightarrow> bool \<Rightarrow> nat \<times> nat \<times> int \<times> int" where
  "scan_loop doc i digits exponent sign in_exp =
     (if length doc \<le> i then (i, digits, exponent, sign)
      else let c = doc ! i in
        if is_digit c then
          (if \<not> in_exp then scan_loop doc (Suc i) (Suc digits) exponent sign in_exp
           else scan_loop doc (Suc i) digits
             (if exponent \<le> float64_safe_exponent then exponent * 10 + int (digit_value c) else exponent)
             sign in_exp)
        else if c = CHR ''.'' then scan_loop doc (Suc i) digits exponent sign in_exp
        else if (c = CHR ''e'' \<or> c = CHR ''E'') \<and> \<not> in_exp then scan_loop doc (Suc i) digits exponent sign True
        else if (c = CHR ''+'' \<or> c = CHR ''-'') \<and> in_exp \<and> (doc ! (i - 1) = CHR ''e'' \<or> doc ! (i - 1) = CHR ''E'')
          then scan_loop doc (Suc i) digits exponent (if c = CHR ''-'' then - 1 else sign) in_exp
        else (i, digits, exponent, sign))"
  by pat_completeness auto
termination
  by (relation "measure (\<lambda>(doc, i, _). length doc - i)") auto

declare scan_loop.simps [simp del]

definition scan_number_literal :: "string \<Rightarrow> nat \<Rightarrow> nat \<times> bool" where
  "scan_number_literal doc start =
     (case scan_loop doc start 0 0 1 False of
        (i, digits, exponent, sign) \<Rightarrow>
          (let exponent = exponent * sign
           in (i - 1, float64_safe_digits < digits \<or> float64_safe_exponent < exponent \<or>
                 exponent < - float64_safe_exponent)))"

text \<open>The inner loop over a quoted string: the index of its closing quote, or past the end.\<close>

function skip_string :: "string \<Rightarrow> nat \<Rightarrow> nat" where
  "skip_string doc i =
     (if i < length doc \<and> doc ! i \<noteq> CHR 0x22
      then skip_string doc (if doc ! i = CHR 0x5C then i + 2 else i + 1)
      else i)"
  by pat_completeness auto
termination
  by (relation "measure (\<lambda>(doc, i). length doc - i)") auto

declare skip_string.simps [simp del]

lemma scan_loop_end: "i \<le> fst (scan_loop doc i d e sg x)"
proof (induction doc i d e sg x rule: scan_loop.induct)
  case (1 doc i d e sg x)
  show ?case
    by (subst scan_loop.simps) (use 1 in \<open>auto simp: Let_def dest!: Suc_leD\<close>)
qed

lemma scan_number_literal_advances:
  assumes "i < length doc" and "is_digit (doc ! i)"
  shows "i \<le> fst (scan_number_literal doc i)"
proof -
  have "scan_loop doc i 0 0 1 False = scan_loop doc (Suc i) 1 0 1 False"
    using assms by (subst scan_loop.simps) (simp add: Let_def)
  then have "Suc i \<le> fst (scan_loop doc i 0 0 1 False)"
    using scan_loop_end [of "Suc i" doc 1 0 1 False] by simp
  then show ?thesis by (auto simp: scan_number_literal_def Let_def split: prod.splits)
qed

lemma skip_string_end: "i \<le> skip_string doc i"
proof (induction doc i rule: skip_string.induct)
  case (1 doc i)
  show ?case by (subst skip_string.simps) (use 1 in \<open>auto\<close>)
qed

text \<open>\<^verbatim>\<open>documentNeedsExactNumbers\<close> from index \<open>i\<close> on.\<close>

function needs_exact_from :: "string \<Rightarrow> nat \<Rightarrow> bool" where
  "needs_exact_from doc i =
     (if length doc \<le> i then False
      else let c = doc ! i in
        if c = CHR 0x22 then needs_exact_from doc (Suc (skip_string doc (Suc i)))
        else if is_digit c then
          (if snd (scan_number_literal doc i) then True
           else needs_exact_from doc (Suc (fst (scan_number_literal doc i))))
        else needs_exact_from doc (Suc i))"
  by pat_completeness auto
termination
proof (relation "measure (\<lambda>(doc, i). length doc - i)", goal_cases)
  case (2 doc i c)
  then show ?case using skip_string_end [of "Suc i" doc] by auto
next
  case (3 doc i c)
  then show ?case using scan_number_literal_advances [of i doc] by auto
qed auto

declare needs_exact_from.simps [simp del]

definition document_needs_exact_numbers :: "string \<Rightarrow> bool" where
  "document_needs_exact_numbers doc = needs_exact_from doc 0"

section \<open>Literals and their values\<close>

text \<open>The parts of a JSON number literal, the text they make and the number they denote.\<close>

record number_parts =
  np_negative :: bool
  np_int :: string
  np_frac :: "string option"
  np_exp :: "(char \<times> string \<times> string) option"

definition number_text :: "number_parts \<Rightarrow> string" where
  "number_text n =
     (if np_negative n then ''-'' else []) @ np_int n @
     (case np_frac n of None \<Rightarrow> [] | Some f \<Rightarrow> CHR ''.'' # f) @
     (case np_exp n of None \<Rightarrow> [] | Some (e, sg, ds) \<Rightarrow> e # sg @ ds)"

definition number_digits :: "number_parts \<Rightarrow> string" where
  "number_digits n = np_int n @ (case np_frac n of None \<Rightarrow> [] | Some f \<Rightarrow> f)"

definition number_scale :: "number_parts \<Rightarrow> nat" where
  "number_scale n = (case np_frac n of None \<Rightarrow> 0 | Some f \<Rightarrow> length f)"

definition number_exponent :: "number_parts \<Rightarrow> int" where
  "number_exponent n =
     (case np_exp n of None \<Rightarrow> 0
      | Some (e, sg, ds) \<Rightarrow> if sg = ''-'' then - int (digits_value ds) else int (digits_value ds))"

definition number_value :: "number_parts \<Rightarrow> rat" where
  "number_value n =
     (if np_negative n then - 1 else 1) * of_nat (digits_value (number_digits n)) *
     10 powi (number_exponent n - int (number_scale n))"

text \<open>The grammar, and the bound below which no exponent arithmetic wraps.\<close>

definition number_ok :: "number_parts \<Rightarrow> bool" where
  "number_ok n \<longleftrightarrow>
     np_int n \<noteq> [] \<and> list_all is_digit (number_digits n) \<and> length (number_digits n) < 2 ^ 60 \<and>
     (case np_exp n of None \<Rightarrow> True
      | Some (e, sg, ds) \<Rightarrow> e \<in> {CHR ''e'', CHR ''E''} \<and> sg \<in> {[], ''+'', ''-''} \<and>
          ds \<noteq> [] \<and> list_all is_digit ds \<and> digits_value ds < 2 ^ 60)"

section \<open>Correctness of the normal form\<close>

lemma atoi_digits:
  assumes "sg \<in> {[], ''+'', ''-''}" and "ds \<noteq> []" and "list_all is_digit ds" and "digits_value ds < 2 ^ 60"
  shows "atoi (sg @ ds) = Some (if sg = ''-'' then - int (digits_value ds) else int (digits_value ds))"
proof -
  have "\<not> has_prefix ds ''-''" "\<not> has_prefix ds ''+''"
    using assms(2,3) by (auto simp: neq_Nil_conv)
  moreover have "int (digits_value ds) < 2 ^ 60" using assms(4) by (simp add: of_nat_less_numeral_power_cancel_iff)
  ultimately show ?thesis using assms by (auto simp: atoi_def Let_def)
qed

lemma strip_zeros_run:
  "- (2 ^ 62) \<le> e \<Longrightarrow> e + int (length ds) < 2 ^ 63 \<Longrightarrow>
   strip_zeros ds e = (dropWhile (\<lambda>c. c = CHR ''0'') ds, e + int (length (takeWhile (\<lambda>c. c = CHR ''0'') ds)))"
  by (induction ds e rule: strip_zeros.induct) (auto simp: wrap64_id)

lemma digits_value_single [simp]: "digits_value [c] = digit_value c"
  by (simp add: digits_value_def)

lemma digits_value_append: "digits_value (a @ b) = digits_value a * 10 ^ length b + digits_value b"
proof (induction b rule: rev_induct)
  case (snoc c b)
  have "digits_value (a @ b @ [c]) = 10 * digits_value (a @ b) + digit_value c"
    using digits_value_snoc [of "a @ b" c] by simp
  then show ?case using snoc by (simp add: digits_value_snoc algebra_simps)
qed simp

lemma digits_value_zeros: "set z \<subseteq> {CHR ''0''} \<Longrightarrow> digits_value z = 0"
  by (induction z rule: rev_induct) (auto simp: digits_value_snoc digit_value_def)

lemma digits_value_strip_leading: "digits_value (dropWhile (\<lambda>c. c = CHR ''0'') ds) = digits_value ds"
proof -
  have "digits_value (takeWhile (\<lambda>c. c = CHR ''0'') ds) = 0"
    by (rule digits_value_zeros) (auto dest: set_takeWhileD)
  then show ?thesis
    using digits_value_append [of "takeWhile (\<lambda>c. c = CHR ''0'') ds" "dropWhile (\<lambda>c. c = CHR ''0'') ds"] by simp
qed

lemma digit_value_bound: "is_digit c \<Longrightarrow> digit_value c < 10 \<and> (digit_value c = 0 \<longleftrightarrow> c = CHR ''0'')"
proof
  assume "is_digit c"
  then show "digit_value c < 10" by (auto simp: is_digit_def digit_value_def)
  show "digit_value c = 0 \<longleftrightarrow> c = CHR ''0''"
  proof
    assume "digit_value c = 0"
    then have "of_char c = (48 :: nat)" using \<open>is_digit c\<close> by (auto simp: is_digit_def digit_value_def)
    then have "of_char c = (of_char (CHR ''0'') :: nat)" by simp
    then show "c = CHR ''0''" by (simp only: of_char_eq_iff)
  qed (simp add: digit_value_def)
qed

lemma digit_char_value: "is_digit c \<Longrightarrow> digit_char (digit_value c) = c"
proof -
  assume "is_digit c"
  then have "48 + digit_value c = of_char c" by (auto simp: is_digit_def digit_value_def)
  then show ?thesis by (simp add: digit_char_def)
qed

lemma digits_value_pos: "list_all is_digit ds \<Longrightarrow> ds \<noteq> [] \<Longrightarrow> hd ds \<noteq> CHR ''0'' \<Longrightarrow> 0 < digits_value ds"
proof (induction ds rule: rev_induct)
  case (snoc c ds)
  then show ?case
    using digit_value_bound [of c] by (cases "ds = []") (auto simp: digits_value_snoc)
qed simp

lemma show_digits_value:
  "list_all is_digit ds \<Longrightarrow> ds \<noteq> [] \<Longrightarrow> hd ds \<noteq> CHR ''0'' \<Longrightarrow> show_nat (digits_value ds) = ds"
proof (induction ds rule: rev_induct)
  case (snoc c ds)
  from snoc.prems have c: "is_digit c" by simp
  note b = digit_value_bound [OF c]
  show ?case
  proof (cases "ds = []")
    case True
    then show ?thesis using b c snoc.prems
      by (simp add: digits_value_snoc show_nat.simps [of "digit_value c"] digit_char_value)
  next
    case False
    then have pos: "0 < digits_value ds" and IH: "show_nat (digits_value ds) = ds"
      using snoc digits_value_pos [of ds] by auto
    then show ?thesis
      using b c by (simp add: digits_value_snoc show_nat.simps [of "10 * digits_value ds + digit_value c"] digit_char_value)
  qed
qed simp

text \<open>What the normal form of a non-zero literal looks like.\<close>

definition decimal_form :: "bool \<Rightarrow> string \<Rightarrow> int \<Rightarrow> string" where
  "decimal_form neg ds e = (if neg then ''-'' else []) @ ds @ CHR ''e'' # show_int e"

definition reduced :: "string \<Rightarrow> bool" where
  "reduced ds \<longleftrightarrow> list_all is_digit ds \<and> ds \<noteq> [] \<and> hd ds \<noteq> CHR ''0'' \<and> last ds \<noteq> CHR ''0''"

lemma decimal_form_inject:
  assumes "reduced ds" and "reduced ds'"
  shows "decimal_form n ds e = decimal_form n' ds' e' \<longleftrightarrow> n = n' \<and> ds = ds' \<and> e = e'"
proof
  assume eq: "decimal_form n ds e = decimal_form n' ds' e'"
  have hd: "hd ds \<noteq> CHR ''-''" "hd ds' \<noteq> CHR ''-''"
    using assms by (auto simp: reduced_def neq_Nil_conv)
  have nn: "n = n'" and eq2: "ds @ CHR ''e'' # show_int e = ds' @ CHR ''e'' # show_int e'"
    using eq hd assms by (auto simp: decimal_form_def reduced_def neq_Nil_conv split: if_splits)
  have "index_byte (ds @ CHR ''e'' # t) (CHR ''e'') = Some (length ds)" if "reduced ds" for ds t
    using that by (intro index_byte_append) (auto simp: reduced_def list_all_iff)
  then have "length ds = length ds'" using assms eq2 by (metis option.inject)
  then show "n = n' \<and> ds = ds' \<and> e = e'" using eq2 nn by simp
qed simp

lemma reduced_not_dvd: "reduced ds \<Longrightarrow> \<not> 10 dvd digits_value ds"
proof -
  assume r: "reduced ds"
  then have "ds = butlast ds @ [last ds]" by (simp add: reduced_def)
  moreover have "is_digit (last ds)" using r by (auto simp: reduced_def list_all_iff)
  ultimately have "digits_value ds mod 10 = digit_value (last ds)"
    using digits_value_snoc [of "butlast ds" "last ds"] digit_value_bound [of "last ds"] by simp
  then show ?thesis
    using r digit_value_bound [OF \<open>is_digit (last ds)\<close>] by (auto simp: reduced_def dvd_eq_mod_eq_0)
qed

lemma power_ten_unique_aux:
  fixes a b :: nat
  assumes "of_nat a * 10 powi e = (of_nat b * 10 powi e' :: rat)" and "\<not> 10 dvd a" and "e \<le> e'"
  shows "a = b \<and> e = e'"
proof -
  have "10 powi e' = (10 powi e * 10 ^ nat (e' - e) :: rat)"
    using assms(3) by (simp add: power_int_add [symmetric] flip: power_int_of_nat)
  with assms(1) have "(of_nat a :: rat) = of_nat (b * 10 ^ nat (e' - e))" by simp
  then have "a = b * 10 ^ nat (e' - e)" by (simp only: of_nat_eq_iff)
  with assms(2,3) show ?thesis by (cases "nat (e' - e)") auto
qed

lemma power_ten_unique:
  fixes a b :: nat
  assumes "of_nat a * 10 powi e = (of_nat b * 10 powi e' :: rat)" and "\<not> 10 dvd a" and "\<not> 10 dvd b"
  shows "a = b \<and> e = e'"
proof (cases "e \<le> e'")
  case True
  then show ?thesis using power_ten_unique_aux assms(1,2) by blast
next
  case False
  then show ?thesis using power_ten_unique_aux [OF assms(1) [symmetric] assms(3)] by simp
qed

text \<open>The three cuts of the routine on a well-formed literal.\<close>

lemma number_mantissa:
  assumes "number_ok n"
  defines "mant \<equiv> np_int n @ (case np_frac n of None \<Rightarrow> [] | Some f \<Rightarrow> CHR ''.'' # f)"
  defines "rest \<equiv> mant @ (case np_exp n of None \<Rightarrow> [] | Some (e, sg, ds) \<Rightarrow> e # sg @ ds)"
  shows "has_prefix (number_text n) ''-'' = np_negative n"
    and "(if np_negative n then drop 1 (number_text n) else number_text n) = rest"
    and "(case index_any rest ''eE'' of
            None \<Rightarrow> Some (rest, 0)
          | Some i \<Rightarrow> map_option (\<lambda>p. (take i rest, p)) (atoi (drop (Suc i) rest))) =
         Some (mant, number_exponent n)"
    and "(case index_byte mant (CHR ''.'') of
            None \<Rightarrow> (mant, number_exponent n)
          | Some i \<Rightarrow> (take i mant @ drop (Suc i) mant, wrap64 (number_exponent n - int (length mant - i - 1)))) =
         (number_digits n, number_exponent n - int (number_scale n))"
proof -
  have dig: "list_all is_digit (np_int n)" "\<And>f. np_frac n = Some f \<Longrightarrow> list_all is_digit f" "np_int n \<noteq> []"
    using assms(1) by (auto simp: number_ok_def number_digits_def)
  then obtain c cs where i: "np_int n = c # cs" "is_digit c" by (cases "np_int n") auto
  then show "has_prefix (number_text n) ''-'' = np_negative n"
    by (auto simp: number_text_def)
  show "(if np_negative n then drop 1 (number_text n) else number_text n) = rest"
    by (simp add: number_text_def rest_def mant_def)
  have free: "set mant \<inter> set ''eE'' = {}"
    using dig unfolding mant_def by (cases "np_frac n") (auto simp: list_all_iff)
  show "(case index_any rest ''eE'' of
            None \<Rightarrow> Some (rest, 0)
          | Some i \<Rightarrow> map_option (\<lambda>p. (take i rest, p)) (atoi (drop (Suc i) rest))) =
         Some (mant, number_exponent n)"
  proof (cases "np_exp n")
    case None
    then show ?thesis using index_any_None [OF free] by (simp add: rest_def number_exponent_def)
  next
    case (Some x)
    obtain e sg ds where x: "x = (e, sg, ds)" by (metis prod_cases3)
    with Some assms(1) have e: "e \<in> set ''eE''" "sg \<in> {[], ''+'', ''-''}" "ds \<noteq> []" "list_all is_digit ds"
      "digits_value ds < 2 ^ 60"
      by (auto simp: number_ok_def)
    have "index_any rest ''eE'' = Some (length mant)"
      using index_any_append [OF free e(1)] Some x by (simp add: rest_def)
    then show ?thesis
      using atoi_digits [OF e(2-5)] Some x by (simp add: rest_def number_exponent_def)
  qed
  have exp: "\<bar>number_exponent n\<bar> < 2 ^ 60"
    using assms(1) by (auto simp: number_ok_def number_exponent_def of_nat_less_numeral_power_cancel_iff split: option.splits)
  show "(case index_byte mant (CHR ''.'') of
            None \<Rightarrow> (mant, number_exponent n)
          | Some i \<Rightarrow> (take i mant @ drop (Suc i) mant, wrap64 (number_exponent n - int (length mant - i - 1)))) =
         (number_digits n, number_exponent n - int (number_scale n))"
  proof (cases "np_frac n")
    case None
    have "CHR ''.'' \<notin> set (np_int n)" using dig(1) by (auto simp: list_all_iff)
    then show ?thesis
      using None by (simp add: mant_def number_digits_def number_scale_def index_byte_None [THEN iffD2])
  next
    case (Some f)
    have "CHR ''.'' \<notin> set (np_int n)" using dig(1) by (auto simp: list_all_iff)
    moreover have "int (length f) < 2 ^ 60"
      using assms(1) Some by (simp add: number_ok_def number_digits_def)
    ultimately show ?thesis
      using Some exp by (simp add: mant_def number_digits_def number_scale_def index_byte_append wrap64_id)
  qed
qed

lemma canonical_decimal_form:
  assumes "number_ok n"
  shows "(digits_value (number_digits n) = 0 \<and> canonical_decimal (number_text n) = ''0'') \<or>
     (\<exists>ds e. reduced ds \<and> canonical_decimal (number_text n) = decimal_form (np_negative n) ds e \<and>
       of_nat (digits_value ds) * 10 powi e =
       (of_nat (digits_value (number_digits n)) * 10 powi (number_exponent n - int (number_scale n)) :: rat))"
proof -
  let ?z = "\<lambda>c. c = CHR ''0''"
  let ?D = "dropWhile ?z (number_digits n)"
  let ?E = "number_exponent n - int (number_scale n)"
  let ?T = "takeWhile ?z (rev ?D)" and ?S = "dropWhile ?z (rev ?D)"
  have D: "list_all is_digit ?D" "length ?D < 2 ^ 60" "digits_value ?D = digits_value (number_digits n)"
  proof -
    show "list_all is_digit ?D"
      using assms by (auto simp: number_ok_def list_all_iff dest: set_dropWhileD)
    show "length ?D < 2 ^ 60"
      using assms length_dropWhile_le [of ?z "number_digits n"] by (simp add: number_ok_def)
    show "digits_value ?D = digits_value (number_digits n)" by (rule digits_value_strip_leading)
  qed
  have exp: "\<bar>number_exponent n\<bar> < 2 ^ 60"
    using assms by (auto simp: number_ok_def number_exponent_def of_nat_less_numeral_power_cancel_iff split: option.splits)
  have "number_scale n < 2 ^ 60"
    using assms by (auto simp: number_ok_def number_digits_def number_scale_def split: option.splits)
  then have scale: "int (number_scale n) < 2 ^ 60"
    by (simp add: of_nat_less_numeral_power_cancel_iff)
  have len: "int (length ?D) < 2 ^ 60" using D(2) by (simp add: of_nat_less_numeral_power_cancel_iff)
  have strip: "strip_zeros (rev ?D) ?E = (?S, ?E + int (length ?T))"
    using exp scale len by (intro strip_zeros_run) simp_all
  have can: "canonical_decimal (number_text n) =
     (if ?S = [] then ''0'' else decimal_form (np_negative n) (rev ?S) (?E + int (length ?T)))"
    unfolding canonical_decimal_def number_mantissa(1,2) [OF assms] Let_def decimal_form_def
    by (simp only: number_mantissa(3,4) [OF assms] option.case prod.case strip rev_is_Nil_conv)
  have "rev (rev ?D) = rev (?T @ ?S)" by (simp only: takeWhile_dropWhile_id)
  then have DS: "?D = rev ?S @ rev ?T" by (simp only: rev_rev_ident rev_append)
  then have val: "digits_value (number_digits n) = digits_value (rev ?S) * 10 ^ length ?T"
  proof -
    have "digits_value (rev ?T) = 0" by (rule digits_value_zeros) (auto dest: set_takeWhileD)
    moreover have "digits_value (rev ?S @ rev ?T) = digits_value (number_digits n)"
      unfolding DS [symmetric] by (rule D(3))
    ultimately show ?thesis by (simp only: digits_value_append length_rev)
  qed
  show ?thesis
  proof (cases "?S = []")
    case True
    have "digits_value (number_digits n) = 0" unfolding val True by simp
    moreover have "canonical_decimal (number_text n) = ''0''" unfolding can True by (simp only: simp_thms if_True)
    ultimately show ?thesis by blast
  next
    case False
    then have "?D \<noteq> []" by (metis dropWhile.simps(1) rev.simps(1))
    then have "hd ?D \<noteq> CHR ''0''" by (rule hd_dropWhile)
    moreover have "hd (rev ?S) = hd ?D"
      using arg_cong [OF DS, of hd] hd_append2 [of "rev ?S" "rev ?T"] False by (simp only: rev_is_Nil_conv not_False_eq_True)
    moreover have "last (rev ?S) \<noteq> CHR ''0''" using hd_dropWhile [OF False] by (simp only: last_rev not_False_eq_True)
    moreover have "list_all is_digit (rev ?S)"
      using D(1) by (auto simp: list_all_iff dest: set_dropWhileD)
    ultimately have "reduced (rev ?S)" using False by (simp add: reduced_def)
    moreover have "of_nat (digits_value (rev ?S)) * 10 powi (?E + int (length ?T)) =
        (of_nat (digits_value (number_digits n)) * 10 powi ?E :: rat)"
      unfolding val by (simp add: power_int_add)
    moreover have "canonical_decimal (number_text n) = decimal_form (np_negative n) (rev ?S) (?E + int (length ?T))"
      unfolding can using False by (simp only: if_False)
    ultimately show ?thesis by blast
  qed
qed

lemma zero_form: "''0'' \<noteq> decimal_form neg ds e" "decimal_form neg ds e \<noteq> ''0''"
  by (auto simp: decimal_form_def append_eq_Cons_conv Cons_eq_append_conv)

lemma reduced_nonzero: "reduced ds \<Longrightarrow> digits_value ds \<noteq> 0"
  using digits_value_pos by (fastforce simp: reduced_def)

lemma canonical_decimal_cases:
  assumes "number_ok n"
  shows "(number_value n = 0 \<and> canonical_decimal (number_text n) = ''0'') \<or>
     (\<exists>ds e. reduced ds \<and> canonical_decimal (number_text n) = decimal_form (np_negative n) ds e \<and>
       number_value n = (if np_negative n then - 1 else 1) * (of_nat (digits_value ds) * 10 powi e))"
  using canonical_decimal_form [OF assms]
proof (elim disjE exE conjE)
  fix ds e
  assume "reduced ds" "canonical_decimal (number_text n) = decimal_form (np_negative n) ds e"
    and v: "of_nat (digits_value ds) * 10 powi e =
       (of_nat (digits_value (number_digits n)) * 10 powi (number_exponent n - int (number_scale n)) :: rat)"
  moreover have "number_value n = (if np_negative n then - 1 else 1) * (of_nat (digits_value ds) * 10 powi e)"
    unfolding v number_value_def by simp
  ultimately show ?thesis by blast
qed (simp add: number_value_def)

lemma signed_power_ten_unique:
  assumes "reduced ds" and "reduced ds'"
  shows "(if m then - 1 else 1) * (of_nat (digits_value ds) * 10 powi e) =
     (if n then - 1 else 1) * (of_nat (digits_value ds') * 10 powi e' :: rat) \<longleftrightarrow>
     m = n \<and> ds = ds' \<and> e = e'" (is "?l \<longleftrightarrow> ?r")
proof
  assume ?l
  have pos: "(0 :: rat) < of_nat (digits_value ds) * 10 powi e" "(0 :: rat) < of_nat (digits_value ds') * 10 powi e'"
    using assms [THEN reduced_nonzero] by simp_all
  then have "m = n" and eq: "of_nat (digits_value ds) * 10 powi e = (of_nat (digits_value ds') * 10 powi e' :: rat)"
    using \<open>?l\<close> by (auto split: if_splits)
  then have "digits_value ds = digits_value ds' \<and> e = e'"
    using power_ten_unique assms [THEN reduced_not_dvd] by blast
  moreover have "show_nat (digits_value ds) = ds" "show_nat (digits_value ds') = ds'"
    using assms by (simp_all add: reduced_def show_digits_value)
  ultimately show ?r using \<open>m = n\<close> by metis
qed simp

lemma canonical_decimal_iff:
  assumes "number_ok m" and "number_ok n"
  shows "canonical_decimal (number_text m) = canonical_decimal (number_text n) \<longleftrightarrow>
     number_value m = number_value n"
  using canonical_decimal_cases [OF assms(1)] canonical_decimal_cases [OF assms(2)]
proof (elim disjE exE conjE)
  fix ds e ds' e'
  assume m: "reduced ds" "canonical_decimal (number_text m) = decimal_form (np_negative m) ds e"
      "number_value m = (if np_negative m then - 1 else 1) * (of_nat (digits_value ds) * 10 powi e)"
    and n: "reduced ds'" "canonical_decimal (number_text n) = decimal_form (np_negative n) ds' e'"
      "number_value n = (if np_negative n then - 1 else 1) * (of_nat (digits_value ds') * 10 powi e')"
  have "number_value m = number_value n \<longleftrightarrow> np_negative m = np_negative n \<and> ds = ds' \<and> e = e'"
    using signed_power_ten_unique [OF m(1) n(1)] unfolding m(3) n(3) .
  then show ?thesis unfolding m(2) n(2) decimal_form_inject [OF m(1) n(1)] by (rule sym)
qed (auto simp: zero_form reduced_nonzero)

text \<open>
  C2. Two number literals whose exponents are below 2^60 in magnitude get the same normal form
  exactly when they denote the same number: scale, leading and trailing zeros, the spelling of the
  exponent and the sign of zero do not matter, and nothing else is lost, however many digits the
  literals have. Past what \<^verbatim>\<open>strconv.Atoi\<close> reads the code leaves a literal as written, and equal
  numbers can differ: \<open>canonical_decimal_long_exponent\<close> below.
\<close>

theorem canonical_decimal_exact:
  assumes "number_ok m" and "number_ok n"
  shows "canonical_decimal (number_text m) = canonical_decimal (number_text n) \<longleftrightarrow>
     number_value m = number_value n"
  using assms by (rule canonical_decimal_iff)

theorem canonical_decimal_exact_witness:
  "canonical_decimal ''-12.50'' = canonical_decimal ''-0.1250E+2''"
proof -
  let ?m = "\<lparr>np_negative = True, np_int = ''12'', np_frac = Some ''50'', np_exp = None\<rparr>"
  let ?n = "\<lparr>np_negative = True, np_int = ''0'', np_frac = Some ''1250'', np_exp = Some (CHR ''E'', ''+'', ''2'')\<rparr>"
  have "number_ok ?m" "number_ok ?n"
    by (simp_all add: number_ok_def number_digits_def is_digit_def digits_value_def digit_value_def)
  moreover have "number_value ?m = number_value ?n"
    by (simp add: number_value_def number_digits_def number_scale_def number_exponent_def digits_value_def
      digit_value_def power_int_def)
  ultimately have "canonical_decimal (number_text ?m) = canonical_decimal (number_text ?n)"
    using canonical_decimal_exact [of ?m ?n] by simp
  then show ?thesis by (simp add: number_text_def)
qed

section \<open>Correctness of the width filter\<close>

lemma scan_loop_digits:
  "list_all is_digit ds \<Longrightarrow>
   scan_loop (pre @ ds @ rest) (length pre) d e sg False =
   scan_loop ((pre @ ds) @ rest) (length (pre @ ds)) (d + length ds) e sg False"
proof (induction ds arbitrary: pre d)
  case (Cons c ds)
  have "scan_loop (pre @ (c # ds) @ rest) (length pre) d e sg False =
      scan_loop ((pre @ [c]) @ ds @ rest) (length (pre @ [c])) (Suc d) e sg False"
    by (subst scan_loop.simps) (use Cons.prems in \<open>simp add: Let_def\<close>)
  also have "\<dots> = scan_loop (((pre @ [c]) @ ds) @ rest) (length ((pre @ [c]) @ ds)) (Suc d + length ds) e sg False"
    by (rule Cons.IH) (use Cons.prems in simp)
  finally show ?case by simp
qed simp

definition capped_exponent :: "int \<Rightarrow> string \<Rightarrow> int" where
  "capped_exponent e ds =
     foldl (\<lambda>e c. if e \<le> float64_safe_exponent then e * 10 + int (digit_value c) else e) e ds"

lemma scan_loop_exponent:
  "list_all is_digit ds \<Longrightarrow>
   scan_loop (pre @ ds @ rest) (length pre) d e sg True =
   scan_loop ((pre @ ds) @ rest) (length (pre @ ds)) d (capped_exponent e ds) sg True"
proof (induction ds arbitrary: pre e)
  case (Cons c ds)
  let ?e = "if e \<le> float64_safe_exponent then e * 10 + int (digit_value c) else e"
  have "scan_loop (pre @ (c # ds) @ rest) (length pre) d e sg True =
      scan_loop ((pre @ [c]) @ ds @ rest) (length (pre @ [c])) d ?e sg True"
    by (subst scan_loop.simps) (use Cons.prems in \<open>simp add: Let_def\<close>)
  also have "\<dots> = scan_loop (((pre @ [c]) @ ds) @ rest) (length ((pre @ [c]) @ ds)) d (capped_exponent ?e ds) sg True"
    by (rule Cons.IH) (use Cons.prems in simp)
  finally show ?case by (simp add: capped_exponent_def)
qed (simp add: capped_exponent_def)

lemma capped_exponent_value:
  "0 \<le> e \<Longrightarrow>
   (if capped_exponent e ds \<le> 300 then capped_exponent e ds = e * 10 ^ length ds + int (digits_value ds)
    else 300 < e * 10 ^ length ds + int (digits_value ds)) \<and> 0 \<le> capped_exponent e ds"
proof (induction ds rule: rev_induct)
  case (snoc c ds)
  let ?v = "e * 10 ^ length ds + int (digits_value ds)"
  have step: "e * 10 ^ length (ds @ [c]) + int (digits_value (ds @ [c])) = ?v * 10 + int (digit_value c)"
    by (simp add: digits_value_snoc algebra_simps)
  have "capped_exponent e (ds @ [c]) =
      (if capped_exponent e ds \<le> 300 then capped_exponent e ds * 10 + int (digit_value c) else capped_exponent e ds)"
    by (simp add: capped_exponent_def float64_safe_exponent_def)
  with snoc show ?case unfolding step by (auto split: if_splits)
qed (simp add: capped_exponent_def)

text \<open>What can follow a number: anything that is not one of its own characters.\<close>

definition number_end :: "string \<Rightarrow> bool" where
  "number_end rest \<longleftrightarrow>
     (rest = [] \<or> \<not> (is_digit (hd rest) \<or> hd rest \<in> set ''.eE+-''))"

lemma scan_loop_stop:
  "number_end rest \<Longrightarrow> scan_loop (pre @ rest) (length pre) d e sg x = (length pre, d, e, sg)"
  by (subst scan_loop.simps) (auto simp: number_end_def Let_def nth_append hd_conv_nth)

lemma scan_loop_step:
  "scan_loop (pre @ CHR ''.'' # rest) (length pre) d e sg False =
     scan_loop ((pre @ ''.'') @ rest) (length (pre @ ''.'')) d e sg False"
  "ex \<in> {CHR ''e'', CHR ''E''} \<Longrightarrow>
   scan_loop (pre @ ex # rest) (length pre) d e sg False =
     scan_loop ((pre @ [ex]) @ rest) (length (pre @ [ex])) d e sg True"
  "ex \<in> {CHR ''e'', CHR ''E''} \<Longrightarrow> g \<in> {CHR ''+'', CHR ''-''} \<Longrightarrow>
   scan_loop ((pre @ [ex]) @ g # rest) (length (pre @ [ex])) d e sg True =
     scan_loop ((pre @ [ex, g]) @ rest) (length (pre @ [ex, g])) d e (if g = CHR ''-'' then - 1 else sg) True"
  subgoal by (subst scan_loop.simps) (simp add: Let_def)
  subgoal by (subst scan_loop.simps) (auto simp: Let_def)
  subgoal by (subst scan_loop.simps) (auto simp: Let_def nth_append)
  done

lemma scan_number_text:
  assumes "number_ok n" and "\<not> np_negative n" and "number_end rest"
  shows "scan_number_literal (pre @ number_text n @ rest) (length pre) =
     (length pre + length (number_text n) - 1,
      15 < length (number_digits n) \<or> 300 < \<bar>number_exponent n\<bar>)"
proof -
  let ?mant = "np_int n @ (case np_frac n of None \<Rightarrow> [] | Some f \<Rightarrow> CHR ''.'' # f)"
  have dig: "list_all is_digit (np_int n)" "\<And>f. np_frac n = Some f \<Longrightarrow> list_all is_digit f"
    using assms(1) by (auto simp: number_ok_def number_digits_def)
  have mant: "scan_loop (pre @ ?mant @ tl) (length pre) 0 0 1 False =
      scan_loop ((pre @ ?mant) @ tl) (length (pre @ ?mant)) (length (number_digits n)) 0 1 False" for tl
  proof (cases "np_frac n")
    case None
    then show ?thesis using scan_loop_digits [OF dig(1)] by (simp add: number_digits_def)
  next
    case (Some f)
    have "scan_loop (pre @ np_int n @ CHR ''.'' # f @ tl) (length pre) 0 0 1 False =
        scan_loop ((pre @ np_int n) @ CHR ''.'' # f @ tl) (length (pre @ np_int n)) (length (np_int n)) 0 1 False"
      using scan_loop_digits [OF dig(1)] by simp
    also have "\<dots> = scan_loop ((pre @ np_int n @ ''.'') @ f @ tl) (length (pre @ np_int n @ ''.'')) (length (np_int n)) 0 1 False"
      using scan_loop_step(1) [of "pre @ np_int n" "f @ tl"] by simp
    also have "\<dots> = scan_loop (((pre @ np_int n @ ''.'') @ f) @ tl) (length ((pre @ np_int n @ ''.'') @ f))
        (length (np_int n) + length f) 0 1 False"
      by (rule scan_loop_digits [OF dig(2) [OF Some]])
    finally show ?thesis using Some by (simp add: number_digits_def)
  qed
  show ?thesis
  proof (cases "np_exp n")
    case None
    have "scan_loop (pre @ ?mant @ rest) (length pre) 0 0 1 False =
        (length (pre @ ?mant), length (number_digits n), 0, 1)"
      unfolding mant using scan_loop_stop [OF assms(3)] by blast
    then show ?thesis
      using None assms(2)
      by (simp add: number_text_def scan_number_literal_def number_exponent_def
        float64_safe_digits_def float64_safe_exponent_def)
  next
    case (Some x)
    obtain ex sg ds where x: "x = (ex, sg, ds)" by (metis prod_cases3)
    with Some assms(1) have ex: "ex \<in> {CHR ''e'', CHR ''E''}" "sg \<in> {[], ''+'', ''-''}" "list_all is_digit ds"
      by (auto simp: number_ok_def)
    let ?s = "if sg = ''-'' then - 1 else (1 :: int)"
    let ?p = "pre @ ?mant @ ex # sg"
    have "scan_loop (pre @ ?mant @ ex # sg @ ds @ rest) (length pre) 0 0 1 False =
        scan_loop (((pre @ ?mant) @ [ex]) @ sg @ ds @ rest) (length ((pre @ ?mant) @ [ex])) (length (number_digits n)) 0 1 True"
      unfolding mant [of "ex # sg @ ds @ rest"] using scan_loop_step(2) [OF ex(1)] by blast
    also have "\<dots> = scan_loop (?p @ ds @ rest) (length ?p) (length (number_digits n)) 0 ?s True"
    proof (cases sg)
      case (Cons g gs)
      with ex(2) have "g \<in> {CHR ''+'', CHR ''-''}" "gs = []" by auto
      then show ?thesis using scan_loop_step(3) [OF ex(1), of g "pre @ ?mant"] Cons by auto
    qed simp
    also have "\<dots> = scan_loop ((?p @ ds) @ rest) (length (?p @ ds)) (length (number_digits n)) (capped_exponent 0 ds) ?s True"
      by (rule scan_loop_exponent [OF ex(3)])
    also have "\<dots> = (length (?p @ ds), length (number_digits n), capped_exponent 0 ds, ?s)"
      by (rule scan_loop_stop [OF assms(3)])
    finally have scan: "scan_loop (pre @ ?mant @ ex # sg @ ds @ rest) (length pre) 0 0 1 False =
        (length (?p @ ds), length (number_digits n), capped_exponent 0 ds, ?s)" .
    have "number_text n @ rest = ?mant @ ex # sg @ ds @ rest" "length (number_text n) = length (?mant @ ex # sg @ ds)"
      using Some x assms(2) by (simp_all add: number_text_def)
    moreover have "(300 < capped_exponent 0 ds * ?s \<or> capped_exponent 0 ds * ?s < - 300) \<longleftrightarrow> 300 < \<bar>number_exponent n\<bar>"
      using capped_exponent_value [of 0 ds] Some x by (auto simp: number_exponent_def split: if_splits)
    ultimately show ?thesis
      using scan
      by (simp add: scan_number_literal_def float64_safe_digits_def float64_safe_exponent_def)
  qed
qed

text \<open>
  A document as the scan sees it: bytes that are neither quotes nor digits, quoted strings, and
  unsigned numbers. A minus sign is a plain byte.
\<close>

datatype doc_token = Plain char | Quoted string | Number number_parts

fun quoted_ok :: "string \<Rightarrow> bool" where
  "quoted_ok [] = True"
| "quoted_ok (c # cs) =
     (if c = CHR 0x22 then False
      else if c = CHR 0x5C then (case cs of [] \<Rightarrow> False | _ # cs' \<Rightarrow> quoted_ok cs')
      else quoted_ok cs)"

fun token_text :: "doc_token \<Rightarrow> string" where
  "token_text (Plain c) = [c]"
| "token_text (Quoted s) = CHR 0x22 # s @ [CHR 0x22]"
| "token_text (Number n) = number_text n"

fun tokens_ok :: "doc_token list \<Rightarrow> bool" where
  "tokens_ok [] = True"
| "tokens_ok (Plain c # ts) = (c \<noteq> CHR 0x22 \<and> \<not> is_digit c \<and> tokens_ok ts)"
| "tokens_ok (Quoted s # ts) = (quoted_ok s \<and> tokens_ok ts)"
| "tokens_ok (Number n # ts) =
     (number_ok n \<and> \<not> np_negative n \<and> number_end (concat (map token_text ts)) \<and> tokens_ok ts)"

fun token_wide :: "doc_token \<Rightarrow> bool" where
  "token_wide (Number n) = (15 < length (number_digits n) \<or> 300 < \<bar>number_exponent n\<bar>)"
| "token_wide _ = False"

lemma skip_string_quoted:
  "quoted_ok s \<Longrightarrow> skip_string (pre @ s @ CHR 0x22 # rest) (length pre) = length pre + length s"
proof (induction s arbitrary: pre rule: quoted_ok.induct)
  case 1
  then show ?case by (subst skip_string.simps) simp
next
  case (2 c cs)
  show ?case
  proof (cases "c = CHR 0x5C")
    case True
    with 2 obtain d ds where cs: "cs = d # ds" by (auto split: list.splits)
    have "skip_string ((pre @ [c, d]) @ ds @ CHR 0x22 # rest) (length (pre @ [c, d])) =
        length (pre @ [c, d]) + length ds"
      using "2.prems" True cs by (intro "2.IH"(1)) auto
    then show ?thesis using True cs by (subst skip_string.simps) simp
  next
    case False
    have "skip_string ((pre @ [c]) @ cs @ CHR 0x22 # rest) (length (pre @ [c])) = length (pre @ [c]) + length cs"
      using "2.prems" False by (intro "2.IH"(2)) (auto split: if_splits)
    then show ?thesis using False 2(3) by (subst skip_string.simps) (simp split: if_splits)
  qed
qed

lemma needs_exact_tokens:
  "tokens_ok ts \<Longrightarrow>
   needs_exact_from (pre @ concat (map token_text ts)) (length pre) = list_ex token_wide ts"
proof (induction ts arbitrary: pre rule: tokens_ok.induct)
  case 1
  then show ?case by (subst needs_exact_from.simps) simp
next
  case (2 c ts)
  then have "needs_exact_from ((pre @ [c]) @ concat (map token_text ts)) (length (pre @ [c])) = list_ex token_wide ts"
    by (intro 2(1)) simp
  then show ?case using 2(2) by (subst needs_exact_from.simps) (simp add: Let_def)
next
  case (3 s ts)
  let ?rest = "concat (map token_text ts)"
  have "skip_string ((pre @ [CHR 0x22]) @ s @ CHR 0x22 # ?rest) (length (pre @ [CHR 0x22])) =
      length (pre @ [CHR 0x22]) + length s"
    by (rule skip_string_quoted) (use 3 in simp)
  moreover have "needs_exact_from ((pre @ CHR 0x22 # s @ [CHR 0x22]) @ ?rest)
      (length (pre @ CHR 0x22 # s @ [CHR 0x22])) = list_ex token_wide ts"
    by (intro 3(1)) (use 3(2) in simp)
  ultimately show ?case by (subst needs_exact_from.simps) (simp add: Let_def)
next
  case (4 n ts)
  let ?rest = "concat (map token_text ts)"
  obtain c cs where c: "np_int n = c # cs" "is_digit c"
    using 4(2) by (cases "np_int n") (auto simp: number_ok_def number_digits_def)
  then obtain t where t: "number_text n = c # t" using 4(2) by (simp add: number_text_def)
  have q: "c \<noteq> CHR 0x22" using c(2) by (auto simp: is_digit_def)
  have scan: "scan_number_literal (pre @ number_text n @ ?rest) (length pre) =
     (length pre + length (number_text n) - 1, token_wide (Number n))"
    using scan_number_text [of n ?rest pre] 4(2) by simp
  have rest: "needs_exact_from ((pre @ number_text n) @ ?rest) (length (pre @ number_text n)) = list_ex token_wide ts"
    by (intro 4(1)) (use 4(2) in simp)
  have "needs_exact_from (pre @ number_text n @ ?rest) (length pre) =
     (if token_wide (Number n) then True
      else needs_exact_from (pre @ number_text n @ ?rest) (Suc (length pre + length (number_text n) - 1)))"
    by (subst needs_exact_from.simps) (use scan t c(2) q in \<open>simp add: Let_def del: token_wide.simps\<close>)
  then show ?case using rest t by (simp del: token_wide.simps)
qed

lemma document_needs_exact_tokens:
  "tokens_ok ts \<Longrightarrow> document_needs_exact_numbers (concat (map token_text ts)) = list_ex token_wide ts"
  using needs_exact_tokens [of ts "[]"] by (simp add: document_needs_exact_numbers_def)

text \<open>
  C3. The byte scan that decides whether a match is confirmed digit by digit is exact: over any
  document made of plain bytes, quoted strings and number literals it answers yes precisely
  when some literal outside the strings has more than 15 digits or an exponent beyond 300 in
  size. In particular no wide literal is let past, and digits inside strings never count.
\<close>

theorem width_filter_exact:
  assumes "tokens_ok ts"
  shows "document_needs_exact_numbers (concat (map token_text ts)) = list_ex token_wide ts"
  using assms by (rule document_needs_exact_tokens)

theorem width_filter_exact_witness:
  "document_needs_exact_numbers ''[-1e301]'' \<and> \<not> document_needs_exact_numbers ''[-1e300]''"
proof -
  let ?n = "\<lambda>ds. \<lparr>np_negative = False, np_int = ''1'', np_frac = None, np_exp = Some (CHR ''e'', [], ds)\<rparr>"
  let ?d = "\<lambda>ds. [Plain (CHR 0x5B), Plain (CHR ''-''), Number (?n ds), Plain (CHR 0x5D)]"
  have "tokens_ok (?d ''301'')" "tokens_ok (?d ''300'')"
    by (simp_all add: number_ok_def number_digits_def number_end_def is_digit_def digits_value_def digit_value_def)
  from this [THEN width_filter_exact] show ?thesis
    by (simp add: number_text_def number_digits_def number_exponent_def digits_value_def digit_value_def)
qed

text \<open>
  An exponent too long for \<^verbatim>\<open>strconv.Atoi\<close> leaves the literal as it was written. Go's float64
  decoder reads such a literal as zero when the exponent is negative, so a document can carry one.
\<close>

lemma canonical_decimal_long_exponent:
  "canonical_decimal ''1e-99999999999999999999'' = ''1e-99999999999999999999'' \<and>
   canonical_decimal ''10e-100000000000000000000'' = ''10e-100000000000000000000''"
  by (simp add: canonical_decimal_def atoi_def is_digit_def digits_value_def digit_value_def)

end
