(* ===== verification/Json_Match.thy ===== *)
theory Json_Match
  imports Json_Number Array_Pairing
begin

text \<open>
  Structural JSON comparison: \<^verbatim>\<open>jsonEqual\<close> of \<^verbatim>\<open>internal/matchers/matchers.go\<close> and the json-unit
  placeholders and exact-number documents of \<^verbatim>\<open>internal/matchers/jsonunit.go\<close>. Decoding bytes is
  Go's \<^verbatim>\<open>encoding/json\<close>: a document arrives here as the tree its decoder built, with every number
  still a literal (\<open>JNumber\<close>, Go's \<^verbatim>\<open>json.Number\<close>), and both readings the code takes of a document
  are computed from that tree.
\<close>

section \<open>Documents\<close>

datatype placeholder_kind =
  PhAny | PhAnyOrAbsent | PhAnyString | PhAnyNumber | PhAnyBoolean | PhRegex | PhDecimal

text \<open>A compiled pattern is the predicate \<^verbatim>\<open>PatternMatcher.MatchString\<close>.\<close>

record json_placeholder =
  ph_kind :: placeholder_kind
  ph_pattern :: "string \<Rightarrow> bool"
  ph_decimal :: string
  ph_source :: string

text \<open>
  \<open>JFloat\<close> is a \<^verbatim>\<open>float64\<close> by its value (JSON has no NaN, and \<^verbatim>\<open>==\<close> ignores the sign of zero),
  \<open>JDecimal\<close> a \<^verbatim>\<open>jsonDecimal\<close>, \<open>JPlaceholder\<close> a node \<^verbatim>\<open>resolvePlaceholders\<close> put there. A Go map is
  an association list with distinct keys.
\<close>

datatype json =
    JNull
  | JBool bool
  | JFloat rat
  | JNumber string
  | JDecimal string
  | JString string
  | JArray "json list"
  | JObject "(string \<times> json) list"
  | JPlaceholder json_placeholder

section \<open>Comparison\<close>

text \<open>
  Comparing with a scalar is written as a case, so that it evaluates: two arbitrary trees cannot be
  compared, since a placeholder holds a function. Proofs see the equation.
\<close>

lemma json_scalar_eq [simp]:
  "(case x of JNull \<Rightarrow> True | _ \<Rightarrow> False) \<longleftrightarrow> x = JNull"
  "(case x of JBool c \<Rightarrow> c = b | _ \<Rightarrow> False) \<longleftrightarrow> x = JBool b"
  "(case x of JFloat g \<Rightarrow> g = f | _ \<Rightarrow> False) \<longleftrightarrow> x = JFloat f"
  "(case x of JString t \<Rightarrow> t = s | _ \<Rightarrow> False) \<longleftrightarrow> x = JString s"
  by (cases x; auto)+

definition placeholder_matches :: "json_placeholder \<Rightarrow> json \<Rightarrow> bool" where
  "placeholder_matches p actual =
     (case ph_kind p of
        PhAny \<Rightarrow> True
      | PhAnyOrAbsent \<Rightarrow> True
      | PhAnyString \<Rightarrow> (case actual of JString _ \<Rightarrow> True | _ \<Rightarrow> False)
      | PhAnyNumber \<Rightarrow> (case actual of JFloat _ \<Rightarrow> True | JDecimal _ \<Rightarrow> True | _ \<Rightarrow> False)
      | PhAnyBoolean \<Rightarrow> (case actual of JBool _ \<Rightarrow> True | _ \<Rightarrow> False)
      | PhRegex \<Rightarrow> (case actual of JString s \<Rightarrow> ph_pattern p s | _ \<Rightarrow> False)
      | PhDecimal \<Rightarrow> (case actual of JDecimal d \<Rightarrow> d = ph_decimal p | _ \<Rightarrow> False))"

definition is_optional :: "json \<Rightarrow> bool" where
  "is_optional ev = (case ev of JPlaceholder p \<Rightarrow> ph_kind p = PhAnyOrAbsent | _ \<Rightarrow> False)"

lemma json_size_member [termination_simp]:
  "(k, v) \<in> set kvs \<Longrightarrow> size v < Suc (size_list (size_prod (\<lambda>_. 0) size) kvs)"
  by (induction kvs) auto

lemma json_size_zip [termination_simp]:
  "(e, a) \<in> set (zip es as) \<Longrightarrow> size e < Suc (size_list size es)"
  by (drule set_zip_leftD) (induction es, auto)

lemma json_size_zip' [termination_simp]:
  "(i, e) \<in> set (zip ns es) \<Longrightarrow> size e < Suc (size_list size es)"
  by (drule set_zip_rightD) (induction es, auto)

text \<open>
  \<^verbatim>\<open>jsonEqual\<close>. The \<^verbatim>\<open>default\<close> branch of its type switch refuses every expected node that is not
  one of the listed types, a bare decimal included.
\<close>

fun json_equal :: "json \<Rightarrow> json \<Rightarrow> bool \<Rightarrow> bool \<Rightarrow> bool" where
  "json_equal (JPlaceholder p) actual ignore_order ignore_extra = placeholder_matches p actual"
| "json_equal (JObject es) actual ignore_order ignore_extra =
     (case actual of
        JObject act \<Rightarrow>
          (if \<not> ignore_extra \<and> list_ex (\<lambda>k. map_of es k = None) (map fst act) then False
           else list_all (\<lambda>(k, ev).
             case map_of act k of
               None \<Rightarrow> is_optional ev
             | Some av \<Rightarrow> json_equal ev av ignore_order ignore_extra) es)
      | _ \<Rightarrow> False)"
| "json_equal (JArray es) actual ignore_order ignore_extra =
     (case actual of
        JArray act \<Rightarrow>
          (if ignore_order
           then array_equal_unordered (\<lambda>ev av. json_equal ev av ignore_order ignore_extra) ignore_extra es act
           else if length act < length es \<or> (\<not> ignore_extra \<and> length act \<noteq> length es) then False
           else list_all (\<lambda>(ev, av). json_equal ev av ignore_order ignore_extra) (zip es act))
      | _ \<Rightarrow> False)"
| "json_equal JNull actual ignore_order ignore_extra = (case actual of JNull \<Rightarrow> True | _ \<Rightarrow> False)"
| "json_equal (JBool b) actual ignore_order ignore_extra = (case actual of JBool c \<Rightarrow> c = b | _ \<Rightarrow> False)"
| "json_equal (JFloat x) actual ignore_order ignore_extra = (case actual of JFloat y \<Rightarrow> y = x | _ \<Rightarrow> False)"
| "json_equal (JString s) actual ignore_order ignore_extra = (case actual of JString t \<Rightarrow> t = s | _ \<Rightarrow> False)"
| "json_equal _ actual ignore_order ignore_extra = False"

section \<open>Placeholders\<close>

definition placeholder_prefix :: string where "placeholder_prefix = ''${json-unit.''"
definition placeholder_ignore :: string where "placeholder_ignore = ''${json-unit.ignore}''"
definition placeholder_ignore_element :: string where
  "placeholder_ignore_element = ''${json-unit.ignore-element}''"
definition placeholder_any_string :: string where "placeholder_any_string = ''${json-unit.any-string}''"
definition placeholder_any_number :: string where "placeholder_any_number = ''${json-unit.any-number}''"
definition placeholder_any_boolean :: string where "placeholder_any_boolean = ''${json-unit.any-boolean}''"
definition placeholder_regex_prefix :: string where "placeholder_regex_prefix = ''${json-unit.regex}''"

definition has_placeholder :: "string \<Rightarrow> bool" where
  "has_placeholder s = has_prefix s placeholder_prefix"

text \<open>The refusals of \<^verbatim>\<open>compilePlaceholder\<close>, with what their messages carry.\<close>

datatype placeholder_error =
  NoRegexEngine | PatternDoesNotCompile string string | UnknownPlaceholder string

datatype problem_kind =
  ProblemMalformed | ProblemDeferred | ProblemRegex | ProblemJSONPath | ProblemSchema | ProblemXPath

record 'd problem =
  pb_kind :: problem_kind
  pb_pointer :: string
  pb_detail :: 'd
  pb_feature :: string

text \<open>\<^verbatim>\<open>RegexCompiler\<close>: a compiled predicate or the error text. It may be nil.\<close>

type_synonym regex_compiler = "(string \<Rightarrow> string + (string \<Rightarrow> bool)) option"

definition plain_placeholder :: "placeholder_kind \<Rightarrow> string \<Rightarrow> json_placeholder" where
  "plain_placeholder k s = \<lparr>ph_kind = k, ph_pattern = (\<lambda>_. False), ph_decimal = [], ph_source = s\<rparr>"

definition compile_placeholder ::
    "regex_compiler \<Rightarrow> string \<Rightarrow> (problem_kind \<times> placeholder_error) + json_placeholder" where
  "compile_placeholder compile_regex s =
     (if s = placeholder_ignore then Inr (plain_placeholder PhAny s)
      else if s = placeholder_ignore_element then Inr (plain_placeholder PhAnyOrAbsent s)
      else if s = placeholder_any_string then Inr (plain_placeholder PhAnyString s)
      else if s = placeholder_any_number then Inr (plain_placeholder PhAnyNumber s)
      else if s = placeholder_any_boolean then Inr (plain_placeholder PhAnyBoolean s)
      else if has_prefix s placeholder_regex_prefix then
        (case compile_regex of
           None \<Rightarrow> Inl (ProblemMalformed, NoRegexEngine)
         | Some cr \<Rightarrow>
             (case cr (drop (length placeholder_regex_prefix) s) of
                Inl e \<Rightarrow> Inl (ProblemRegex, PatternDoesNotCompile s e)
              | Inr pat \<Rightarrow> Inr ((plain_placeholder PhRegex s)\<lparr>ph_pattern := pat\<rparr>)))
      else Inl (ProblemMalformed, UnknownPlaceholder s))"

text \<open>\<^verbatim>\<open>resolvePlaceholders\<close>: the rewritten document, whether anything was replaced, the problems.\<close>

fun resolve_placeholders ::
    "regex_compiler \<Rightarrow> string \<Rightarrow> json \<Rightarrow> json \<times> bool \<times> placeholder_error problem list" where
  "resolve_placeholders cr pointer (JString v) =
     (if \<not> has_placeholder v then (JString v, False, [])
      else case compile_placeholder cr v of
             Inl (k, e) \<Rightarrow> (JNull, False, [\<lparr>pb_kind = k, pb_pointer = pointer, pb_detail = e, pb_feature = []\<rparr>])
           | Inr ph \<Rightarrow> (JPlaceholder ph, True, []))"
| "resolve_placeholders cr pointer (JObject kvs) =
     (let rs = map (\<lambda>(k, v). (k, resolve_placeholders cr pointer v)) kvs
      in (JObject (map (\<lambda>(k, r). (k, fst r)) rs), list_ex (\<lambda>(k, r). fst (snd r)) rs,
          concat (map (\<lambda>(k, r). snd (snd r)) rs)))"
| "resolve_placeholders cr pointer (JArray vs) =
     (let rs = map (resolve_placeholders cr pointer) vs
      in (JArray (map fst rs), list_ex (\<lambda>r. fst (snd r)) rs, concat (map (\<lambda>r. snd (snd r)) rs)))"
| "resolve_placeholders cr pointer v = (v, False, [])"

section \<open>The two readings of a document\<close>

text \<open>
  \<^verbatim>\<open>json.Unmarshal\<close> into \<^verbatim>\<open>any\<close> converts every literal to float64 and fails on one out of range;
  \<^verbatim>\<open>exactNumbers\<close> normalises the literals \<^verbatim>\<open>UseNumber\<close> kept.
\<close>

fun float_numbers :: "(string \<Rightarrow> rat option) \<Rightarrow> json \<Rightarrow> json option" where
  "float_numbers pf (JNumber l) = map_option JFloat (pf l)"
| "float_numbers pf (JArray vs) = map_option JArray (those (map (float_numbers pf) vs))"
| "float_numbers pf (JObject kvs) =
     map_option JObject (those (map (\<lambda>(k, v). map_option (Pair k) (float_numbers pf v)) kvs))"
| "float_numbers pf v = Some v"

fun exact_numbers :: "json \<Rightarrow> json" where
  "exact_numbers (JNumber l) = JDecimal (canonical_decimal l)"
| "exact_numbers (JArray vs) = JArray (map exact_numbers vs)"
| "exact_numbers (JObject kvs) = JObject (map (\<lambda>(k, v). (k, exact_numbers v)) kvs)"
| "exact_numbers v = v"

text \<open>Go's decoder of a complete document, trailing content refused, and \<^verbatim>\<open>strconv.ParseFloat\<close>.\<close>

record json_codec =
  jc_decode :: "bytes \<Rightarrow> json option"
  jc_float :: "string \<Rightarrow> rat option"
  jc_marshal :: "json \<Rightarrow> string option"
  jc_quote :: "string \<Rightarrow> string option"

definition json_unmarshal :: "json_codec \<Rightarrow> bytes \<Rightarrow> json option" where
  "json_unmarshal jc data = Option.bind (jc_decode jc data) (float_numbers (jc_float jc))"

definition decode_exact_json :: "json_codec \<Rightarrow> bytes \<Rightarrow> json option" where
  "decode_exact_json jc data = map_option exact_numbers (jc_decode jc data)"

section \<open>The exact expected document\<close>

definition counterparts :: "json \<Rightarrow> nat \<Rightarrow> json list" where
  "counterparts decoded n =
     (let source = (case decoded of JArray xs \<Rightarrow> xs | _ \<Rightarrow> [])
      in map (\<lambda>i. if i < length source then source ! i else JNull) [0..<n])"

definition member_counterpart :: "json \<Rightarrow> string \<Rightarrow> json" where
  "member_counterpart decoded k =
     (case decoded of JObject kvs \<Rightarrow> (case map_of kvs k of Some v \<Rightarrow> v | None \<Rightarrow> JNull) | _ \<Rightarrow> JNull)"

definition decimal_node :: "string \<Rightarrow> json" where
  "decimal_node d = JPlaceholder \<lparr>ph_kind = PhDecimal, ph_pattern = (\<lambda>_. False), ph_decimal = d, ph_source = d\<rparr>"

fun pair_exact_numbers :: "json \<Rightarrow> json \<Rightarrow> json \<times> bool" where
  "pair_exact_numbers (JPlaceholder p) decoded = (JPlaceholder p, False)"
| "pair_exact_numbers (JObject kvs) decoded =
     (let rs = map (\<lambda>(k, v). (k, pair_exact_numbers v (member_counterpart decoded k))) kvs
      in (JObject (map (\<lambda>(k, r). (k, fst r)) rs), list_ex (\<lambda>(k, r). snd r) rs))"
| "pair_exact_numbers (JArray vs) decoded =
     (let rs = map (\<lambda>(c, v). pair_exact_numbers v c) (zip (counterparts decoded (length vs)) vs)
      in (JArray (map fst rs), list_ex snd rs))"
| "pair_exact_numbers (JFloat x) decoded =
     (case decoded of JDecimal d \<Rightarrow> (decimal_node d, True) | _ \<Rightarrow> (JFloat x, False))"
| "pair_exact_numbers v decoded = (v, False)"

datatype number_width = NumbersIrrelevant | NumbersNarrow | NumbersWide

definition resolve_exact_expected :: "json_codec \<Rightarrow> json \<Rightarrow> string \<Rightarrow> (json \<times> number_width) option" where
  "resolve_exact_expected jc resolved source =
     (case decode_exact_json jc source of
        None \<Rightarrow> None
      | Some decoded \<Rightarrow>
          (let (exact, found) = pair_exact_numbers resolved decoded
           in Some (exact, if \<not> found then NumbersIrrelevant
                           else if document_needs_exact_numbers source then NumbersWide else NumbersNarrow)))"

section \<open>The equalToJson criterion\<close>

record equal_to_json =
  ej_expected :: json
  ej_exact :: json
  ej_numbers :: number_width
  ej_ignore_order :: bool
  ej_ignore_extra :: bool
  ej_has_placeholders :: bool
  ej_source :: string

text \<open>
  The \<^verbatim>\<open>equalToJson\<close> case of the matcher compiler, on the operand text \<^verbatim>\<open>decodeExpectedJSON\<close>
  settled on: \<open>Inl None\<close> is "not valid JSON", \<open>Inl (Some ps)\<close> the placeholder problems.
\<close>

definition compile_equal_to_json ::
    "regex_compiler \<Rightarrow> json_codec \<Rightarrow> string \<Rightarrow> string \<Rightarrow> bool \<Rightarrow> bool \<Rightarrow>
     placeholder_error problem list option + equal_to_json" where
  "compile_equal_to_json cr jc pointer source ignore_order ignore_extra =
     (case json_unmarshal jc source of
        None \<Rightarrow> Inl None
      | Some expected \<Rightarrow>
          (let (resolved, has_ph, problems) = resolve_placeholders cr pointer expected
           in if problems \<noteq> [] then Inl (Some problems)
              else case resolve_exact_expected jc resolved source of
                     None \<Rightarrow> Inl None
                   | Some (exact, numbers) \<Rightarrow>
                       Inr \<lparr>ej_expected = resolved, ej_exact = exact, ej_numbers = numbers,
                            ej_ignore_order = ignore_order, ej_ignore_extra = ignore_extra,
                            ej_has_placeholders = has_ph, ej_source = source\<rparr>))"

text \<open>\<^verbatim>\<open>confirmNumbers\<close> over the bytes \<^verbatim>\<open>jsonDocumentOf\<close> hands it.\<close>

definition confirm_numbers :: "json_codec \<Rightarrow> equal_to_json \<Rightarrow> bytes \<Rightarrow> bool" where
  "confirm_numbers jc m document =
     (if ej_numbers m = NumbersIrrelevant then True
      else if ej_numbers m = NumbersNarrow \<and> \<not> document_needs_exact_numbers document then True
      else if (case ej_exact m of JNull \<Rightarrow> True | _ \<Rightarrow> False) then True
      else case decode_exact_json jc document of
             None \<Rightarrow> False
           | Some actual \<Rightarrow> json_equal (ej_exact m) actual (ej_ignore_order m) (ej_ignore_extra m))"

text \<open>\<^verbatim>\<open>matchOne\<close> of a present subject: its JSON reading, if it has one, and its document bytes.\<close>

definition equal_to_json_one :: "json_codec \<Rightarrow> equal_to_json \<Rightarrow> json option \<Rightarrow> bytes \<Rightarrow> bool" where
  "equal_to_json_one jc m reading document =
     (case reading of
        None \<Rightarrow> False
      | Some actual \<Rightarrow>
          if \<not> json_equal (ej_expected m) actual (ej_ignore_order m) (ej_ignore_extra m) then False
          else confirm_numbers jc m document)"

section \<open>Relaxing the options\<close>

lemma json_equal_mono:
  assumes "io \<longrightarrow> io'" and "ie \<longrightarrow> ie'" and "json_equal e a io ie"
  shows "json_equal e a io' ie'"
  using assms(3)
proof (induction e arbitrary: a)
  case (JArray es)
  then obtain as where a: "a = JArray as" by (cases a) auto
  show ?case
  proof (cases io)
    case True
    with JArray.prems a obtain f where f: "ie \<or> length as = length es" "pairs_up (\<lambda>ev av. json_equal ev av io ie) es as f"
      by (auto simp: array_equal_unordered_iff)
    then have "pairs_up (\<lambda>ev av. json_equal ev av io' ie') es as f"
      using JArray.IH by (auto simp: pairs_up_def)
    then show ?thesis using a f True assms by (auto simp: array_equal_unordered_iff)
  next
    case False
    with JArray.prems a have len: "length es \<le> length as" "ie \<or> length as = length es"
      and each: "\<And>i. i < length es \<Longrightarrow> json_equal (es ! i) (as ! i) io' ie'"
      using JArray.IH by (auto simp: list_all_length split: if_splits)
    then have "pairs_up (\<lambda>ev av. json_equal ev av io' ie') es as id"
      by (auto simp: pairs_up_def)
    then show ?thesis
      using a len each assms(2) by (auto simp: array_equal_unordered_iff list_all_length)
  qed
next
  case (JObject kvs)
  then obtain as where a: "a = JObject as" by (cases a) auto
  with JObject assms(2) show ?case
    by (fastforce simp: list_all_iff split: if_splits option.splits)
qed (use assms in \<open>auto\<close>)

section \<open>Documents as decoded\<close>

text \<open>What \<^verbatim>\<open>encoding/json\<close> builds: number literals only, no placeholders, distinct keys.\<close>

fun raw_tree :: "json \<Rightarrow> bool" where
  "raw_tree (JArray vs) = list_all raw_tree vs"
| "raw_tree (JObject kvs) = (distinct (map fst kvs) \<and> list_all (\<lambda>(k, v). raw_tree v) kvs)"
| "raw_tree v = (case v of JFloat _ \<Rightarrow> False | JDecimal _ \<Rightarrow> False | JPlaceholder _ \<Rightarrow> False | _ \<Rightarrow> True)"

fun literals :: "json \<Rightarrow> string set" where
  "literals (JNumber l) = {l}"
| "literals (JArray vs) = \<Union> (set (map literals vs))"
| "literals (JObject kvs) = \<Union> (set (map (\<lambda>(k, v). literals v) kvs))"
| "literals v = {}"

text \<open>The tree with every number literal replaced.\<close>

fun map_numbers :: "(string \<Rightarrow> json) \<Rightarrow> json \<Rightarrow> json" where
  "map_numbers g (JNumber l) = g l"
| "map_numbers g (JArray vs) = JArray (map (map_numbers g) vs)"
| "map_numbers g (JObject kvs) = JObject (map (\<lambda>(k, v). (k, map_numbers g v)) kvs)"
| "map_numbers g v = v"

lemma exact_numbers_map: "exact_numbers t = map_numbers (\<lambda>l. JDecimal (canonical_decimal l)) t"
proof (induction t)
  case (JObject kvs)
  then show ?case by (auto intro!: map_cong [OF refl])
qed auto

lemma those_Some: "those xs = Some ys \<longleftrightarrow> xs = map Some ys"
proof (induction xs arbitrary: ys)
  case (Cons x xs)
  then show ?case by (cases ys) (auto split: option.splits)
qed auto

lemma float_numbers_map:
  "float_numbers pf t = Some t' \<Longrightarrow> t' = map_numbers (\<lambda>l. JFloat (the (pf l))) t \<and> (\<forall>l \<in> literals t. pf l \<noteq> None)"
proof (induction t arbitrary: t')
  case (JArray vs)
  then obtain ws where ws: "map (float_numbers pf) vs = map Some ws" "t' = JArray ws"
    by (auto simp: those_Some)
  then have each: "float_numbers pf (vs ! i) = Some (ws ! i)" if "i < length vs" for i
    using that by (metis length_map nth_map)
  have "length ws = length vs" using ws(1) by (metis length_map)
  then have "ws = map (map_numbers (\<lambda>l. JFloat (the (pf l)))) vs"
    using JArray.IH each by (auto intro!: nth_equalityI)
  moreover have "\<forall>l \<in> literals (JArray vs). pf l \<noteq> None"
    using JArray.IH each by (fastforce simp: in_set_conv_nth)
  ultimately show ?case using ws(2) by simp
next
  case (JObject kvs)
  let ?g = "map_numbers (\<lambda>l. JFloat (the (pf l)))"
  obtain ws where ws: "map (\<lambda>(k, v). map_option (Pair k) (float_numbers pf v)) kvs = map Some ws" "t' = JObject ws"
    using JObject.prems by (auto simp: those_Some)
  have len: "length ws = length kvs" using ws(1) by (metis length_map)
  have each: "ws ! i = (fst (kvs ! i), ?g (snd (kvs ! i))) \<and> (\<forall>l \<in> literals (snd (kvs ! i)). pf l \<noteq> None)"
    if i: "i < length kvs" for i
  proof -
    have "map_option (Pair (fst (kvs ! i))) (float_numbers pf (snd (kvs ! i))) = Some (ws ! i)"
      using ws(1) i len by (metis (no_types, lifting) case_prod_beta length_map nth_map)
    then obtain v where v: "float_numbers pf (snd (kvs ! i)) = Some v" "ws ! i = (fst (kvs ! i), v)" by auto
    then show ?thesis using JObject.IH [of "kvs ! i" "snd (kvs ! i)" v] i by (auto simp: snds.simps prod_eq_iff)
  qed
  then have "ws = map (\<lambda>(k, v). (k, ?g v)) kvs"
    using len by (auto intro!: nth_equalityI simp: case_prod_beta)
  moreover have "\<forall>l \<in> literals (JObject kvs). pf l \<noteq> None"
    using each by (fastforce simp: in_set_conv_nth)
  ultimately show ?case using ws(2) by simp
qed auto

section \<open>Comparing two readings of the same documents\<close>

definition number_node :: "json \<Rightarrow> bool" where
  "number_node v = (case v of JFloat _ \<Rightarrow> True | JDecimal _ \<Rightarrow> True | _ \<Rightarrow> False)"

text \<open>An expected tree before its numbers are read: placeholders, but no number nodes yet.\<close>

fun raw_expected :: "json \<Rightarrow> bool" where
  "raw_expected (JArray vs) = list_all raw_expected vs"
| "raw_expected (JObject kvs) = list_all (\<lambda>(k, v). raw_expected v) kvs"
| "raw_expected (JPlaceholder p) = (ph_kind p \<noteq> PhDecimal)"
| "raw_expected v = (case v of JFloat _ \<Rightarrow> False | JDecimal _ \<Rightarrow> False | _ \<Rightarrow> True)"

lemma map_of_map_numbers: "map_of (map (\<lambda>(k, v). (k, map_numbers g v)) kvs) k = map_option (map_numbers g) (map_of kvs k)"
  by (induction kvs) auto

lemma fst_map_numbers: "map fst (map (\<lambda>(k, v). (k, map_numbers g v)) kvs) = map fst kvs"
  by (induction kvs) auto

lemma number_node_not [simp]:
  "\<not> number_node JNull" "\<not> number_node (JBool b)" "\<not> number_node (JString s)" "\<not> number_node (JArray xs)"
  "\<not> number_node (JObject kvs)" "number_node (JFloat x)" "number_node (JDecimal d)"
  by (simp_all add: number_node_def)

lemma map_numbers_eq:
  assumes "\<And>l. number_node (h l)"
  shows "map_numbers h u = JNull \<longleftrightarrow> u = JNull"
    and "map_numbers h u = JBool b \<longleftrightarrow> u = JBool b"
    and "map_numbers h u = JString s \<longleftrightarrow> u = JString s"
    and "map_numbers h u = JArray xs \<longleftrightarrow> (\<exists>us. u = JArray us \<and> xs = map (map_numbers h) us)"
    and "map_numbers h u = JObject kvs \<longleftrightarrow>
      (\<exists>us. u = JObject us \<and> kvs = map (\<lambda>(k, v). (k, map_numbers h v)) us)"
proof -
  have n: "h l \<noteq> JNull" "h l \<noteq> JBool b" "h l \<noteq> JString s" "h l \<noteq> JArray xs" "h l \<noteq> JObject kvs"
    for l b s xs kvs
    using assms number_node_not by metis+
  show "map_numbers h u = JNull \<longleftrightarrow> u = JNull" "map_numbers h u = JBool b \<longleftrightarrow> u = JBool b"
    "map_numbers h u = JString s \<longleftrightarrow> u = JString s"
    "map_numbers h u = JArray xs \<longleftrightarrow> (\<exists>us. u = JArray us \<and> xs = map (map_numbers h) us)"
    "map_numbers h u = JObject kvs \<longleftrightarrow>
      (\<exists>us. u = JObject us \<and> kvs = map (\<lambda>(k, v). (k, map_numbers h v)) us)"
    by (cases u; auto simp: n)+
qed

lemma placeholder_number:
  "number_node v \<Longrightarrow> number_node w \<Longrightarrow> ph_kind p \<noteq> PhDecimal \<Longrightarrow>
   placeholder_matches p v \<longleftrightarrow> placeholder_matches p w"
  by (cases v; cases w) (auto simp: placeholder_matches_def number_node_def split: placeholder_kind.splits)

lemma json_equal_objects:
  "json_equal (map_numbers g (JObject kvs)) (map_numbers h (JObject us)) io ie \<longleftrightarrow>
     (ie \<or> (\<forall>k \<in> fst ` set us. map_of kvs k \<noteq> None)) \<and>
     (\<forall>(k, ev) \<in> set kvs.
        case map_of us k of
          None \<Rightarrow> is_optional (map_numbers g ev)
        | Some av \<Rightarrow> json_equal (map_numbers g ev) (map_numbers h av) io ie)"
  unfolding map_numbers.simps json_equal.simps json.case fst_map_numbers map_of_map_numbers
    case_map_option comp_def
  by (auto simp: list_all_iff list_ex_iff)

lemma json_equal_readings:
  assumes "json_equal (map_numbers g e) (map_numbers h u) io ie"
    and "raw_expected e" and "raw_tree u"
    and "\<And>l. number_node (h l)" and "\<And>l. number_node (h' l)"
    and "\<And>l v. json_equal (g l) v io ie \<Longrightarrow> number_node v"
    and "\<And>l l'. l \<in> literals e \<Longrightarrow> l' \<in> literals u \<Longrightarrow> json_equal (g l) (h l') io ie \<Longrightarrow> json_equal (g' l) (h' l') io ie"
  shows "json_equal (map_numbers g' e) (map_numbers h' u) io ie"
  using assms(1-3,7)
proof (induction e arbitrary: u)
  case (JNumber l)
  then have "number_node (map_numbers h u)" using assms(6) by simp
  then have "\<exists>l'. u = JNumber l'" using JNumber.prems(3) by (cases u) (auto simp: number_node_def)
  then show ?case using JNumber by auto
next
  case (JArray es)
  then obtain us where u: "u = JArray us"
    by (cases "map_numbers h u") (auto simp: map_numbers_eq(4) [OF assms(4)])
  have lits: "l' \<in> literals u" if "l' \<in> literals (us ! j)" "j < length us" for j l'
    using that u by auto
  have step: "json_equal (map_numbers g' (es ! i)) (map_numbers h' (us ! j)) io ie"
    if "i < length es" "j < length us" "json_equal (map_numbers g (es ! i)) (map_numbers h (us ! j)) io ie" for i j
  proof (rule JArray.IH)
    show "json_equal (g' l) (h' l') io ie"
      if "l \<in> literals (es ! i)" "l' \<in> literals (us ! j)" "json_equal (g l) (h l') io ie" for l l'
      using that \<open>i < length es\<close> \<open>j < length us\<close> lits by (intro JArray.prems(4)) auto
  qed (use that JArray.prems u in \<open>auto simp: list_all_length\<close>)
  show ?case
  proof (cases io)
    case True
    with JArray.prems(1) u obtain f where "ie \<or> length us = length es"
      "pairs_up (\<lambda>ev av. json_equal ev av io ie) (map (map_numbers g) es) (map (map_numbers h) us) f"
      by (auto simp: array_equal_unordered_iff)
    moreover from this have "pairs_up (\<lambda>ev av. json_equal ev av io ie) (map (map_numbers g') es) (map (map_numbers h') us) f"
      using step by (auto simp: pairs_up_def)
    ultimately show ?thesis using u True by (auto simp: array_equal_unordered_iff)
  next
    case False
    with JArray.prems(1) u step show ?thesis by (auto simp: list_all_length split: if_splits)
  qed
next
  case (JObject kvs)
  then obtain us where u: "u = JObject us"
    by (cases "map_numbers h u") (auto simp: map_numbers_eq(5) [OF assms(4)])
  have step: "json_equal (map_numbers g' ev) (map_numbers h' av) io ie"
    if "(k, ev) \<in> set kvs" "map_of us k = Some av" "json_equal (map_numbers g ev) (map_numbers h av) io ie" for k ev av
  proof -
    have "(k, av) \<in> set us" using that(2) by (rule map_of_SomeD)
    show ?thesis
    proof (rule JObject.IH [of "(k, ev)" ev])
      show "json_equal (g' l) (h' l') io ie"
        if "l \<in> literals ev" "l' \<in> literals av" "json_equal (g l) (h l') io ie" for l l'
        using that \<open>(k, ev) \<in> set kvs\<close> \<open>(k, av) \<in> set us\<close> u by (intro JObject.prems(4)) fastforce+
    qed (use that JObject.prems u \<open>(k, av) \<in> set us\<close> in \<open>auto simp: list_all_iff\<close>)
  qed
  have opt: "is_optional (map_numbers g' ev)" if o: "is_optional (map_numbers g ev)" for ev
  proof (cases ev)
    case (JNumber l)
    with o have "json_equal (g l) JNull io ie"
      by (auto simp: is_optional_def placeholder_matches_def split: json.splits)
    then show ?thesis using assms(6) [of l JNull] by simp
  qed (use o in \<open>simp_all add: is_optional_def\<close>)
  have "(case map_of us k of None \<Rightarrow> is_optional (map_numbers g' ev)
       | Some av \<Rightarrow> json_equal (map_numbers g' ev) (map_numbers h' av) io ie)"
    if "(k, ev) \<in> set kvs" for k ev
    using conjunct2 [OF JObject.prems(1) [unfolded u json_equal_objects]] step [OF that] opt [of ev] that
    by (cases "map_of us k") auto
  then show ?case
    using conjunct1 [OF JObject.prems(1) [unfolded u json_equal_objects]]
    unfolding u json_equal_objects by blast
next
  case (JPlaceholder p)
  have "placeholder_matches p (map_numbers h' u)" if "placeholder_matches p (map_numbers h u)"
  proof (cases u)
    case (JNumber l)
    then show ?thesis
      using that JPlaceholder.prems(2) placeholder_number [OF assms(4) [of l] assms(5) [of l], of p] by simp
  qed (use that in \<open>auto simp: placeholder_matches_def split: placeholder_kind.splits\<close>)
  then show ?case using JPlaceholder.prems(1) by simp
qed (auto simp: map_numbers_eq [OF assms(4)] map_numbers_eq [OF assms(5)])

section \<open>What the compiled criterion holds\<close>

text \<open>
  Both documents of a compiled criterion come from one tree: the decoded source with its
  placeholder strings resolved.
\<close>

definition template_of :: "regex_compiler \<Rightarrow> string \<Rightarrow> json \<Rightarrow> json" where
  "template_of cr pointer t = fst (resolve_placeholders cr pointer t)"

definition float_reading :: "json_codec \<Rightarrow> json \<Rightarrow> json" where
  "float_reading jc = map_numbers (\<lambda>l. JFloat (the (jc_float jc l)))"

definition decimal_reading :: "json \<Rightarrow> json" where
  "decimal_reading = map_numbers (\<lambda>l. decimal_node (canonical_decimal l))"

lemma resolve_float: "raw_tree t \<Longrightarrow>
   fst (resolve_placeholders cr pointer (float_reading jc t)) = float_reading jc (template_of cr pointer t)"
  unfolding float_reading_def template_of_def
proof (induction t)
  case (JObject kvs)
  then show ?case by (fastforce simp: Let_def list_all_iff)
qed (auto simp: Let_def list_all_iff split: sum.splits)

lemma template_raw_expected: "raw_tree t \<Longrightarrow> raw_expected (template_of cr pointer t)"
  unfolding template_of_def
proof (induction t)
  case (JObject kvs)
  then show ?case by (fastforce simp: Let_def list_all_iff)
next
  case (JString s)
  then show ?case
    by (auto simp: compile_placeholder_def plain_placeholder_def split: sum.splits if_splits option.splits)
qed (auto simp: Let_def list_all_iff split: json.splits)

lemma template_literals: "literals (template_of cr pointer t) = literals t"
  unfolding template_of_def
proof (induction t)
  case (JObject kvs)
  have "literals (fst (resolve_placeholders cr pointer v)) = literals v" if "(k, v) \<in> set kvs" for k v
    using JObject.IH [OF that, of v] by simp
  then show ?case by (auto simp: Let_def case_prod_beta)
qed (auto simp: Let_def split: sum.splits)

lemma pair_exact_reading: "raw_tree t \<Longrightarrow>
   pair_exact_numbers (float_reading jc (template_of cr pointer t)) (exact_numbers t) =
     (decimal_reading (template_of cr pointer t), literals t \<noteq> {})"
  unfolding float_reading_def template_of_def decimal_reading_def
proof (induction t)
  case (JString s)
  then show ?case by (auto split: sum.splits)
next
  case (JArray vs)
  let ?r = "\<lambda>v. (map_numbers (\<lambda>l. decimal_node (canonical_decimal l)) (fst (resolve_placeholders cr pointer v)), literals v \<noteq> {})"
  let ?e = "\<lambda>v. map_numbers (\<lambda>l. JFloat (the (jc_float jc l))) (fst (resolve_placeholders cr pointer v))"
  have "counterparts (exact_numbers (JArray vs)) (length vs) = map exact_numbers vs"
    by (auto simp: counterparts_def intro!: nth_equalityI)
  then have "map (\<lambda>(c, v). pair_exact_numbers v c) (zip (counterparts (exact_numbers (JArray vs)) (length vs)) (map ?e vs)) = map ?r vs"
    using JArray by (auto simp: list_all_length intro!: nth_equalityI)
  then show ?case by (simp add: Let_def comp_def list_ex_iff)
next
  case (JObject kvs)
  let ?r = "\<lambda>v. (map_numbers (\<lambda>l. decimal_node (canonical_decimal l)) (fst (resolve_placeholders cr pointer v)), literals v \<noteq> {})"
  let ?e = "\<lambda>v. map_numbers (\<lambda>l. JFloat (the (jc_float jc l))) (fst (resolve_placeholders cr pointer v))"
  have "pair_exact_numbers (?e v) (member_counterpart (exact_numbers (JObject kvs)) k) = ?r v" if kv: "(k, v) \<in> set kvs" for k v
  proof -
    have "map_of kvs k = Some v" using JObject.prems kv by simp
    then have "member_counterpart (exact_numbers (JObject kvs)) k = exact_numbers v"
      unfolding exact_numbers_map by (simp add: member_counterpart_def map_of_map_numbers)
    moreover have "raw_tree v" using JObject.prems kv by (auto simp: list_all_iff)
    ultimately show ?thesis using JObject.IH [OF kv, of v] by simp
  qed
  then have "map (\<lambda>(k, v). (k, pair_exact_numbers (?e v) (member_counterpart (exact_numbers (JObject kvs)) k))) kvs =
      map (\<lambda>(k, v). (k, ?r v)) kvs"
    by auto
  then show ?case by (auto simp: Let_def comp_def list_ex_iff case_prod_beta)
qed auto

section \<open>Float comparison with confirmation is exact comparison\<close>

text \<open>
  What is relied on of \<^verbatim>\<open>encoding/json\<close>: a document it accepts is a run of tokens, and every
  number literal of the tree is one of them, with its sign.
\<close>

definition decodes_tokens :: "json_codec \<Rightarrow> bytes \<Rightarrow> json \<Rightarrow> bool" where
  "decodes_tokens jc doc t \<longleftrightarrow>
     jc_decode jc doc = Some t \<and> raw_tree t \<and>
     (\<exists>ts. tokens_ok ts \<and> doc = concat (map token_text ts) \<and>
        (\<forall>l \<in> literals t. \<exists>n. number_ok n \<and> l = number_text n \<and> Number (n\<lparr>np_negative := False\<rparr>) \<in> set ts))"

text \<open>
  What is relied on of float64: equal numbers parse alike, and two literals of at most 15 digits
  with exponents of at most 300 that parse alike are the same number.
\<close>

definition narrow :: "number_parts \<Rightarrow> bool" where
  "narrow n \<longleftrightarrow> length (number_digits n) \<le> 15 \<and> \<bar>number_exponent n\<bar> \<le> 300"

definition float_faithful :: "(string \<Rightarrow> rat option) \<Rightarrow> string set \<Rightarrow> bool" where
  "float_faithful pf L \<longleftrightarrow>
     (\<forall>m n. number_ok m \<longrightarrow> number_ok n \<longrightarrow> number_text m \<in> L \<longrightarrow> number_text n \<in> L \<longrightarrow>
        (number_value m = number_value n \<longrightarrow> pf (number_text m) = pf (number_text n)) \<and>
        (narrow m \<longrightarrow> narrow n \<longrightarrow> pf (number_text m) = pf (number_text n) \<longrightarrow> number_value m = number_value n))"

lemma float_faithful_parse:
  assumes "float_faithful pf L" and "number_ok m" and "number_ok n" and "number_text m \<in> L" and "number_text n \<in> L"
  shows "number_value m = number_value n \<Longrightarrow> pf (number_text m) = pf (number_text n)"
    and "narrow m \<Longrightarrow> narrow n \<Longrightarrow> pf (number_text m) = pf (number_text n) \<Longrightarrow> number_value m = number_value n"
  using assms unfolding float_faithful_def by blast+

lemma decodes_tokens_number:
  assumes "decodes_tokens jc doc t" and "l \<in> literals t"
  obtains n where "number_ok n" "l = number_text n" "\<not> document_needs_exact_numbers doc \<Longrightarrow> narrow n"
proof -
  obtain ts n where ts: "tokens_ok ts" "doc = concat (map token_text ts)"
    and n: "number_ok n" "l = number_text n" "Number (n\<lparr>np_negative := False\<rparr>) \<in> set ts"
    using assms by (auto simp: decodes_tokens_def)
  have "narrow n" if "\<not> document_needs_exact_numbers doc"
  proof -
    have "\<not> token_wide (Number (n\<lparr>np_negative := False\<rparr>))"
      using that ts n(3) document_needs_exact_tokens [OF ts(1)] by (auto simp: list_ex_iff)
    then show ?thesis by (simp add: narrow_def number_digits_def number_exponent_def)
  qed
  with n that show thesis by blast
qed

lemma decimal_node_equal: "json_equal (decimal_node d) v io ie \<longleftrightarrow> v = JDecimal d"
  by (cases v) (auto simp: decimal_node_def placeholder_matches_def)

lemma exact_implies_float:
  assumes "json_equal (decimal_reading E) (exact_numbers u) io ie" and "raw_expected E" and "raw_tree u"
    and "\<And>l l'. l \<in> literals E \<Longrightarrow> l' \<in> literals u \<Longrightarrow> canonical_decimal l = canonical_decimal l' \<Longrightarrow>
      the (jc_float jc l) = the (jc_float jc l')"
  shows "json_equal (float_reading jc E) (float_reading jc u) io ie"
  unfolding float_reading_def
  by (rule json_equal_readings [OF assms(1) [unfolded decimal_reading_def exact_numbers_map] assms(2,3)])
    (use assms(4) in \<open>auto simp: decimal_node_equal\<close>)

lemma float_implies_exact:
  assumes "json_equal (float_reading jc E) (float_reading jc u) io ie" and "raw_expected E" and "raw_tree u"
    and "\<And>l l'. l \<in> literals E \<Longrightarrow> l' \<in> literals u \<Longrightarrow> the (jc_float jc l) = the (jc_float jc l') \<Longrightarrow>
      canonical_decimal l = canonical_decimal l'"
  shows "json_equal (decimal_reading E) (exact_numbers u) io ie"
  unfolding decimal_reading_def exact_numbers_map
  by (rule json_equal_readings [OF assms(1) [unfolded float_reading_def] assms(2,3)])
    (use assms(4) in \<open>auto simp: decimal_node_equal\<close>)

lemma compile_equal_to_json_Inr:
  assumes "compile_equal_to_json cr jc pointer source io ie = Inr m" and "jc_decode jc source = Some t" and "raw_tree t"
  shows "ej_expected m = float_reading jc (template_of cr pointer t) \<and>
    ej_exact m = decimal_reading (template_of cr pointer t) \<and>
    ej_ignore_order m = io \<and> ej_ignore_extra m = ie \<and>
    ej_numbers m = (if literals t = {} then NumbersIrrelevant
      else if document_needs_exact_numbers source then NumbersWide else NumbersNarrow) \<and>
    (\<forall>l \<in> literals t. jc_float jc l \<noteq> None)"
proof -
  obtain tf where tf: "float_numbers (jc_float jc) t = Some tf"
    using assms by (auto simp: compile_equal_to_json_def json_unmarshal_def split: option.splits)
  then have "tf = float_reading jc t" and nn: "\<forall>l \<in> literals t. jc_float jc l \<noteq> None"
    using float_numbers_map [OF tf] by (simp_all add: float_reading_def)
  then have "compile_equal_to_json cr jc pointer source io ie =
     (if snd (snd (resolve_placeholders cr pointer (float_reading jc t))) \<noteq> [] then
        Inl (Some (snd (snd (resolve_placeholders cr pointer (float_reading jc t)))))
      else Inr \<lparr>ej_expected = float_reading jc (template_of cr pointer t),
        ej_exact = decimal_reading (template_of cr pointer t),
        ej_numbers = (if literals t = {} then NumbersIrrelevant
          else if document_needs_exact_numbers source then NumbersWide else NumbersNarrow),
        ej_ignore_order = io, ej_ignore_extra = ie,
        ej_has_placeholders = fst (snd (resolve_placeholders cr pointer (float_reading jc t))), ej_source = source\<rparr>)"
    using assms(2,3) tf
    by (simp add: compile_equal_to_json_def json_unmarshal_def Let_def case_prod_beta resolve_exact_expected_def
      decode_exact_json_def resolve_float pair_exact_reading)
  with assms(1) nn show ?thesis by (auto split: if_splits)
qed

lemma equal_to_json_one_exact:
  assumes m: "compile_equal_to_json cr jc pointer source io ie = Inr m"
    and source: "decodes_tokens jc source t" and doc: "decodes_tokens jc doc u"
    and reading: "json_unmarshal jc doc = Some v"
    and faithful: "float_faithful (jc_float jc) (literals t \<union> literals u)"
  shows "equal_to_json_one jc m (json_unmarshal jc doc) doc \<longleftrightarrow>
    json_equal (decimal_reading (template_of cr pointer t)) (exact_numbers u) io ie"
proof -
  let ?E = "template_of cr pointer t"
  from source doc have dec: "jc_decode jc source = Some t" "raw_tree t" "jc_decode jc doc = Some u" "raw_tree u"
    by (simp_all add: decodes_tokens_def)
  note c = compile_equal_to_json_Inr [OF m dec(1,2)]
  have fu: "float_numbers (jc_float jc) u = Some v" using reading dec by (simp add: json_unmarshal_def)
  have v: "v = float_reading jc u" and nn: "\<forall>l \<in> literals t \<union> literals u. jc_float jc l \<noteq> None"
    using float_numbers_map [OF fu] c by (auto simp: float_reading_def)
  note E = template_raw_expected [OF dec(2), of cr pointer] template_literals [of cr pointer t]
  have dec_float: "json_equal (float_reading jc ?E) (float_reading jc u) io ie"
    if "json_equal (decimal_reading ?E) (exact_numbers u) io ie"
  proof (rule exact_implies_float [OF that E(1) dec(4)])
    fix l l' assume l: "l \<in> literals ?E" "l' \<in> literals u" and eq: "canonical_decimal l = canonical_decimal l'"
    obtain n where n: "number_ok n" "l = number_text n"
      using decodes_tokens_number [OF source] l(1) E(2) by metis
    obtain n' where n': "number_ok n'" "l' = number_text n'"
      using decodes_tokens_number [OF doc l(2)] by metis
    have "number_value n = number_value n'"
      using eq canonical_decimal_iff [OF n(1) n'(1)] unfolding n(2) n'(2) by blast
    moreover have "number_text n \<in> literals t \<union> literals u" "number_text n' \<in> literals t \<union> literals u"
      using l E(2) n(2) n'(2) by blast+
    ultimately show "the (jc_float jc l) = the (jc_float jc l')"
      unfolding n(2) n'(2) by (metis float_faithful_parse(1) [OF faithful n(1) n'(1)])
  qed
  have float_dec: "json_equal (decimal_reading ?E) (exact_numbers u) io ie"
    if "json_equal (float_reading jc ?E) (float_reading jc u) io ie" and
      settled: "literals t = {} \<or> \<not> document_needs_exact_numbers source \<and> \<not> document_needs_exact_numbers doc"
  proof (rule float_implies_exact [OF that(1) E(1) dec(4)])
    fix l l' assume l: "l \<in> literals ?E" "l' \<in> literals u" and eq: "the (jc_float jc l) = the (jc_float jc l')"
    have s: "\<not> document_needs_exact_numbers source" "\<not> document_needs_exact_numbers doc"
      using settled l(1) E(2) by auto
    obtain n where n: "number_ok n" "l = number_text n" "narrow n"
      using decodes_tokens_number [OF source] l(1) E(2) s(1) by metis
    obtain n' where n': "number_ok n'" "l' = number_text n'" "narrow n'"
      using decodes_tokens_number [OF doc l(2)] s(2) by metis
    have "jc_float jc l = jc_float jc l'" using eq nn l E(2) by (metis UnI1 UnI2 option.expand)
    then have "jc_float jc (number_text n) = jc_float jc (number_text n')" unfolding n(2) n'(2) .
    moreover have "number_text n \<in> literals t \<union> literals u" "number_text n' \<in> literals t \<union> literals u"
      using l E(2) n(2) n'(2) by blast+
    ultimately have "number_value n = number_value n'"
      using float_faithful_parse(2) [OF faithful n(1) n'(1)] n(3) n'(3) by blast
    then show "canonical_decimal l = canonical_decimal l'"
      unfolding n(2) n'(2) using canonical_decimal_iff [OF n(1) n'(1)] by blast
  qed
  have nonnull: "decimal_reading ?E \<noteq> JNull" if "literals t \<noteq> {}"
    using that E(2) by (cases ?E) (auto simp: decimal_reading_def decimal_node_def)
  have one: "equal_to_json_one jc m (json_unmarshal jc doc) doc \<longleftrightarrow>
      json_equal (float_reading jc ?E) (float_reading jc u) io ie \<and>
      (literals t = {} \<or> \<not> document_needs_exact_numbers source \<and> \<not> document_needs_exact_numbers doc \<or>
       json_equal (decimal_reading ?E) (exact_numbers u) io ie)"
    using c dec(3) nonnull unfolding equal_to_json_one_def confirm_numbers_def reading v
    by (simp add: decode_exact_json_def)
  show ?thesis unfolding one using dec_float float_dec by blast
qed

section \<open>Properties\<close>

text \<open>
  C1. equalToJson answers as if every number were compared as an exact decimal. The code compares
  float64 trees first and reads the bytes a second time only when the stub's literals or the
  scan of the request say that precision may have blurred the answer; for a criterion the compiler
  accepts and a request document that decodes, the outcome is that of one structural comparison
  of the two documents with all numbers normalised exactly, under either relaxation and with every
  placeholder. The decoder and the float parser enter through the two documented facts
  \<open>decodes_tokens\<close> and \<open>float_faithful\<close>.
\<close>

theorem equal_to_json_exact:
  assumes "compile_equal_to_json cr jc pointer source io ie = Inr m"
    and "decodes_tokens jc source t" and "decodes_tokens jc doc u"
    and "json_unmarshal jc doc = Some v"
    and "float_faithful (jc_float jc) (literals t \<union> literals u)"
  shows "equal_to_json_one jc m (json_unmarshal jc doc) doc \<longleftrightarrow>
    json_equal (decimal_reading (template_of cr pointer t)) (exact_numbers u) io ie"
  using assms by (rule equal_to_json_one_exact)

lemma number_text_digits:
  assumes "number_ok n" and "list_all is_digit (number_text n)"
  shows "number_digits n = number_text n"
proof -
  have no: "c \<notin> set (number_text n)" if "\<not> is_digit c" for c
    using assms(2) that by (auto simp: list_all_iff)
  have "\<not> np_negative n" using no [of "CHR ''-''"] by (auto simp: number_text_def)
  moreover have "np_frac n = None"
    using no [of "CHR ''.''"] by (cases "np_frac n") (auto simp: number_text_def)
  moreover have "np_exp n = None"
    using no [of "CHR ''e''"] no [of "CHR ''E''"] assms(1)
    by (cases "np_exp n") (auto simp: number_text_def number_ok_def)
  ultimately show ?thesis by (simp add: number_text_def number_digits_def)
qed

text \<open>Two integers one apart that float64 rounds together are told apart.\<close>

theorem equal_to_json_exact_witness:
  "\<exists>jc m. compile_equal_to_json None jc [] ''9007199254740993'' False False = Inr m \<and>
     json_unmarshal jc ''9007199254740992'' = json_unmarshal jc ''9007199254740993'' \<and>
     \<not> equal_to_json_one jc m (json_unmarshal jc ''9007199254740992'') ''9007199254740992''"
proof -
  let ?s = "''9007199254740993''" and ?d = "''9007199254740992''"
  define jc where "jc = \<lparr>jc_decode = (\<lambda>x. if x = ?s \<or> x = ?d then Some (JNumber x) else None),
    jc_float = (\<lambda>_. Some 9007199254740992), jc_marshal = (\<lambda>_. None), jc_quote = (\<lambda>_. None)\<rparr>"
  let ?n = "\<lambda>x. \<lparr>np_negative = False, np_int = x, np_frac = None, np_exp = None\<rparr>"
  have ok: "number_ok (?n ?s)" "number_ok (?n ?d)" "number_text (?n x) = x" for x
    by (simp_all add: number_ok_def number_digits_def is_digit_def number_text_def)
  have tok1: "decodes_tokens jc x (JNumber x)" if x: "x = ?s \<or> x = ?d" for x
  proof -
    have "tokens_ok [Number (?n x)]" using ok x by (auto simp: number_end_def)
    moreover have "x = concat (map token_text [Number (?n x)])" using ok(3) by simp
    moreover have "\<exists>n. number_ok n \<and> x = number_text n \<and> Number (n\<lparr>np_negative := False\<rparr>) \<in> set [Number (?n x)]"
      by (rule exI [of _ "?n x"]) (use ok x in auto)
    moreover have "jc_decode jc x = Some (JNumber x)" using x by (auto simp: jc_def)
    ultimately show ?thesis unfolding decodes_tokens_def literals.simps raw_tree.simps json.case by blast
  qed
  then have tok: "decodes_tokens jc ?s (JNumber ?s)" "decodes_tokens jc ?d (JNumber ?d)" by blast+
  have "\<not> narrow n" if "number_ok n" "number_text n \<in> {?s, ?d}" for n
    using number_text_digits [OF that(1)] that(2) by (auto simp: narrow_def is_digit_def)
  then have faith: "float_faithful (jc_float jc) (literals (JNumber ?s) \<union> literals (JNumber ?d))"
    by (auto simp: float_faithful_def jc_def)
  have reading: "json_unmarshal jc ?d = Some (JFloat 9007199254740992)" "json_unmarshal jc ?s = Some (JFloat 9007199254740992)"
    by (simp_all add: json_unmarshal_def jc_def)
  obtain m where m: "compile_equal_to_json None jc [] ?s False False = Inr m"
    using reading by (simp add: compile_equal_to_json_def resolve_exact_expected_def decode_exact_json_def jc_def Let_def)
  have "\<not> json_equal (decimal_reading (template_of None [] (JNumber ?s))) (exact_numbers (JNumber ?d)) False False"
    by (simp add: decimal_reading_def template_of_def decimal_node_equal canonical_decimal_def)
  then have "\<not> equal_to_json_one jc m (json_unmarshal jc ?d) ?d"
    using equal_to_json_exact [OF m tok reading(1) faith] by simp
  with m reading show ?thesis by metis
qed

text \<open>
  C4. The two options only ever relax a comparison: a document accepted without
  \<^verbatim>\<open>ignoreArrayOrder\<close> or \<^verbatim>\<open>ignoreExtraElements\<close> is accepted with either or both switched on, at
  every depth, in the presence of placeholders.
\<close>

theorem json_equal_relaxes:
  assumes "io \<longrightarrow> io'" and "ie \<longrightarrow> ie'" and "json_equal e a io ie"
  shows "json_equal e a io' ie'"
  using assms by (rule json_equal_mono)

theorem json_equal_relaxes_witness:
  "json_equal (JArray [JNull, JObject [(''k'', JBool True)]]) (JArray [JNull, JObject [(''k'', JBool True)]]) True True"
  by (rule json_equal_relaxes [where io = False and ie = False]) (simp_all add: list_ex_iff)

end
