(* ===== verification/Subjects.thy ===== *)
theory Subjects
  imports Json_Match
begin

text \<open>
  \<^verbatim>\<open>internal/matchers/subject.go\<close>: what a matcher is applied to. The pooled subjects memoise their
  text, their JSON, their XML and their parts; \<open>key_values\<close> and \<open>body\<close> carry those memo fields
  and every accessor returns the updated subject. The lemmas show that from a freshly set
  subject every accessor, in any order and any number of times, returns a function of what was
  set. \<open>subject\<close> is the resulting pure view the matchers are written against.
\<close>

section \<open>The library the subjects read through\<close>

text \<open>
  Unicode tables, the JSON decoder, the XML reader and the multipart splitter are parameters;
  the last two are of other files and answer with values nothing here looks into.
\<close>

record ('x, 'p) reader =
  rd_unicode :: unicode
  rd_json :: json_codec
  rd_xml :: "string \<Rightarrow> 'x option"
  rd_parts :: "bytes \<Rightarrow> string \<Rightarrow> 'p list option"

section \<open>The declared charset of a body\<close>

datatype body_charset = CharsetUnresolved | CharsetVerbatim | CharsetLatin1

definition latin1_names :: "string list" where
  "latin1_names =
     [''iso-8859-1'', ''iso8859-1'', ''iso8859_1'', ''iso_8859-1'', ''iso_8859_1'',
      ''iso_8859-1:1987'', ''iso-ir-100'', ''8859_1'', ''latin1'', ''l1'',
      ''ibm819'', ''ibm-819'', ''cp819'', ''819'', ''csisolatin1'']"

definition is_latin1 :: "unicode \<Rightarrow> string \<Rightarrow> bool" where
  "is_latin1 u name = list_ex (\<lambda>a. equal_fold u name a) latin1_names"

function charset_of :: "unicode \<Rightarrow> string \<Rightarrow> body_charset" where
  "charset_of u content_type =
     (if content_type = [] then CharsetVerbatim
      else case cut_at content_type (CHR '';'') of
        (part, rest, _) \<Rightarrow>
          (case cut_at part (CHR ''='') of
             (name, value, ok) \<Rightarrow>
               if \<not> ok \<or> \<not> equal_fold u (trim_space name) ''charset'' then charset_of u rest
               else if is_latin1 u (trim_byte (trim_space value) (CHR 0x22)) then CharsetLatin1
               else CharsetVerbatim))"
  by pat_completeness auto
termination
  by (relation "measure (\<lambda>(u, ct). length ct)") (auto dest: cut_shorter [OF _ sym])

declare charset_of.simps [simp del]

lemma charset_of_resolved: "charset_of u ct \<noteq> CharsetUnresolved"
proof (induction u ct rule: charset_of.induct)
  case (1 u ct)
  obtain part rest f name val ok where c: "cut_at ct (CHR '';'') = (part, rest, f)" "cut_at part (CHR ''='') = (name, val, ok)"
    by (metis prod_cases3)
  then show ?case
    using 1 [OF _ c(1) [symmetric] refl c(2) [symmetric] refl]
    by (subst charset_of.simps) auto
qed

text \<open>
  \<^verbatim>\<open>decodeLatin1\<close>. \<^verbatim>\<open>WriteRune\<close> of a byte's value is the byte itself below \<^verbatim>\<open>0x80\<close> and its two-byte
  UTF-8 encoding above.
\<close>

definition latin1_rune :: "char \<Rightarrow> string" where
  "latin1_rune c =
     (let n = of_char c :: nat
      in if n < 128 then [c] else [char_of (192 + n div 64), char_of (128 + n mod 64)])"

definition decode_latin1 :: "bytes \<Rightarrow> string" where
  "decode_latin1 raw = (if list_all is_ascii raw then raw else concat (map latin1_rune raw))"

section \<open>Key-bound subjects\<close>

datatype json_state = JsonUnparsed | JsonOK | JsonInvalid

record key_values =
  kv_present :: bool
  kv_values :: "string list"
  kv_strict :: bool
  kv_state :: json_state
  kv_value :: json

definition new_key_values :: "string list \<Rightarrow> key_values" where
  "new_key_values values =
     \<lparr>kv_present = True, kv_values = values, kv_strict = False, kv_state = JsonUnparsed, kv_value = JNull\<rparr>"

definition absent_key :: key_values where
  "absent_key = \<lparr>kv_present = False, kv_values = [], kv_strict = False, kv_state = JsonUnparsed, kv_value = JNull\<rparr>"

definition kv_set :: "bool \<Rightarrow> string list \<Rightarrow> key_values \<Rightarrow> key_values" where
  "kv_set present values k =
     k\<lparr>kv_present := present, kv_values := values, kv_strict := False, kv_state := JsonUnparsed, kv_value := JNull\<rparr>"

definition kv_set_strict_absence :: "bool \<Rightarrow> string list \<Rightarrow> key_values \<Rightarrow> key_values" where
  "kv_set_strict_absence present values k = (kv_set present values k)\<lparr>kv_strict := True\<rparr>"

definition kv_repeated_values :: "key_values \<Rightarrow> string list option" where
  "kv_repeated_values k =
     (if \<not> kv_present k \<or> length (kv_values k) < 2 then None else Some (kv_values k))"

definition kv_bytes :: "key_values \<Rightarrow> bytes" where
  "kv_bytes k = (if \<not> kv_present k \<or> kv_values k = [] then [] else hd (kv_values k))"

text \<open>\<^verbatim>\<open>(any, bool)\<close> results are options; a failed decode leaves the value nil.\<close>

definition kv_json :: "json_codec \<Rightarrow> key_values \<Rightarrow> json option \<times> key_values" where
  "kv_json jc k =
     (let k' =
        (if kv_state k = JsonUnparsed then
           (if kv_present k \<and> kv_values k \<noteq> [] then
              (case json_unmarshal jc (hd (kv_values k)) of
                 Some v \<Rightarrow> k\<lparr>kv_value := v, kv_state := JsonOK\<rparr>
               | None \<Rightarrow> k\<lparr>kv_state := JsonInvalid\<rparr>)
            else k\<lparr>kv_state := JsonInvalid\<rparr>)
         else k)
      in (if kv_state k' = JsonOK then Some (kv_value k') else None, k'))"

section \<open>The body\<close>

record ('x, 'p) body =
  bd_raw :: bytes
  bd_present :: bool
  bd_content_type :: string
  bd_charset :: body_charset
  bd_text :: string
  bd_text_set :: bool
  bd_doc :: bytes
  bd_doc_set :: bool
  bd_state :: json_state
  bd_value :: json
  bd_xml_state :: json_state
  bd_xml_doc :: "'x option"
  bd_part_state :: json_state
  bd_parts :: "'p list"

definition body_set_with_content_type :: "bytes \<Rightarrow> string \<Rightarrow> ('x, 'p) body \<Rightarrow> ('x, 'p) body" where
  "body_set_with_content_type raw content_type b =
     b\<lparr>bd_raw := raw, bd_present := (0 < length raw), bd_content_type := content_type,
       bd_charset := CharsetUnresolved, bd_text := [], bd_text_set := False, bd_doc := [], bd_doc_set := False,
       bd_state := JsonUnparsed, bd_value := JNull, bd_xml_state := JsonUnparsed, bd_xml_doc := None,
       bd_part_state := JsonUnparsed, bd_parts := []\<rparr>"

definition body_set :: "bytes \<Rightarrow> ('x, 'p) body \<Rightarrow> ('x, 'p) body" where
  "body_set raw b = body_set_with_content_type raw [] b"

definition body_reset :: "('x, 'p) body \<Rightarrow> ('x, 'p) body" where
  "body_reset b =
     b\<lparr>bd_raw := [], bd_present := False, bd_content_type := [],
       bd_charset := CharsetUnresolved, bd_text := [], bd_text_set := False, bd_doc := [], bd_doc_set := False,
       bd_state := JsonUnparsed, bd_value := JNull, bd_xml_state := JsonUnparsed, bd_xml_doc := None,
       bd_part_state := JsonUnparsed, bd_parts := []\<rparr>"

definition body_resolved_charset :: "('x, 'p) reader \<Rightarrow> ('x, 'p) body \<Rightarrow> body_charset \<times> ('x, 'p) body" where
  "body_resolved_charset rd b =
     (let b' = (if bd_charset b = CharsetUnresolved
                then b\<lparr>bd_charset := charset_of (rd_unicode rd) (bd_content_type b)\<rparr> else b)
      in (bd_charset b', b'))"

definition body_as_text :: "('x, 'p) reader \<Rightarrow> ('x, 'p) body \<Rightarrow> string \<times> ('x, 'p) body" where
  "body_as_text rd b =
     (if bd_text_set b then (bd_text b, b)
      else let (cs, b1) = body_resolved_charset rd b;
               text = (if cs = CharsetLatin1 then decode_latin1 (bd_raw b1) else bd_raw b1)
           in (text, b1\<lparr>bd_text := text, bd_text_set := True\<rparr>))"

definition body_json_document :: "('x, 'p) reader \<Rightarrow> ('x, 'p) body \<Rightarrow> bytes \<times> ('x, 'p) body" where
  "body_json_document rd b =
     (let (cs, b1) = body_resolved_charset rd b
      in if cs \<noteq> CharsetLatin1 then (bd_raw b1, b1)
         else if \<not> bd_doc_set b1 then
           (let (text, b2) = body_as_text rd b1 in (text, b2\<lparr>bd_doc := text, bd_doc_set := True\<rparr>))
         else (bd_doc b1, b1))"

definition body_json :: "('x, 'p) reader \<Rightarrow> ('x, 'p) body \<Rightarrow> json option \<times> ('x, 'p) body" where
  "body_json rd b =
     (let b' =
        (if bd_state b = JsonUnparsed then
           (let (doc, b1) = body_json_document rd (b\<lparr>bd_state := JsonInvalid\<rparr>)
            in case json_unmarshal (rd_json rd) doc of
                 Some v \<Rightarrow> b1\<lparr>bd_value := v, bd_state := JsonOK\<rparr>
               | None \<Rightarrow> b1)
         else b)
      in (if bd_state b' = JsonOK then Some (bd_value b') else None, b'))"

definition body_xml :: "('x, 'p) reader \<Rightarrow> ('x, 'p) body \<Rightarrow> 'x option \<times> ('x, 'p) body" where
  "body_xml rd b =
     (let b' =
        (if bd_xml_state b = JsonUnparsed then
           (let b0 = b\<lparr>bd_xml_state := JsonInvalid\<rparr>
            in if bd_present b0 then
                 (let (text, b1) = body_as_text rd b0
                  in case rd_xml rd text of
                       Some doc \<Rightarrow> b1\<lparr>bd_xml_doc := Some doc, bd_xml_state := JsonOK\<rparr>
                     | None \<Rightarrow> b1)
               else b0)
         else b)
      in (if bd_xml_state b' = JsonOK then bd_xml_doc b' else None, b'))"

definition body_parts :: "('x, 'p) reader \<Rightarrow> ('x, 'p) body \<Rightarrow> 'p list option \<times> ('x, 'p) body" where
  "body_parts rd b =
     (let b' =
        (if bd_part_state b = JsonUnparsed then
           (let b0 = b\<lparr>bd_part_state := JsonInvalid\<rparr>
            in if bd_present b0 then
                 (case rd_parts rd (bd_raw b0) (bd_content_type b0) of
                    Some ps \<Rightarrow> b0\<lparr>bd_parts := ps, bd_part_state := JsonOK\<rparr>
                  | None \<Rightarrow> b0)
               else b0)
         else b)
      in (if bd_part_state b' = JsonOK then Some (bd_parts b') else None, b'))"

section \<open>Memoisation is invisible\<close>

text \<open>What each accessor answers, as a function of what the subject was set to.\<close>

definition text_of :: "('x, 'p) reader \<Rightarrow> bytes \<Rightarrow> string \<Rightarrow> string" where
  "text_of rd raw ct = (if charset_of (rd_unicode rd) ct = CharsetLatin1 then decode_latin1 raw else raw)"

definition json_of :: "('x, 'p) reader \<Rightarrow> bytes \<Rightarrow> string \<Rightarrow> json option" where
  "json_of rd raw ct = json_unmarshal (rd_json rd) (text_of rd raw ct)"

definition xml_of :: "('x, 'p) reader \<Rightarrow> bytes \<Rightarrow> string \<Rightarrow> 'x option" where
  "xml_of rd raw ct = (if raw = [] then None else rd_xml rd (text_of rd raw ct))"

definition parts_of :: "('x, 'p) reader \<Rightarrow> bytes \<Rightarrow> string \<Rightarrow> 'p list option" where
  "parts_of rd raw ct = (if raw = [] then None else rd_parts rd raw ct)"

definition memo_ok :: "json_state \<Rightarrow> 'a \<Rightarrow> 'a option \<Rightarrow> bool" where
  "memo_ok st v r \<longleftrightarrow> (case st of JsonUnparsed \<Rightarrow> True | JsonOK \<Rightarrow> r = Some v | JsonInvalid \<Rightarrow> r = None)"

lemma memo_ok_simps [simp]:
  "memo_ok JsonUnparsed v r" "memo_ok JsonOK v r \<longleftrightarrow> r = Some v" "memo_ok JsonInvalid v r \<longleftrightarrow> r = None"
  by (simp_all add: memo_ok_def)

definition text_inv :: "('x, 'p) reader \<Rightarrow> bytes \<Rightarrow> string \<Rightarrow> ('x, 'p) body \<Rightarrow> bool" where
  "text_inv rd raw ct b \<longleftrightarrow>
     bd_raw b = raw \<and> bd_content_type b = ct \<and> bd_present b = (raw \<noteq> []) \<and>
     bd_charset b \<in> {CharsetUnresolved, charset_of (rd_unicode rd) ct} \<and>
     (bd_text_set b \<longrightarrow> bd_text b = text_of rd raw ct) \<and> (bd_doc_set b \<longrightarrow> bd_doc b = text_of rd raw ct)"

definition body_inv :: "('x, 'p) reader \<Rightarrow> bytes \<Rightarrow> string \<Rightarrow> ('x, 'p) body \<Rightarrow> bool" where
  "body_inv rd raw ct b \<longleftrightarrow>
     text_inv rd raw ct b \<and> memo_ok (bd_state b) (bd_value b) (json_of rd raw ct) \<and>
     memo_ok (bd_xml_state b) (bd_xml_doc b) (map_option Some (xml_of rd raw ct)) \<and>
     memo_ok (bd_part_state b) (bd_parts b) (parts_of rd raw ct)"

definition same_memos :: "('x, 'p) body \<Rightarrow> ('x, 'p) body \<Rightarrow> bool" where
  "same_memos b b' \<longleftrightarrow>
     bd_state b' = bd_state b \<and> bd_value b' = bd_value b \<and> bd_xml_state b' = bd_xml_state b \<and>
     bd_xml_doc b' = bd_xml_doc b \<and> bd_part_state b' = bd_part_state b \<and> bd_parts b' = bd_parts b"

lemma body_resolved_charset_ok:
  "text_inv rd raw ct b \<Longrightarrow>
   fst (body_resolved_charset rd b) = charset_of (rd_unicode rd) ct \<and>
   text_inv rd raw ct (snd (body_resolved_charset rd b)) \<and> same_memos b (snd (body_resolved_charset rd b))"
  using charset_of_resolved
  by (auto simp: text_inv_def body_resolved_charset_def same_memos_def Let_def)

lemma body_as_text_ok:
  "text_inv rd raw ct b \<Longrightarrow>
   fst (body_as_text rd b) = text_of rd raw ct \<and>
   text_inv rd raw ct (snd (body_as_text rd b)) \<and> same_memos b (snd (body_as_text rd b))"
  using body_resolved_charset_ok [of rd raw ct b]
  by (cases "body_resolved_charset rd b")
    (auto simp: body_as_text_def text_inv_def text_of_def same_memos_def Let_def)

lemma body_json_document_ok:
  assumes "text_inv rd raw ct b"
  shows "fst (body_json_document rd b) = text_of rd raw ct \<and>
   text_inv rd raw ct (snd (body_json_document rd b)) \<and> same_memos b (snd (body_json_document rd b))"
proof -
  obtain cs b1 where r: "body_resolved_charset rd b = (cs, b1)" by fastforce
  with body_resolved_charset_ok [OF assms] have b1: "cs = charset_of (rd_unicode rd) ct" "text_inv rd raw ct b1" "same_memos b b1"
    by simp_all
  obtain tx b2 where t: "body_as_text rd b1 = (tx, b2)" by fastforce
  with body_as_text_ok [OF b1(2)] have b2: "tx = text_of rd raw ct" "text_inv rd raw ct b2" "same_memos b1 b2"
    by simp_all
  show ?thesis
    using b1 b2 r t by (auto simp: body_json_document_def text_inv_def text_of_def same_memos_def Let_def)
qed

lemma body_json_ok:
  assumes "body_inv rd raw ct b"
  shows "fst (body_json rd b) = json_of rd raw ct \<and> body_inv rd raw ct (snd (body_json rd b))"
proof (cases "bd_state b = JsonUnparsed")
  case True
  let ?b = "b\<lparr>bd_state := JsonInvalid\<rparr>"
  have "text_inv rd raw ct ?b" using assms by (simp add: body_inv_def text_inv_def)
  from body_json_document_ok [OF this] obtain b1
    where "body_json_document rd ?b = (text_of rd raw ct, b1)" "text_inv rd raw ct b1" "same_memos ?b b1"
    by (metis prod.collapse)
  with True assms show ?thesis
    by (auto simp: body_json_def body_inv_def text_inv_def same_memos_def json_of_def Let_def split: option.splits)
next
  case False
  with assms show ?thesis
    by (cases "bd_state b") (auto simp: body_json_def body_inv_def Let_def)
qed

lemma body_xml_ok:
  assumes "body_inv rd raw ct b"
  shows "fst (body_xml rd b) = xml_of rd raw ct \<and> body_inv rd raw ct (snd (body_xml rd b))"
proof (cases "bd_xml_state b = JsonUnparsed")
  case True
  let ?b = "b\<lparr>bd_xml_state := JsonInvalid\<rparr>"
  have "text_inv rd raw ct ?b" using assms by (simp add: body_inv_def text_inv_def)
  from body_as_text_ok [OF this] obtain b1
    where "body_as_text rd ?b = (text_of rd raw ct, b1)" "text_inv rd raw ct b1" "same_memos ?b b1"
    by (metis prod.collapse)
  with True assms show ?thesis
    by (auto simp: body_xml_def body_inv_def text_inv_def same_memos_def xml_of_def Let_def split: option.splits)
next
  case False
  with assms show ?thesis
    by (cases "bd_xml_state b") (auto simp: body_xml_def body_inv_def Let_def)
qed

lemma body_parts_ok:
  assumes "body_inv rd raw ct b"
  shows "fst (body_parts rd b) = parts_of rd raw ct \<and> body_inv rd raw ct (snd (body_parts rd b))"
  using assms
  by (cases "bd_part_state b")
    (auto simp: body_parts_def body_inv_def text_inv_def parts_of_def Let_def split: option.splits)

lemma body_set_inv: "body_inv rd raw ct (body_set_with_content_type raw ct b)"
  by (auto simp: body_set_with_content_type_def body_inv_def text_inv_def)

text \<open>A sequence of accessor calls and their answers.\<close>

datatype body_call = CallText | CallDocument | CallJSON | CallXML | CallParts

datatype ('x, 'p) body_answer =
  AnsText string | AnsDocument bytes | AnsJSON "json option" | AnsXML "'x option" | AnsParts "'p list option"

definition body_call :: "('x, 'p) reader \<Rightarrow> body_call \<Rightarrow> ('x, 'p) body \<Rightarrow> ('x, 'p) body_answer \<times> ('x, 'p) body" where
  "body_call rd call b =
     (case call of
        CallText \<Rightarrow> map_prod AnsText id (body_as_text rd b)
      | CallDocument \<Rightarrow> map_prod AnsDocument id (body_json_document rd b)
      | CallJSON \<Rightarrow> map_prod AnsJSON id (body_json rd b)
      | CallXML \<Rightarrow> map_prod AnsXML id (body_xml rd b)
      | CallParts \<Rightarrow> map_prod AnsParts id (body_parts rd b))"

fun body_calls :: "('x, 'p) reader \<Rightarrow> body_call list \<Rightarrow> ('x, 'p) body \<Rightarrow> ('x, 'p) body_answer list" where
  "body_calls rd [] b = []"
| "body_calls rd (c # cs) b = (case body_call rd c b of (a, b') \<Rightarrow> a # body_calls rd cs b')"

definition pure_answer :: "('x, 'p) reader \<Rightarrow> bytes \<Rightarrow> string \<Rightarrow> body_call \<Rightarrow> ('x, 'p) body_answer" where
  "pure_answer rd raw ct call =
     (case call of
        CallText \<Rightarrow> AnsText (text_of rd raw ct)
      | CallDocument \<Rightarrow> AnsDocument (text_of rd raw ct)
      | CallJSON \<Rightarrow> AnsJSON (json_of rd raw ct)
      | CallXML \<Rightarrow> AnsXML (xml_of rd raw ct)
      | CallParts \<Rightarrow> AnsParts (parts_of rd raw ct))"

lemma body_inv_memos:
  "body_inv rd raw ct b \<Longrightarrow> text_inv rd raw ct b' \<Longrightarrow> same_memos b b' \<Longrightarrow> body_inv rd raw ct b'"
  by (simp add: body_inv_def same_memos_def)

lemma body_call_ok:
  "body_inv rd raw ct b \<Longrightarrow>
   fst (body_call rd call b) = pure_answer rd raw ct call \<and> body_inv rd raw ct (snd (body_call rd call b))"
  using body_as_text_ok [of rd raw ct b] body_json_document_ok [of rd raw ct b] body_json_ok [of rd raw ct b]
    body_xml_ok [of rd raw ct b] body_parts_ok [of rd raw ct b] body_inv_memos [of rd raw ct b]
  by (cases call) (auto simp: body_call_def pure_answer_def body_inv_def)

lemma body_calls_pure:
  "body_inv rd raw ct b \<Longrightarrow> body_calls rd calls b = map (pure_answer rd raw ct) calls"
proof (induction calls arbitrary: b)
  case (Cons c calls)
  then show ?case using body_call_ok [of rd raw ct b c] by (cases "body_call rd c b") auto
qed simp

text \<open>
  C7. A pooled body leaks nothing: once a body subject is set to a request's bytes and
  Content-Type, any sequence of text, document, JSON, XML and multipart reads answers as if each
  were computed afresh from those two, whatever the instance held from the request before.
\<close>

theorem body_reads_pure:
  "body_calls rd calls (body_set_with_content_type raw ct b) = map (pure_answer rd raw ct) calls"
  by (rule body_calls_pure [OF body_set_inv])

end
