(* ===== verification/Matchers.thy ===== *)
theory Matchers
  imports Subjects
begin

text \<open>
  \<^verbatim>\<open>internal/matchers/matchers.go\<close>, \<^verbatim>\<open>multivalue.go\<close> and \<^verbatim>\<open>jsonschema.go\<close>: the criteria and what they
  answer. A matcher is a tree with one constructor per Go type; matchers of the files not modelled
  here (dates, XML, multipart) enter as \<open>OtherMatcher\<close>, a predicate with its description.
  The lemmas state the any-of rule over repeated keys and the strict-absence rule of cookies.
\<close>

section \<open>Subjects, seen through their interface\<close>

datatype subject =
    KeySubject bool "string list" bool
  | ValueSubject string
  | BodySubject bytes string
  | DocumentSubject bytes

fun subject_present :: "subject \<Rightarrow> bool" where
  "subject_present (KeySubject present _ _) = present"
| "subject_present (ValueSubject _) = True"
| "subject_present (BodySubject raw _) = (0 < length raw)"
| "subject_present (DocumentSubject raw) = (0 < length raw)"

fun subject_values :: "('x, 'p) reader \<Rightarrow> subject \<Rightarrow> string list" where
  "subject_values rd (KeySubject _ values _) = values"
| "subject_values rd (ValueSubject v) = [v]"
| "subject_values rd (BodySubject raw ct) = [text_of rd raw ct]"
| "subject_values rd (DocumentSubject raw) = [raw]"

fun subject_bytes :: "subject \<Rightarrow> bytes" where
  "subject_bytes (KeySubject present values _) = (if \<not> present \<or> values = [] then [] else hd values)"
| "subject_bytes (ValueSubject v) = v"
| "subject_bytes (BodySubject raw _) = raw"
| "subject_bytes (DocumentSubject raw) = raw"

fun subject_json :: "('x, 'p) reader \<Rightarrow> subject \<Rightarrow> json option" where
  "subject_json rd (KeySubject present values _) =
     (if present \<and> values \<noteq> [] then json_unmarshal (rd_json rd) (hd values) else None)"
| "subject_json rd (ValueSubject v) = json_unmarshal (rd_json rd) v"
| "subject_json rd (BodySubject raw ct) = json_of rd raw ct"
| "subject_json rd (DocumentSubject raw) =
     (if 0 < length raw then
        (case json_unmarshal (rd_json rd) raw of Some v \<Rightarrow> if (case v of JNull \<Rightarrow> True | _ \<Rightarrow> False) then None else Some v | None \<Rightarrow> None)
      else None)"

text \<open>The optional capabilities \<^verbatim>\<open>absenceStrict\<close>, \<^verbatim>\<open>repeatable\<close> and \<^verbatim>\<open>rawJSON\<close>.\<close>

definition absence_fails_everything :: "subject \<Rightarrow> bool" where
  "absence_fails_everything s = (case s of KeySubject _ _ strict \<Rightarrow> strict | _ \<Rightarrow> False)"

definition per_value_scope :: "subject \<Rightarrow> string list option" where
  "per_value_scope s =
     (case s of
        KeySubject present values _ \<Rightarrow> if \<not> present \<or> length values < 2 then None else Some values
      | _ \<Rightarrow> None)"

definition raw_json :: "('x, 'p) reader \<Rightarrow> subject \<Rightarrow> bytes option" where
  "raw_json rd s = (case s of BodySubject raw ct \<Rightarrow> Some (text_of rd raw ct) | _ \<Rightarrow> None)"

definition json_document_of :: "('x, 'p) reader \<Rightarrow> subject \<Rightarrow> bytes" where
  "json_document_of rd s = (case raw_json rd s of Some doc \<Rightarrow> doc | None \<Rightarrow> subject_bytes s)"

text \<open>The pooled subjects of \<open>Subjects\<close> implement this view.\<close>

lemma key_subject_view:
  assumes "kv_state k = JsonUnparsed"
  shows "fst (kv_json (rd_json rd) k) = subject_json rd (KeySubject (kv_present k) (kv_values k) (kv_strict k)) \<and>
    kv_bytes k = subject_bytes (KeySubject (kv_present k) (kv_values k) (kv_strict k)) \<and>
    kv_repeated_values k = per_value_scope (KeySubject (kv_present k) (kv_values k) (kv_strict k))"
  using assms
  by (auto simp: kv_json_def kv_bytes_def kv_repeated_values_def per_value_scope_def Let_def split: option.splits)

lemma body_subject_view:
  assumes "body_inv rd raw ct b"
  shows "fst (body_json rd b) = subject_json rd (BodySubject raw ct) \<and>
    [fst (body_as_text rd b)] = subject_values rd (BodySubject raw ct) \<and>
    Some (fst (body_json_document rd b)) = raw_json rd (BodySubject raw ct) \<and>
    bd_present b = subject_present (BodySubject raw ct)"
  using assms body_json_ok [OF assms] body_as_text_ok [of rd raw ct b] body_json_document_ok [of rd raw ct b]
  by (auto simp: body_inv_def text_inv_def raw_json_def)

section \<open>Criteria\<close>

record pattern_matcher =
  pm_match :: "string \<Rightarrow> bool"
  pm_source :: string

text \<open>
  \<^verbatim>\<open>JSONPathEvaluator\<close>, with the optional \<^verbatim>\<open>JSONPathScanner\<close>: the outer option of a scan is
  \<^verbatim>\<open>handled\<close>, the inner one of \<open>je_select_bytes\<close> is \<^verbatim>\<open>found\<close>.
\<close>

record jsonpath_scanner =
  js_match_bytes :: "bytes \<Rightarrow> bool option"
  js_select_bytes :: "bytes \<Rightarrow> json option option"

record jsonpath_evaluator =
  je_match :: "json \<Rightarrow> bool"
  je_select :: "json \<Rightarrow> json list option"
  je_source :: string
  je_scanner :: "jsonpath_scanner option"

record schema_validator =
  sv_valid :: "json \<Rightarrow> bool"
  sv_source :: string

datatype other_kind = TemporalKind | MultipartKind | XMLKind

datatype matcher =
    EqualTo string bool
  | BinaryEqualTo bytes string
  | Contains string bool
  | Regex pattern_matcher bool
  | Absent
  | EqualToJSON equal_to_json
  | MatchesJSONPath jsonpath_evaluator "matcher option" bool
  | MatchesJSONSchema schema_validator
  | And "matcher list"
  | Or "matcher list"
  | Not matcher
  | MultiValue "matcher list" bool
  | OtherMatcher other_kind "subject \<Rightarrow> bool" string

definition match_any_value :: "('x, 'p) reader \<Rightarrow> subject \<Rightarrow> (string \<Rightarrow> bool) \<Rightarrow> bool" where
  "match_any_value rd s pred =
     (if \<not> subject_present s then False
      else if subject_values rd s = [] then False
      else list_ex pred (subject_values rd s))"

definition match_negated_value :: "('x, 'p) reader \<Rightarrow> subject \<Rightarrow> (string \<Rightarrow> bool) \<Rightarrow> bool" where
  "match_negated_value rd s pred =
     (if \<not> subject_present s then \<not> absence_fails_everything s
      else if subject_values rd s = [] then True
      else list_ex (\<lambda>v. \<not> pred v) (subject_values rd s))"

definition equal_to_pred :: "unicode \<Rightarrow> string \<Rightarrow> bool \<Rightarrow> string \<Rightarrow> bool" where
  "equal_to_pred u expected case_insensitive v =
     (if case_insensitive then equal_fold u v expected else v = expected)"

definition match_equal_to_json :: "('x, 'p) reader \<Rightarrow> equal_to_json \<Rightarrow> subject \<Rightarrow> bool" where
  "match_equal_to_json rd m s =
     (if \<not> subject_present s then False
      else equal_to_json_one (rd_json rd) m (subject_json rd s) (json_document_of rd s))"

definition match_schema :: "('x, 'p) reader \<Rightarrow> schema_validator \<Rightarrow> subject \<Rightarrow> bool" where
  "match_schema rd v s = (case subject_json rd s of None \<Rightarrow> False | Some doc \<Rightarrow> sv_valid v doc)"

text \<open>\<^verbatim>\<open>renderSelected\<close>.\<close>

definition render_selected :: "json_codec \<Rightarrow> json \<Rightarrow> string" where
  "render_selected jc v =
     (case v of JString s \<Rightarrow> s | _ \<Rightarrow> (case jc_marshal jc v of Some t \<Rightarrow> t | None \<Rightarrow> []))"

text \<open>
  \<^verbatim>\<open>MatchesJSONPath.evaluate\<close>, given the answer \<open>inner\<close> of the nested matcher on a selected
  value, or \<open>None\<close> for the bare form.
\<close>

definition evaluate_jsonpath ::
    "('x, 'p) reader \<Rightarrow> jsonpath_evaluator \<Rightarrow> (json \<Rightarrow> bool) option \<Rightarrow> subject \<Rightarrow> bool" where
  "evaluate_jsonpath rd path inner s =
     (if \<not> subject_present s then False
      else
        let scanned =
              (case (raw_json rd s, je_scanner path) of
                 (Some raw, Some scanner) \<Rightarrow>
                   (case inner of
                      None \<Rightarrow> js_match_bytes scanner raw
                    | Some im \<Rightarrow>
                        (case js_select_bytes scanner raw of
                           None \<Rightarrow> None
                         | Some None \<Rightarrow> Some False
                         | Some (Some node) \<Rightarrow> Some (im node)))
               | _ \<Rightarrow> None)
        in case scanned of
             Some answer \<Rightarrow> answer
           | None \<Rightarrow>
               (case subject_json rd s of
                  None \<Rightarrow> False
                | Some doc \<Rightarrow>
                    (case inner of
                       None \<Rightarrow> je_match path doc
                     | Some im \<Rightarrow>
                         (case je_select path doc of
                            None \<Rightarrow> False
                          | Some values \<Rightarrow> list_ex im values))))"

definition match_binary_equal_to :: "bytes \<Rightarrow> subject \<Rightarrow> bool" where
  "match_binary_equal_to expected s =
     (if \<not> subject_present s \<and> 0 < length expected then False else subject_bytes s = expected)"

definition match_contains :: "('x, 'p) reader \<Rightarrow> string \<Rightarrow> bool \<Rightarrow> subject \<Rightarrow> bool" where
  "match_contains rd expected negate s =
     (if negate then match_negated_value rd s (\<lambda>v. contains_str v expected)
      else match_any_value rd s (\<lambda>v. contains_str v expected))"

definition match_regex :: "('x, 'p) reader \<Rightarrow> pattern_matcher \<Rightarrow> bool \<Rightarrow> subject \<Rightarrow> bool" where
  "match_regex rd pattern negate s =
     (if negate then match_negated_value rd s (pm_match pattern)
      else match_any_value rd s (pm_match pattern))"

text \<open>\<^verbatim>\<open>MultiValue.Match\<close>, given the answers of its operands on one value.\<close>

definition match_multi_value :: "('x, 'p) reader \<Rightarrow> (subject \<Rightarrow> bool) list \<Rightarrow> bool \<Rightarrow> subject \<Rightarrow> bool" where
  "match_multi_value rd ops exact s =
     (if \<not> subject_present s then False
      else if exact \<and> length (subject_values rd s) \<noteq> length ops then False
      else list_all (\<lambda>op. list_ex (\<lambda>v. op (ValueSubject v)) (subject_values rd s)) ops)"

text \<open>The per-value split the document matchers and combinators share.\<close>

definition split_values :: "subject \<Rightarrow> (subject \<Rightarrow> bool) \<Rightarrow> bool" where
  "split_values s one =
     (case per_value_scope s of
        Some values \<Rightarrow> list_ex (\<lambda>v. one (ValueSubject v)) values
      | None \<Rightarrow> one s)"

lemma split_values_cong [fundef_cong]:
  "s = s' \<Longrightarrow> (\<And>x. one x = one' x) \<Longrightarrow> split_values s one = split_values s' one'"
  by (drule ext) simp

fun matches :: "('x, 'p) reader \<Rightarrow> matcher \<Rightarrow> subject \<Rightarrow> bool" where
  "matches rd (EqualTo expected ci) s = match_any_value rd s (equal_to_pred (rd_unicode rd) expected ci)"
| "matches rd (BinaryEqualTo expected source) s = match_binary_equal_to expected s"
| "matches rd (Contains expected negate) s = match_contains rd expected negate s"
| "matches rd (Regex pattern negate) s = match_regex rd pattern negate s"
| "matches rd Absent s = (\<not> subject_present s)"
| "matches rd (EqualToJSON m) s = split_values s (match_equal_to_json rd m)"
| "matches rd (MatchesJSONPath path inner negate) s =
     split_values s (\<lambda>x.
       let matched = evaluate_jsonpath rd path
             (map_option (\<lambda>im v. if (case v of JNull \<Rightarrow> True | _ \<Rightarrow> False) then False
                else matches rd im (KeySubject True [render_selected (rd_json rd) v] False)) inner) x
       in if negate then \<not> matched else matched)"
| "matches rd (MatchesJSONSchema v) s = split_values s (match_schema rd v)"
| "matches rd (And ms) s =
     (if \<not> subject_present s then \<not> absence_fails_everything s \<and> list_all (\<lambda>m. matches rd m s) ms
      else split_values s (\<lambda>x. list_all (\<lambda>m. matches rd m x) ms))"
| "matches rd (Or ms) s =
     (if \<not> subject_present s then \<not> absence_fails_everything s \<and> list_ex (\<lambda>m. matches rd m s) ms
      else split_values s (\<lambda>x. list_ex (\<lambda>m. matches rd m x) ms))"
| "matches rd (Not m) s =
     (if \<not> subject_present s then \<not> absence_fails_everything s \<and> \<not> matches rd m s
      else split_values s (\<lambda>x. \<not> matches rd m x))"
| "matches rd (MultiValue ops exact) s = match_multi_value rd (map (\<lambda>op x. matches rd op x) ops) exact s"
| "matches rd (OtherMatcher k f d) s = f s"

section \<open>Descriptions\<close>

text \<open>\<^verbatim>\<open>quote\<close>: cut at 120 bytes with an ellipsis, then rendered as a JSON string.\<close>

definition ellipsis :: string where "ellipsis = [CHR 0xE2, CHR 0x80, CHR 0xA6]"

definition quote :: "json_codec \<Rightarrow> string \<Rightarrow> string" where
  "quote jc s =
     (let s = (if 120 < length s then take 120 s @ ellipsis else s)
      in case jc_quote jc s of Some t \<Rightarrow> t | None \<Rightarrow> CHR 0x22 # s @ [CHR 0x22])"

definition describe_equal_to_json :: "json_codec \<Rightarrow> equal_to_json \<Rightarrow> string" where
  "describe_equal_to_json jc m =
     (let opts = (if ej_ignore_order m then [''ignoreArrayOrder''] else []) @
                 (if ej_ignore_extra m then [''ignoreExtraElements''] else []) @
                 (if ej_has_placeholders m then [''json-unit placeholders''] else []);
          d = ''equalToJson '' @ quote jc (ej_source m)
      in if opts \<noteq> [] then d @ '' ('' @ join_str '', '' opts @ '')'' else d)"

definition truncate_schema :: "string \<Rightarrow> string" where
  "truncate_schema s = (if length s \<le> 80 then s else take 80 s @ ellipsis)"

text \<open>\<^verbatim>\<open>MultiValue.Describe\<close>, given the descriptions of its operands.\<close>

definition describe_multi_value :: "string list \<Rightarrow> bool \<Rightarrow> string" where
  "describe_multi_value ops exact =
     (let name = (if exact then ''hasExactly'' else ''includes'')
      in if ops = [] then name @ '' []'' else name @ '' ['' @ join_str '', '' ops @ '']'')"

fun describe :: "json_codec \<Rightarrow> matcher \<Rightarrow> string" where
  "describe jc (EqualTo expected ci) =
     (if ci then ''equalTo (case-insensitive) '' else ''equalTo '') @ quote jc expected"
| "describe jc (BinaryEqualTo expected source) = ''binaryEqualTo '' @ quote jc source"
| "describe jc (Contains expected negate) =
     (if negate then ''doesNotContain '' else ''contains '') @ quote jc expected"
| "describe jc (Regex pattern negate) =
     (if negate then ''doesNotMatch '' else ''matches '') @ quote jc (pm_source pattern)"
| "describe jc Absent = ''absent''"
| "describe jc (EqualToJSON m) = describe_equal_to_json jc m"
| "describe jc (MatchesJSONPath path inner negate) =
     (let name = (if negate then ''doesNotMatchJsonPath'' else ''matchesJsonPath'')
      in case inner of
           None \<Rightarrow> name @ '' '' @ quote jc (je_source path)
         | Some im \<Rightarrow> name @ '' '' @ quote jc (je_source path) @ '' -> '' @ describe jc im)"
| "describe jc (MatchesJSONSchema v) = ''matchesJsonSchema '' @ quote jc (truncate_schema (sv_source v))"
| "describe jc (And ms) = ''and('' @ join_str '', '' (map (describe jc) ms) @ '')''"
| "describe jc (Or ms) = ''or('' @ join_str '', '' (map (describe jc) ms) @ '')''"
| "describe jc (Not m) = ''not('' @ describe jc m @ '')''"
| "describe jc (MultiValue ops exact) =
     describe_multi_value (map (describe jc) ops) exact"
| "describe jc (OtherMatcher k f d) = d"

section \<open>The any-of rule\<close>

text \<open>No criterion of a file modelled elsewhere, at any depth.\<close>

fun own_matcher :: "matcher \<Rightarrow> bool" where
  "own_matcher (OtherMatcher k f d) = False"
| "own_matcher (And ms) = list_all own_matcher ms"
| "own_matcher (Or ms) = list_all own_matcher ms"
| "own_matcher (Not m) = own_matcher m"
| "own_matcher (MultiValue ops exact) = list_all own_matcher ops"
| "own_matcher _ = True"

lemma subject_single [simp]:
  "subject_present (KeySubject True [v] st) = subject_present (ValueSubject v)"
  "subject_values rd (KeySubject True [v] st) = subject_values rd (ValueSubject v)"
  "subject_bytes (KeySubject True [v] st) = subject_bytes (ValueSubject v)"
  "subject_json rd (KeySubject True [v] st) = subject_json rd (ValueSubject v)"
  "raw_json rd (KeySubject p vs st) = None" "raw_json rd (ValueSubject v) = None"
  "per_value_scope (KeySubject True [v] st) = None" "per_value_scope (ValueSubject v) = None"
  by (simp_all add: raw_json_def per_value_scope_def)

lemma split_values_single [simp]:
  "split_values (KeySubject True [v] st) one = one (KeySubject True [v] st)"
  "split_values (ValueSubject v) one = one (ValueSubject v)"
  by (simp_all add: split_values_def)

lemma split_values_repeated:
  "2 \<le> length vs \<Longrightarrow> split_values (KeySubject True vs st) one \<longleftrightarrow> (\<exists>v \<in> set vs. one (ValueSubject v))"
  by (auto simp: split_values_def per_value_scope_def list_ex_iff)

lemma matches_single:
  "own_matcher m \<Longrightarrow> matches rd m (KeySubject True [v] st) \<longleftrightarrow> matches rd m (ValueSubject v)"
proof (induction rd m "KeySubject True [v] st" rule: matches.induct)
  case (9 rd ms)
  then show ?case by (auto simp: list_all_iff)
next
  case (10 rd ms)
  then show ?case by (auto simp: list_all_iff list_ex_iff)
qed (simp_all add: match_binary_equal_to_def match_contains_def match_regex_def match_multi_value_def
    match_any_value_def match_negated_value_def match_equal_to_json_def json_document_of_def
    match_schema_def evaluate_jsonpath_def Let_def)

text \<open>The two criteria that look at a key as a whole.\<close>

definition whole_key :: "matcher \<Rightarrow> bool" where
  "whole_key m = (case m of BinaryEqualTo _ _ \<Rightarrow> True | MultiValue _ _ \<Rightarrow> True | _ \<Rightarrow> False)"

lemma matches_any_of:
  assumes "own_matcher m" and "\<not> whole_key m" and "vs \<noteq> []"
  shows "matches rd m (KeySubject True vs st) \<longleftrightarrow> (\<exists>v \<in> set vs. matches rd m (ValueSubject v))"
proof (cases "length vs = 1")
  case True
  then obtain v where "vs = [v]" by (auto simp: length_Suc_conv)
  then show ?thesis using matches_single [OF assms(1)] by simp
next
  case False
  with assms(3) have "2 \<le> length vs" by (cases vs; cases "tl vs") auto
  note split = split_values_repeated [OF this]
  show ?thesis
    using assms by (cases m) (auto simp: split match_contains_def match_regex_def match_any_value_def match_negated_value_def list_ex_iff whole_key_def)
qed

text \<open>
  What an absent cookie satisfies: a bare \<^verbatim>\<open>absent\<close>, as the comments say; but also a
  \<^verbatim>\<open>binaryEqualTo\<close> of no bytes and a \<^verbatim>\<open>doesNotMatchJsonPath\<close>, which the comments of
  \<^verbatim>\<open>absenceFailsEverything\<close> exclude.
\<close>

lemma matches_strict_absence:
  assumes "own_matcher m"
  shows "matches rd m (KeySubject False vs True) \<longleftrightarrow>
     (case m of
        Absent \<Rightarrow> True
      | BinaryEqualTo expected _ \<Rightarrow> expected = []
      | MatchesJSONPath _ _ negate \<Rightarrow> negate
      | _ \<Rightarrow> False)"
  using assms
  by (cases m) (auto simp: match_binary_equal_to_def match_contains_def match_regex_def match_multi_value_def
      match_any_value_def match_negated_value_def absence_fails_everything_def split_values_def
      per_value_scope_def match_equal_to_json_def match_schema_def evaluate_jsonpath_def)

section \<open>Properties\<close>

text \<open>
  C5. A whole criterion is applied to a repeated key one value at a time and the best result
  counts: combinators, negations and document matchers included, the criterion holds of a key
  bound to several values exactly when it holds of one of them taken alone. Only the
  binary comparison and the two multi-value criteria look at the key as a whole.
\<close>

theorem criterion_any_of:
  assumes "own_matcher m" and "\<not> whole_key m" and "vs \<noteq> []"
  shows "matches rd m (KeySubject True vs st) \<longleftrightarrow> (\<exists>v \<in> set vs. matches rd m (ValueSubject v))"
  using assms by (rule matches_any_of)

theorem criterion_any_of_witness:
  "\<forall>rd :: (unit, unit) reader.
   \<not> matches rd (And [EqualTo ''a'' False, EqualTo ''b'' False]) (KeySubject True [''a'', ''b''] False) \<and>
   matches rd (Not (EqualTo ''a'' False)) (KeySubject True [''a'', ''b''] False)"
proof (intro allI conjI)
  fix rd :: "(unit, unit) reader"
  show "\<not> matches rd (And [EqualTo ''a'' False, EqualTo ''b'' False]) (KeySubject True [''a'', ''b''] False)"
    by (subst criterion_any_of) (simp_all add: whole_key_def match_any_value_def equal_to_pred_def)
  show "matches rd (Not (EqualTo ''a'' False)) (KeySubject True [''a'', ''b''] False)"
    by (subst criterion_any_of) (simp_all add: whole_key_def match_any_value_def equal_to_pred_def)
qed

end
