(* ===== verification/Query_Text.thy ===== *)
theory Query_Text
  imports Mock_Prelude
begin

text \<open>
  Splitting text the client wrote: \<^verbatim>\<open>SplitQuery\<close> of \<^verbatim>\<open>internal/matchers/query.go\<close> with Go's
  \<^verbatim>\<open>url.QueryUnescape\<close>, \<^verbatim>\<open>parseQuery\<close>, \<^verbatim>\<open>parseCookies\<close> and \<^verbatim>\<open>mediaType\<close> of
  \<^verbatim>\<open>internal/match/request.go\<close>, and \<^verbatim>\<open>SplitHostPort\<close> of \<^verbatim>\<open>internal/httpx/httpx.go\<close>.
\<close>

section \<open>Multimaps\<close>

definition add_value :: "values_map \<Rightarrow> string \<Rightarrow> string \<Rightarrow> values_map" where
  "add_value m k v = m(k \<mapsto> (case m k of None \<Rightarrow> [] | Some vs \<Rightarrow> vs) @ [v])"

section \<open>Percent-decoding\<close>

text \<open>\<^verbatim>\<open>url.QueryUnescape\<close>: \<open>None\<close> when a percent sign is not followed by two hex digits.\<close>

definition hex_value :: "char \<Rightarrow> nat option" where
  "hex_value c =
     (if is_digit c then Some (of_char c - 48)
      else if 97 \<le> (of_char c :: nat) \<and> of_char c \<le> (102 :: nat) then Some (of_char c - 87)
      else if 65 \<le> (of_char c :: nat) \<and> of_char c \<le> (70 :: nat) then Some (of_char c - 55)
      else None)"

fun query_unescape :: "string \<Rightarrow> string option" where
  "query_unescape [] = Some []"
| "query_unescape (c # cs) =
     (if c = CHR 0x25 then
        (case cs of
           h # l # rest \<Rightarrow>
             (case (hex_value h, hex_value l) of
                (Some a, Some b) \<Rightarrow> map_option (\<lambda>t. char_of (16 * a + b) # t) (query_unescape rest)
              | _ \<Rightarrow> None)
         | _ \<Rightarrow> None)
      else if c = CHR ''+'' then map_option (\<lambda>t. CHR '' '' # t) (query_unescape cs)
      else map_option (\<lambda>t. c # t) (query_unescape cs))"

definition decode_query_text :: "string \<Rightarrow> string" where
  "decode_query_text s =
     (if \<not> contains_any s [CHR 0x25, CHR ''+''] then s
      else case query_unescape s of Some t \<Rightarrow> t | None \<Rightarrow> s)"

section \<open>Queries\<close>

function split_query_from :: "values_map \<Rightarrow> string \<Rightarrow> values_map" where
  "split_query_from out query =
     (if query = [] then out
      else case cut_at query (CHR ''&'') of
        (element, rest, _) \<Rightarrow>
          if element = [] then split_query_from out rest
          else case cut_at element (CHR ''='') of
            (name, value, _) \<Rightarrow>
              split_query_from (add_value out (decode_query_text name) (decode_query_text value)) rest)"
  by pat_completeness auto
termination
  by (relation "measure (\<lambda>(out, q). length q)") (auto dest: cut_shorter [OF _ sym])

declare split_query_from.simps [simp del]

definition split_query :: "string \<Rightarrow> values_map" where
  "split_query query = split_query_from Map.empty query"

definition parse_query :: "string \<Rightarrow> values_map" where
  "parse_query target =
     (case index_byte target (CHR ''?'') of
        None \<Rightarrow> Map.empty
      | Some i \<Rightarrow> split_query (drop (Suc i) target))"

section \<open>Cookies, media types and origins\<close>

definition parse_cookie_pair :: "values_map \<Rightarrow> string \<Rightarrow> values_map" where
  "parse_cookie_pair out pair =
     (let pair = trim_space pair
      in if pair = [] then out
         else case cut_at pair (CHR ''='') of
           (name, value, found) \<Rightarrow>
             if \<not> found then out
             else add_value out (trim_space name) (trim_byte (trim_space value) (CHR 0x22)))"

definition parse_cookies :: "string list \<Rightarrow> values_map" where
  "parse_cookies headers =
     (if headers = [] then Map.empty
      else foldl (\<lambda>out header. foldl parse_cookie_pair out (split header (CHR '';''))) Map.empty headers)"

definition media_type :: "unicode \<Rightarrow> string \<Rightarrow> string" where
  "media_type u header =
     (if header = [] then []
      else let header = (case index_byte header (CHR '';'') of Some i \<Rightarrow> take i header | None \<Rightarrow> header)
           in to_lower u (trim_space header))"

definition split_host_port :: "string \<Rightarrow> string \<times> string" where
  "split_host_port h =
     (case last_index_byte h (CHR '':'') of
        Some i \<Rightarrow> if \<not> contains_str (drop i h) '']'' then (take i h, drop (Suc i) h) else (h, [])
      | None \<Rightarrow> (h, []))"

definition scheme_of :: "bool \<Rightarrow> string" where
  "scheme_of tls = (if tls then ''https'' else ''http'')"

text \<open>
  \<^verbatim>\<open>textproto.CanonicalMIMEHeaderKey\<close>, through which \<^verbatim>\<open>http.Header\<close> stores and looks up every name:
  letters after the start and after hyphens are capital, the others small; a name with a byte
  that is no token character is left alone.
\<close>

definition token_byte :: "char \<Rightarrow> bool" where
  "token_byte c \<longleftrightarrow> is_digit c \<or> is_lower c \<or> is_upper c \<or> c \<in> set ''!#$%&*+-.^_|~'' \<or> c = CHR 0x27 \<or> c = CHR 0x60"

fun canonical_bytes :: "bool \<Rightarrow> string \<Rightarrow> string" where
  "canonical_bytes up [] = []"
| "canonical_bytes up (c # cs) =
     (if up then ascii_upper c else ascii_lower c) # canonical_bytes (c = CHR ''-'') cs"

definition canonical_header_key :: "string \<Rightarrow> string" where
  "canonical_header_key s = (if list_all token_byte s then canonical_bytes True s else s)"

definition header_values :: "values_map \<Rightarrow> string \<Rightarrow> string list option" where
  "header_values h name = h (canonical_header_key name)"

definition header_get :: "values_map \<Rightarrow> string \<Rightarrow> string" where
  "header_get h name = (case header_values h name of Some (v # vs) \<Rightarrow> v | _ \<Rightarrow> [])"

section \<open>Header lookups fold case\<close>

lemma ascii_lower_upper: "ascii_lower (ascii_upper c) = ascii_lower c"
proof (cases "is_lower c")
  case True
  then obtain m where m: "of_char c = m + 32" "65 \<le> m" "m \<le> (90 :: nat)"
    by (auto simp: is_lower_def intro: that [of "of_char c - 32"])
  have "c = char_of (of_char c :: nat)" by simp
  then have "c = char_of (m + 32)" unfolding m(1) .
  then show ?thesis using True m by (simp add: ascii_upper_def ascii_lower_def is_upper_def)
qed (simp add: ascii_upper_def)

lemma ascii_upper_lower: "ascii_upper (ascii_lower c) = ascii_upper c"
proof (cases "is_upper c")
  case True
  then have n: "65 \<le> (of_char c :: nat)" "of_char c \<le> (90 :: nat)" by (simp_all add: is_upper_def)
  then show ?thesis using True n
    by (simp add: ascii_upper_def ascii_lower_def is_lower_def)
qed (simp add: ascii_lower_def)

lemma ascii_lower_hyphen: "ascii_lower c = ascii_lower d \<Longrightarrow> c = CHR ''-'' \<longleftrightarrow> d = CHR ''-''"
proof -
  have "ascii_lower c = CHR ''-'' \<longleftrightarrow> c = CHR ''-''" for c
  proof (cases "is_upper c")
    case True
    then have n: "65 \<le> (of_char c :: nat)" "of_char c \<le> (90 :: nat)" by (simp_all add: is_upper_def)
    have "ascii_lower c \<noteq> CHR ''-''"
    proof
      assume "ascii_lower c = CHR ''-''"
      then have "of_char (ascii_lower c) = (of_char (CHR ''-'') :: nat)" by simp
      then show False using True n by (simp add: ascii_lower_def)
    qed
    then show ?thesis using True by (auto simp: is_upper_def)
  qed (simp add: ascii_lower_def)
  then show "ascii_lower c = ascii_lower d \<Longrightarrow> c = CHR ''-'' \<longleftrightarrow> d = CHR ''-''" by metis
qed

lemma canonical_bytes_fold:
  "map ascii_lower s = map ascii_lower t \<Longrightarrow> canonical_bytes up s = canonical_bytes up t"
proof (induction s arbitrary: t up)
  case (Cons c s)
  then obtain d t' where t: "t = d # t'" "ascii_lower c = ascii_lower d" "map ascii_lower s = map ascii_lower t'"
    by (cases t) auto
  have "ascii_upper c = ascii_upper d" using t(2) ascii_upper_lower by metis
  then show ?case
    unfolding t(1) canonical_bytes.simps t(2) Cons.IH [OF t(3)]
    by (simp only: ascii_lower_hyphen [OF t(2)])
qed simp

lemma canonical_header_key_fold:
  assumes "list_all token_byte s" and "list_all token_byte t" and "map ascii_lower s = map ascii_lower t"
  shows "canonical_header_key s = canonical_header_key t"
  unfolding canonical_header_key_def using assms(1,2) canonical_bytes_fold [OF assms(3), of True]
  by (simp only: if_True)

section \<open>Queries split where they were joined\<close>

definition hex_digit :: "nat \<Rightarrow> char" where
  "hex_digit n = (if n < 10 then char_of (48 + n) else char_of (55 + n))"

lemma hex_value_digit: "n < 16 \<Longrightarrow> hex_value (hex_digit n) = Some n"
  by (auto simp: hex_value_def hex_digit_def is_digit_def)

text \<open>A reserved byte is escaped, any other may be escaped or not: \<open>esc\<close> decides.\<close>

definition escape_byte :: "(char \<Rightarrow> bool) \<Rightarrow> char \<Rightarrow> string" where
  "escape_byte esc c =
     (if esc c \<or> c \<in> {CHR 0x25, CHR ''+'', CHR ''&'', CHR ''=''}
      then [CHR 0x25, hex_digit (of_char c div 16), hex_digit (of_char c mod 16)] else [c])"

definition escape_text :: "(char \<Rightarrow> bool) \<Rightarrow> string \<Rightarrow> string" where
  "escape_text esc s = concat (map (escape_byte esc) s)"

lemma of_char_bound: "(of_char c :: nat) < 256"
  using of_char_mod_256 [of c, where 'a = nat] by (metis mod_less_divisor zero_less_numeral)

lemma hex_bound: "(of_char c :: nat) div 16 < 16"
  by (rule less_mult_imp_div_less) (simp add: of_char_bound)

lemma query_unescape_text: "query_unescape (escape_text esc s) = Some s"
proof (induction s)
  case (Cons c s)
  have "hex_value (hex_digit (of_char c div 16)) = Some (of_char c div 16)"
    "hex_value (hex_digit (of_char c mod 16)) = Some (of_char c mod 16)"
    by (simp_all add: hex_value_digit hex_bound)
  then show ?case using Cons by (auto simp: escape_text_def escape_byte_def)
qed (simp add: escape_text_def)

lemma escape_byte_not_special: "c \<in> set (escape_byte esc d) \<Longrightarrow> c \<notin> {CHR ''+'', CHR ''&'', CHR ''=''}"
proof -
  have h: "hex_digit n \<noteq> c" if "n < 16" "c \<in> {CHR ''+'', CHR ''&'', CHR ''=''}" for n c
  proof
    assume "hex_digit n = c"
    then have "hex_value c = Some n" using hex_value_digit [OF that(1)] by simp
    then show False using that(2) by (auto simp: hex_value_def is_digit_def)
  qed
  assume "c \<in> set (escape_byte esc d)"
  then show ?thesis
    using hex_bound [of d] h [of "of_char d div 16" c] h [of "of_char d mod 16" c] by (auto simp: escape_byte_def split: if_splits)
qed

lemma escape_text_free: "CHR ''&'' \<notin> set (escape_text esc s)" "CHR ''='' \<notin> set (escape_text esc s)"
  using escape_byte_not_special by (fastforce simp: escape_text_def)+

lemma decode_escape_text: "decode_query_text (escape_text esc s) = s"
proof -
  have "escape_text esc s = s" if "\<not> contains_any (escape_text esc s) [CHR 0x25, CHR ''+'']"
  proof -
    have "escape_byte esc c = [c]" if "c \<in> set s" for c
    proof (rule ccontr)
      assume "escape_byte esc c \<noteq> [c]"
      then have "CHR 0x25 \<in> set (escape_byte esc c)" by (auto simp: escape_byte_def split: if_splits)
      then have "CHR 0x25 \<in> set (escape_text esc s)" using \<open>c \<in> set s\<close> by (auto simp: escape_text_def)
      then show False using \<open>\<not> contains_any _ _\<close> by (auto simp: contains_any_def list_ex_iff)
    qed
    then have "escape_text esc s = concat (map (\<lambda>c. [c]) s)" unfolding escape_text_def by (metis map_cong)
    then show ?thesis by simp
  qed
  then show ?thesis by (auto simp: decode_query_text_def query_unescape_text)
qed

definition write_parameter :: "(char \<Rightarrow> bool) \<Rightarrow> string \<times> string \<Rightarrow> string" where
  "write_parameter esc kv = escape_text esc (fst kv) @ CHR ''='' # escape_text esc (snd kv)"

definition write_query :: "(char \<Rightarrow> bool) \<Rightarrow> (string \<times> string) list \<Rightarrow> string" where
  "write_query esc kvs = join_str ''&'' (map (write_parameter esc) kvs)"

text \<open>The values a list of pairs gives each name, in order.\<close>

definition grouped :: "(string \<times> string) list \<Rightarrow> values_map" where
  "grouped kvs k = (if k \<in> fst ` set kvs then Some (map snd (filter (\<lambda>kv. fst kv = k) kvs)) else None)"

lemma split_query_step:
  assumes "CHR ''&'' \<notin> set e" and "e \<noteq> []"
  shows "split_query_from out (e @ (if q = [] then [] else CHR ''&'' # q)) =
    (case cut_at e (CHR ''='') of (name, value, _) \<Rightarrow>
       split_query_from (add_value out (decode_query_text name) (decode_query_text value)) q)"
proof (cases "q = []")
  case True
  then show ?thesis
    using assms cut_no_sep [of "CHR ''&''" e] by (subst split_query_from.simps) simp
next
  case False
  then show ?thesis
    using assms cut_append [of "CHR ''&''" e q] by (subst split_query_from.simps) simp
qed

lemma split_query_written:
  "split_query_from out (write_query esc kvs) = foldl (\<lambda>m kv. add_value m (fst kv) (snd kv)) out kvs"
proof (induction kvs arbitrary: out)
  case Nil
  then show ?case by (subst split_query_from.simps) (simp add: write_query_def join_str_def)
next
  case (Cons kv kvs)
  have e: "CHR ''&'' \<notin> set (write_parameter esc kv)" "write_parameter esc kv \<noteq> []"
    using escape_text_free by (auto simp: write_parameter_def)
  have q: "write_query esc (kv # kvs) =
      write_parameter esc kv @ (if write_query esc kvs = [] then [] else CHR ''&'' # write_query esc kvs)"
    by (cases kvs) (auto simp: write_query_def join_str_def write_parameter_def)
  have "cut_at (write_parameter esc kv) (CHR ''='') = (escape_text esc (fst kv), escape_text esc (snd kv), True)"
    unfolding write_parameter_def by (rule cut_append) (rule escape_text_free)
  then show ?case
    unfolding q split_query_step [OF e] by (simp add: decode_escape_text Cons.IH)
qed

lemma foldl_add_value:
  "foldl (\<lambda>m kv. add_value m (fst kv) (snd kv)) out kvs k =
   (if k \<in> fst ` set kvs
    then Some ((case out k of None \<Rightarrow> [] | Some vs \<Rightarrow> vs) @ map snd (filter (\<lambda>kv. fst kv = k) kvs)) else out k)"
  by (induction kvs arbitrary: out) (auto simp: add_value_def filter_empty_conv image_iff)

text \<open>
  C10. A query string or form body means what its writer meant: splitting any list of parameters
  written with percent-escapes gives every name exactly its values in order, whichever bytes
  beyond the reserved four were escaped, and with names and values over all bytes.
\<close>

theorem query_roundtrip: "split_query (write_query esc kvs) = grouped kvs"
  by (rule ext) (simp add: split_query_def split_query_written foldl_add_value grouped_def)

text \<open>
  Header names are looked up without regard to case: two names made of token bytes that agree
  up to ASCII case find the same values.
\<close>

lemma header_lookup_folds:
  assumes "list_all token_byte s" and "list_all token_byte t" and "map ascii_lower s = map ascii_lower t"
  shows "header_values h s = header_values h t"
  using canonical_header_key_fold [OF assms] by (simp add: header_values_def)

end
