(* ===== verification/Request.thy ===== *)
theory Request
  imports Query_Text Matchers
begin

text \<open>
  \<^verbatim>\<open>internal/match/request.go\<close>: the pooled working set of one request. Everything derived from the
  request is computed at most once, on first use, so every accessor returns the request with its
  memo fields updated. The lemmas show that what a criterion sees does not depend on which
  accessors ran before, and that an instance back from the pool is indistinguishable from a new
  one.
\<close>

section \<open>State\<close>

text \<open>
  What is read of \<^verbatim>\<open>net/http\<close>'s request: \<open>hr_parsed_uri\<close> is the value of \<^verbatim>\<open>URL.RequestURI\<close>, and the
  header map has canonical names.
\<close>

record http_request =
  hr_method :: string
  hr_request_uri :: string
  hr_parsed_uri :: string
  hr_host :: string
  hr_tls :: bool
  hr_header :: values_map

text \<open>
  \<^verbatim>\<open>ParsedRequest\<close>. The scratch subjects the code hands out by pointer are the values the subject
  accessors return; a nil map is the empty map. \<open>'e\<close> is the type of the store's errors.
\<close>

record ('x, 'p, 'e) parsed_request =
  pr_method :: string
  pr_path :: string
  pr_full_url :: string
  pr_header :: values_map
  pr_body :: bytes
  pr_raw_host :: string
  pr_is_tls :: bool
  pr_host :: string
  pr_port :: string
  pr_origin_split :: bool
  pr_query :: values_map
  pr_query_parsed :: bool
  pr_cookies :: values_map
  pr_cookies_parsed :: bool
  pr_form :: values_map
  pr_form_parsed :: bool
  pr_body_subject :: "('x, 'p) body"
  pr_key_buf :: bytes
  pr_path_vars :: "string \<rightharpoonup> string"
  pr_scenario_states :: "string \<rightharpoonup> string"
  pr_scenario_err :: "'e option"

definition new_body :: "('x, 'p) body" where
  "new_body =
     \<lparr>bd_raw = [], bd_present = False, bd_content_type = [], bd_charset = CharsetUnresolved,
      bd_text = [], bd_text_set = False, bd_doc = [], bd_doc_set = False, bd_state = JsonUnparsed,
      bd_value = JNull, bd_xml_state = JsonUnparsed, bd_xml_doc = None, bd_part_state = JsonUnparsed, bd_parts = []\<rparr>"

text \<open>What the pool's \<^verbatim>\<open>New\<close> makes.\<close>

definition new_request :: "('x, 'p, 'e) parsed_request" where
  "new_request =
     \<lparr>pr_method = [], pr_path = [], pr_full_url = [], pr_header = Map.empty, pr_body = [],
      pr_raw_host = [], pr_is_tls = False, pr_host = [], pr_port = [], pr_origin_split = False,
      pr_query = Map.empty, pr_query_parsed = False, pr_cookies = Map.empty, pr_cookies_parsed = False,
      pr_form = Map.empty, pr_form_parsed = False, pr_body_subject = new_body, pr_key_buf = [],
      pr_path_vars = Map.empty, pr_scenario_states = Map.empty, pr_scenario_err = None\<rparr>"

section \<open>Binding and releasing\<close>

definition request_target :: "http_request \<Rightarrow> string" where
  "request_target req =
     (if hr_request_uri req \<noteq> [] \<and> hd (hr_request_uri req) = CHR ''/'' then hr_request_uri req
      else hr_parsed_uri req)"

text \<open>The path and the full URL \<^verbatim>\<open>bind\<close> derives from the target: a bare marker is dropped.\<close>

definition split_target :: "string \<Rightarrow> string \<times> string" where
  "split_target target =
     (case index_byte target (CHR ''?'') of
        None \<Rightarrow> (target, target)
      | Some i \<Rightarrow> (take i target, if i = length target - 1 then take i target else target))"

definition bind_request :: "http_request \<Rightarrow> bytes \<Rightarrow> ('x, 'p, 'e) parsed_request \<Rightarrow> ('x, 'p, 'e) parsed_request" where
  "bind_request req body r =
     (let (path, full) = split_target (request_target req);
          content_type = (if 0 < length body then header_get (hr_header req) ''Content-Type'' else [])
      in r\<lparr>pr_method := hr_method req, pr_path := path, pr_full_url := full,
           pr_header := hr_header req, pr_body := body, pr_raw_host := hr_host req, pr_is_tls := hr_tls req,
           pr_body_subject := body_set_with_content_type body content_type (pr_body_subject r)\<rparr>)"

definition reset_request :: "('x, 'p, 'e) parsed_request \<Rightarrow> ('x, 'p, 'e) parsed_request" where
  "reset_request r =
     r\<lparr>pr_method := [], pr_path := [], pr_full_url := [], pr_header := Map.empty, pr_body := [],
       pr_query := Map.empty, pr_query_parsed := False, pr_cookies := Map.empty, pr_cookies_parsed := False,
       pr_form := Map.empty, pr_form_parsed := False, pr_raw_host := [], pr_is_tls := False,
       pr_host := [], pr_port := [], pr_origin_split := False,
       pr_body_subject := body_reset (pr_body_subject r), pr_key_buf := [],
       pr_path_vars := Map.empty, pr_scenario_states := Map.empty, pr_scenario_err := None\<rparr>"

text \<open>
  \<^verbatim>\<open>AcquireRequest\<close> and \<^verbatim>\<open>ReleaseRequest\<close> over the pool's free instances: \<^verbatim>\<open>Get\<close> hands out any of
  them, here the one \<open>pick\<close> names, or a new one.
\<close>

definition acquire_request ::
    "nat \<Rightarrow> http_request \<Rightarrow> bytes \<Rightarrow> ('x, 'p, 'e) parsed_request list \<Rightarrow>
     ('x, 'p, 'e) parsed_request \<times> ('x, 'p, 'e) parsed_request list" where
  "acquire_request pick req body pool =
     (if pick < length pool
      then (bind_request req body (pool ! pick), take pick pool @ drop (Suc pick) pool)
      else (bind_request req body new_request, pool))"

definition release_request ::
    "('x, 'p, 'e) parsed_request \<Rightarrow> ('x, 'p, 'e) parsed_request list \<Rightarrow> ('x, 'p, 'e) parsed_request list" where
  "release_request r pool = reset_request r # pool"

section \<open>Subjects\<close>

definition split_origin :: "('x, 'p, 'e) parsed_request \<Rightarrow> ('x, 'p, 'e) parsed_request" where
  "split_origin r =
     (if pr_origin_split r then r
      else let (host, port) = split_host_port (pr_raw_host r)
           in r\<lparr>pr_host := host, pr_port := port, pr_origin_split := True\<rparr>)"

definition host_subject :: "('x, 'p, 'e) parsed_request \<Rightarrow> subject \<times> ('x, 'p, 'e) parsed_request" where
  "host_subject r = (let r = split_origin r in (KeySubject True [pr_host r] False, r))"

definition port_subject :: "('x, 'p, 'e) parsed_request \<Rightarrow> subject \<times> ('x, 'p, 'e) parsed_request" where
  "port_subject r = (let r = split_origin r in (KeySubject True [pr_port r] False, r))"

definition scheme_subject :: "('x, 'p, 'e) parsed_request \<Rightarrow> subject \<times> ('x, 'p, 'e) parsed_request" where
  "scheme_subject r = (KeySubject True [scheme_of (pr_is_tls r)] False, r)"

text \<open>A key subject over a multimap entry, absent when the key is not there.\<close>

definition entry_subject :: "bool \<Rightarrow> string list option \<Rightarrow> subject" where
  "entry_subject strict e =
     KeySubject (e \<noteq> None) (case e of None \<Rightarrow> [] | Some vs \<Rightarrow> vs) strict"

definition header_subject :: "string \<Rightarrow> ('x, 'p, 'e) parsed_request \<Rightarrow> subject \<times> ('x, 'p, 'e) parsed_request" where
  "header_subject name r = (entry_subject False (header_values (pr_header r) name), r)"

definition query_subject :: "string \<Rightarrow> ('x, 'p, 'e) parsed_request \<Rightarrow> subject \<times> ('x, 'p, 'e) parsed_request" where
  "query_subject name r =
     (let r = (if \<not> pr_query_parsed r
               then r\<lparr>pr_query := parse_query (pr_full_url r), pr_query_parsed := True\<rparr> else r)
      in (entry_subject False (pr_query r name), r))"

definition cookie_subject :: "string \<Rightarrow> ('x, 'p, 'e) parsed_request \<Rightarrow> subject \<times> ('x, 'p, 'e) parsed_request" where
  "cookie_subject name r =
     (let r = (if \<not> pr_cookies_parsed r
               then r\<lparr>pr_cookies := parse_cookies (case header_values (pr_header r) ''Cookie'' of Some vs \<Rightarrow> vs | None \<Rightarrow> []),
                      pr_cookies_parsed := True\<rparr> else r)
      in (entry_subject True (pr_cookies r name), r))"

definition form_subject ::
    "unicode \<Rightarrow> string \<Rightarrow> ('x, 'p, 'e) parsed_request \<Rightarrow> subject \<times> ('x, 'p, 'e) parsed_request" where
  "form_subject u name r =
     (let r = (if \<not> pr_form_parsed r
               then (let r = r\<lparr>pr_form_parsed := True\<rparr>
                     in if media_type u (header_get (pr_header r) ''Content-Type'') = ''application/x-www-form-urlencoded''
                        then r\<lparr>pr_form := split_query (pr_body r)\<rparr> else r)
               else r)
      in (entry_subject False (pr_form r name), r))"

definition path_var_subject :: "string \<Rightarrow> ('x, 'p, 'e) parsed_request \<Rightarrow> subject \<times> ('x, 'p, 'e) parsed_request" where
  "path_var_subject name r = (entry_subject False (map_option (\<lambda>v. [v]) (pr_path_vars r name)), r)"

definition body_subject :: "('x, 'p, 'e) parsed_request \<Rightarrow> subject \<times> ('x, 'p, 'e) parsed_request" where
  "body_subject r = (BodySubject (bd_raw (pr_body_subject r)) (bd_content_type (pr_body_subject r)), r)"

definition bind_path_var :: "string \<Rightarrow> string \<Rightarrow> ('x, 'p, 'e) parsed_request \<Rightarrow> ('x, 'p, 'e) parsed_request" where
  "bind_path_var name v r = r\<lparr>pr_path_vars := (pr_path_vars r)(name \<mapsto> v)\<rparr>"

definition clear_path_vars :: "('x, 'p, 'e) parsed_request \<Rightarrow> ('x, 'p, 'e) parsed_request" where
  "clear_path_vars r = r\<lparr>pr_path_vars := Map.empty\<rparr>"

definition memoize_scenario_state :: "string \<Rightarrow> string \<Rightarrow> ('x, 'p, 'e) parsed_request \<Rightarrow> ('x, 'p, 'e) parsed_request" where
  "memoize_scenario_state name state r = r\<lparr>pr_scenario_states := (pr_scenario_states r)(name \<mapsto> state)\<rparr>"

definition fail_scenario_read :: "'e \<Rightarrow> ('x, 'p, 'e) parsed_request \<Rightarrow> ('x, 'p, 'e) parsed_request" where
  "fail_scenario_read err r = (if pr_scenario_err r = None then r\<lparr>pr_scenario_err := Some err\<rparr> else r)"

text \<open>\<^verbatim>\<open>indexLookup\<close>: the key is built in the request's buffer, method, NUL byte, URL.\<close>

definition index_key :: "string \<Rightarrow> string \<Rightarrow> string" where
  "index_key meth url = meth @ [CHR 0x00] @ url"

definition index_lookup ::
    "(string \<Rightarrow> 'i list) \<Rightarrow> string \<Rightarrow> string \<Rightarrow> ('x, 'p, 'e) parsed_request \<Rightarrow> 'i list \<times> ('x, 'p, 'e) parsed_request" where
  "index_lookup ix meth url r =
     (let r = r\<lparr>pr_key_buf := index_key meth url\<rparr> in (ix (pr_key_buf r), r))"

section \<open>What a bound request is\<close>

text \<open>
  The memo fields agree with what they memoise. The facts of the request itself, the bindings and
  the scenario memo are the other fields.
\<close>

definition request_inv :: "('x, 'p) reader \<Rightarrow> ('x, 'p, 'e) parsed_request \<Rightarrow> bool" where
  "request_inv rd r \<longleftrightarrow>
     (pr_origin_split r \<longrightarrow> (pr_host r, pr_port r) = split_host_port (pr_raw_host r)) \<and>
     (pr_query_parsed r \<longrightarrow> pr_query r = parse_query (pr_full_url r)) \<and>
     (pr_cookies_parsed r \<longrightarrow>
        pr_cookies r = parse_cookies (case header_values (pr_header r) ''Cookie'' of Some vs \<Rightarrow> vs | None \<Rightarrow> [])) \<and>
     (if pr_form_parsed r \<and>
         media_type (rd_unicode rd) (header_get (pr_header r) ''Content-Type'') = ''application/x-www-form-urlencoded''
      then pr_form r = split_query (pr_body r) else pr_form r = Map.empty) \<and>
     bd_raw (pr_body_subject r) = pr_body r"

text \<open>Two requests that differ in memo fields only.\<close>

definition same_request :: "('x, 'p, 'e) parsed_request \<Rightarrow> ('x, 'p, 'e) parsed_request \<Rightarrow> bool" where
  "same_request r r' \<longleftrightarrow>
     pr_method r' = pr_method r \<and> pr_path r' = pr_path r \<and> pr_full_url r' = pr_full_url r \<and>
     pr_header r' = pr_header r \<and> pr_body r' = pr_body r \<and> pr_raw_host r' = pr_raw_host r \<and>
     pr_is_tls r' = pr_is_tls r \<and> pr_body_subject r' = pr_body_subject r \<and> pr_path_vars r' = pr_path_vars r \<and>
     pr_scenario_states r' = pr_scenario_states r \<and> pr_scenario_err r' = pr_scenario_err r"

text \<open>The fields a criterion can be about, read through the memos and read directly.\<close>

datatype field =
    FHost | FPort | FScheme | FBody
  | FHeader string | FQuery string | FCookie string | FPathVar string | FForm string

definition read_field ::
    "('x, 'p) reader \<Rightarrow> field \<Rightarrow> ('x, 'p, 'e) parsed_request \<Rightarrow> subject \<times> ('x, 'p, 'e) parsed_request" where
  "read_field rd f r =
     (case f of
        FHost \<Rightarrow> host_subject r
      | FPort \<Rightarrow> port_subject r
      | FScheme \<Rightarrow> scheme_subject r
      | FBody \<Rightarrow> body_subject r
      | FHeader name \<Rightarrow> header_subject name r
      | FQuery name \<Rightarrow> query_subject name r
      | FCookie name \<Rightarrow> cookie_subject name r
      | FPathVar name \<Rightarrow> path_var_subject name r
      | FForm name \<Rightarrow> form_subject (rd_unicode rd) name r)"

definition cookies_of :: "values_map \<Rightarrow> values_map" where
  "cookies_of h = parse_cookies (case header_values h ''Cookie'' of Some vs \<Rightarrow> vs | None \<Rightarrow> [])"

definition form_of :: "unicode \<Rightarrow> values_map \<Rightarrow> bytes \<Rightarrow> values_map" where
  "form_of u h body =
     (if media_type u (header_get h ''Content-Type'') = ''application/x-www-form-urlencoded''
      then split_query body else Map.empty)"

definition field_subject :: "('x, 'p) reader \<Rightarrow> field \<Rightarrow> ('x, 'p, 'e) parsed_request \<Rightarrow> subject" where
  "field_subject rd f r =
     (case f of
        FHost \<Rightarrow> KeySubject True [fst (split_host_port (pr_raw_host r))] False
      | FPort \<Rightarrow> KeySubject True [snd (split_host_port (pr_raw_host r))] False
      | FScheme \<Rightarrow> KeySubject True [scheme_of (pr_is_tls r)] False
      | FBody \<Rightarrow> BodySubject (pr_body r) (bd_content_type (pr_body_subject r))
      | FHeader name \<Rightarrow> entry_subject False (header_values (pr_header r) name)
      | FQuery name \<Rightarrow> entry_subject False (parse_query (pr_full_url r) name)
      | FCookie name \<Rightarrow> entry_subject True (cookies_of (pr_header r) name)
      | FPathVar name \<Rightarrow> entry_subject False (map_option (\<lambda>v. [v]) (pr_path_vars r name))
      | FForm name \<Rightarrow> entry_subject False (form_of (rd_unicode rd) (pr_header r) (pr_body r) name))"

lemma same_request_refl [simp]: "same_request r r"
  by (simp add: same_request_def)

lemma same_request_trans: "same_request a b \<Longrightarrow> same_request b c \<Longrightarrow> same_request a c"
  by (simp add: same_request_def)

lemma same_request_sym: "same_request a b \<Longrightarrow> same_request b a"
  by (simp add: same_request_def)

lemma field_subject_same: "same_request r r' \<Longrightarrow> field_subject rd f r' = field_subject rd f r"
  by (cases f) (simp_all add: field_subject_def same_request_def)

lemma read_field_ok:
  assumes "request_inv rd r"
  shows "fst (read_field rd f r) = field_subject rd f r \<and> request_inv rd (snd (read_field rd f r)) \<and>
    same_request r (snd (read_field rd f r))"
proof (cases f)
  case FHost
  then show ?thesis using assms
    by (auto simp: read_field_def host_subject_def split_origin_def field_subject_def request_inv_def same_request_def Let_def
        split: prod.splits)
next
  case FPort
  then show ?thesis using assms
    by (auto simp: read_field_def port_subject_def split_origin_def field_subject_def request_inv_def same_request_def Let_def
        split: prod.splits)
next
  case (FQuery name)
  then show ?thesis using assms
    by (auto simp: read_field_def query_subject_def field_subject_def request_inv_def same_request_def Let_def)
next
  case (FCookie name)
  then show ?thesis using assms
    by (auto simp: read_field_def cookie_subject_def field_subject_def cookies_of_def request_inv_def same_request_def Let_def)
next
  case (FForm name)
  then show ?thesis using assms
    by (auto simp: read_field_def form_subject_def field_subject_def form_of_def request_inv_def same_request_def Let_def)
qed (use assms in \<open>auto simp: read_field_def scheme_subject_def body_subject_def header_subject_def path_var_subject_def
    field_subject_def request_inv_def\<close>)

lemma index_lookup_ok:
  "fst (index_lookup ix meth url r) = ix (index_key meth url) \<and>
   (request_inv rd (snd (index_lookup ix meth url r)) = request_inv rd r) \<and>
   same_request r (snd (index_lookup ix meth url r))"
  by (simp add: index_lookup_def request_inv_def same_request_def Let_def)

lemma path_vars_inv [simp]:
  "request_inv rd (bind_path_var n v r) = request_inv rd r" "request_inv rd (clear_path_vars r) = request_inv rd r"
  "request_inv rd (memoize_scenario_state n v r) = request_inv rd r"
  "request_inv rd (fail_scenario_read e r) = request_inv rd r"
  by (simp_all add: bind_path_var_def clear_path_vars_def memoize_scenario_state_def fail_scenario_read_def request_inv_def)

lemma bind_new_request_inv: "request_inv rd (bind_request req body new_request)"
  by (simp add: request_inv_def bind_request_def new_request_def body_set_with_content_type_def case_prod_beta Let_def)

lemma reset_request_new: "reset_request r = new_request"
  by (cases r) (simp add: reset_request_def new_request_def body_reset_def new_body_def)

lemma acquire_from_clean_pool:
  "set pool \<subseteq> {new_request} \<Longrightarrow>
   fst (acquire_request pick req body pool) = bind_request req body new_request \<and>
   set (snd (acquire_request pick req body pool)) \<subseteq> {new_request}"
  by (auto simp: acquire_request_def dest: nth_mem in_set_takeD in_set_dropD)

text \<open>A server's use of the pool: requests come and go in any order.\<close>

datatype ('x, 'p, 'e) pool_step =
  PoolAcquire nat http_request bytes | PoolRelease "('x, 'p, 'e) parsed_request"

fun pool_after :: "('x, 'p, 'e) pool_step list \<Rightarrow> ('x, 'p, 'e) parsed_request list" where
  "pool_after [] = []"
| "pool_after (PoolAcquire pick req body # steps) = snd (acquire_request pick req body (pool_after steps))"
| "pool_after (PoolRelease r # steps) = release_request r (pool_after steps)"

lemma pool_clean: "set (pool_after steps) \<subseteq> {new_request}"
proof (induction steps rule: pool_after.induct)
  case (2 pick req body steps)
  then show ?case using acquire_from_clean_pool [of "pool_after steps" pick req body] by simp
next
  case (3 r steps)
  then show ?case by (simp add: release_request_def reset_request_new)
qed simp

section \<open>Properties\<close>

text \<open>
  C8. Pooling is invisible: after any history of acquiring and releasing, in whatever state requests
  were released and whichever instance the pool hands out, the acquired request is the one a new
  instance would have become, field for field.
\<close>

theorem pooled_request_fresh:
  "fst (acquire_request pick req body (pool_after steps)) = bind_request req body new_request"
  by (simp add: acquire_from_clean_pool pool_clean)

text \<open>A sequence of accessor calls on one request.\<close>

fun read_fields ::
    "('x, 'p) reader \<Rightarrow> field list \<Rightarrow> ('x, 'p, 'e) parsed_request \<Rightarrow> subject list" where
  "read_fields rd [] r = []"
| "read_fields rd (f # fs) r = (case read_field rd f r of (s, r') \<Rightarrow> s # read_fields rd fs r')"

lemma read_fields_ok: "request_inv rd r \<Longrightarrow> read_fields rd fs r = map (\<lambda>f. field_subject rd f r) fs"
proof (induction fs arbitrary: r)
  case (Cons f fs)
  from read_field_ok [OF Cons.prems, of f] show ?case
    by (cases "read_field rd f r") (simp add: Cons.IH field_subject_same)
qed simp

text \<open>
  C9. Lazy parsing is invisible: reading any fields of a bound request in any order, each as often as
  the criteria ask, yields for each the subject parsed directly from the request's URL, headers,
  origin and body.
\<close>

theorem request_reads_pure:
  "read_fields rd fs (bind_request req body (new_request :: ('x, 'p, 'e) parsed_request)) =
   map (\<lambda>f. field_subject rd f (bind_request req body (new_request :: ('x, 'p, 'e) parsed_request))) fs"
  by (rule read_fields_ok [OF bind_new_request_inv])

end
