(* ===== verification/Snapshot.thy ===== *)
theory Snapshot
  imports Path_Template Request
begin

text \<open>
  \<^verbatim>\<open>internal/match/snapshot.go\<close> over the compiled stubs of \<^verbatim>\<open>internal/stub/compile.go\<close>: how the
  stubs are ordered and indexed, what it takes for a stub to match a request, and the lazy merge
  of five index lists that finds the one to serve. The main lemma shows that the merge over the
  indexes serves exactly what a scan of all stubs in selection order would, with the same
  effects on the request and on the scenario state behind the gate.
\<close>

section \<open>Compiled stubs\<close>

datatype url_kind = URLAny | URLExactFull | URLExactPath | URLPatternFull | URLPatternPath | URLTemplate

record scenario_ref =
  sr_name :: string
  sr_required_state :: string
  sr_new_state :: string

record key_criterion =
  kc_name :: string
  kc_matcher :: matcher

datatype delay_kind = DelayNone | DelayUniform | DelayLogNormal

record delay_distribution =
  dd_kind :: delay_kind
  dd_lower :: int
  dd_upper :: int
  dd_median :: int
  dd_sigma :: rat

record chunked_dribble =
  cd_chunks :: int
  cd_total :: int

text \<open>
  \<^verbatim>\<open>CompiledResponse\<close>; durations are nanoseconds, and the parsed templates are of the template
  engine's own type \<open>'t\<close>.
\<close>

record 't compiled_response =
  cr_status :: int
  cr_status_message :: string
  cr_has_status_message :: bool
  cr_headers :: "(string \<times> string) list"
  cr_body :: bytes
  cr_body_file_name :: string
  cr_body_file_missing :: bool
  cr_fixed_delay :: int
  cr_fixed_delay_set :: bool
  cr_delay :: delay_distribution
  cr_dribble :: "chunked_dribble option"
  cr_fault :: string
  cr_templated :: bool
  cr_body_template :: "'t option"
  cr_header_templates :: "(nat \<times> 't) list"
  cr_transformer_parameters :: "(string \<times> json) list"

record 't compiled_stub =
  cs_raw :: bytes
  cs_id :: string
  cs_name :: string
  cs_priority :: int
  cs_persistent :: bool
  cs_metadata :: bytes
  cs_seq :: u64
  cs_method :: string
  cs_url_kind :: url_kind
  cs_url_literal :: string
  cs_url_regex :: pattern_matcher
  cs_path_template :: path_template
  cs_literal_prefix :: string
  cs_host :: "matcher option"
  cs_port :: "matcher option"
  cs_scheme :: "matcher option"
  cs_headers :: "key_criterion list"
  cs_query :: "key_criterion list"
  cs_cookies :: "key_criterion list"
  cs_form :: "key_criterion list"
  cs_path_params :: "key_criterion list"
  cs_basic_auth :: string
  cs_body_matchers :: "matcher list"
  cs_scenario :: "scenario_ref option"
  cs_response :: "'t compiled_response"

definition matches_method :: "'t compiled_stub \<Rightarrow> string \<Rightarrow> bool" where
  "matches_method cs meth = (cs_method cs = [] \<or> cs_method cs = meth)"

definition has_criteria_beyond_url :: "'t compiled_stub \<Rightarrow> bool" where
  "has_criteria_beyond_url cs =
     (0 < length (cs_headers cs) \<or> 0 < length (cs_query cs) \<or> 0 < length (cs_cookies cs) \<or>
      0 < length (cs_form cs) \<or> 0 < length (cs_path_params cs) \<or> 0 < length (cs_body_matchers cs) \<or>
      cs_basic_auth cs \<noteq> [] \<or> cs_host cs \<noteq> None \<or> cs_port cs \<noteq> None \<or> cs_scheme cs \<noteq> None)"

section \<open>Building the snapshot\<close>

record ('t, 'g) snapshot =
  sn_epoch :: u64
  sn_ordered :: "'t compiled_stub list"
  sn_by_full_url :: "string \<Rightarrow> nat list"
  sn_by_path :: "string \<Rightarrow> nat list"
  sn_patterns :: "nat list"
  sn_settings :: "'g option"
  sn_by_id :: "string \<rightharpoonup> 't compiled_stub"
  sn_scenarios :: "string \<rightharpoonup> string list"

definition any_method :: string where "any_method = ''ANY''"
definition scenario_started :: string where "scenario_started = ''Started''"

definition empty_snapshot :: "('t, 'g) snapshot" where
  "empty_snapshot =
     \<lparr>sn_epoch = 0, sn_ordered = [], sn_by_full_url = (\<lambda>_. []), sn_by_path = (\<lambda>_. []), sn_patterns = [],
      sn_settings = None, sn_by_id = Map.empty, sn_scenarios = Map.empty\<rparr>"

definition selection_less :: "'t compiled_stub \<Rightarrow> 't compiled_stub \<Rightarrow> bool" where
  "selection_less a b =
     (if cs_priority a \<noteq> cs_priority b then cs_priority a < cs_priority b else cs_seq b < cs_seq a)"

definition sort_selection_order :: "'t compiled_stub list \<Rightarrow> 't compiled_stub list" where
  "sort_selection_order stubs = sort_stable selection_less stubs"

definition add_state :: "string \<Rightarrow> string list \<Rightarrow> string list" where
  "add_state state states =
     (if state = [] then states else if state \<in> set states then states else states @ [state])"

definition record_scenario :: "scenario_ref \<Rightarrow> (string \<rightharpoonup> string list) \<Rightarrow> (string \<rightharpoonup> string list)" where
  "record_scenario ref scenarios =
     (let states = (case scenarios (sr_name ref) of None \<Rightarrow> [] | Some ss \<Rightarrow> ss);
          states = add_state (sr_new_state ref) (add_state (sr_required_state ref) (add_state scenario_started states))
      in scenarios(sr_name ref \<mapsto> sort_stable string_less states))"

definition append_index :: "string \<Rightarrow> nat \<Rightarrow> (string \<Rightarrow> nat list) \<Rightarrow> string \<Rightarrow> nat list" where
  "append_index key idx ix = ix(key := ix key @ [idx])"

text \<open>One round of the indexing loop.\<close>

definition index_stub :: "nat \<Rightarrow> 't compiled_stub \<Rightarrow> ('t, 'g) snapshot \<Rightarrow> ('t, 'g) snapshot" where
  "index_stub idx cs s =
     (let s = s\<lparr>sn_by_id := (sn_by_id s)(cs_id cs \<mapsto> cs)\<rparr>;
          meth = (if cs_method cs = [] then any_method else cs_method cs);
          key = index_key meth (cs_url_literal cs);
          s = (case cs_url_kind cs of
                 URLExactFull \<Rightarrow> s\<lparr>sn_by_full_url := append_index key idx (sn_by_full_url s)\<rparr>
               | URLExactPath \<Rightarrow> s\<lparr>sn_by_path := append_index key idx (sn_by_path s)\<rparr>
               | _ \<Rightarrow> s\<lparr>sn_patterns := sn_patterns s @ [idx]\<rparr>)
      in case cs_scenario cs of
           None \<Rightarrow> s
         | Some ref \<Rightarrow> s\<lparr>sn_scenarios := record_scenario ref (sn_scenarios s)\<rparr>)"

fun index_stubs :: "nat \<Rightarrow> 't compiled_stub list \<Rightarrow> ('t, 'g) snapshot \<Rightarrow> ('t, 'g) snapshot" where
  "index_stubs i [] s = s"
| "index_stubs i (cs # css) s = index_stubs (Suc i) css (index_stub i cs s)"

definition build_snapshot :: "'t compiled_stub list \<Rightarrow> u64 \<Rightarrow> ('t, 'g) snapshot" where
  "build_snapshot stubs epoch =
     (let ordered = sort_selection_order stubs
      in index_stubs 0 ordered (empty_snapshot\<lparr>sn_epoch := epoch, sn_ordered := ordered\<rparr>))"

definition snapshot_len :: "('t, 'g) snapshot \<Rightarrow> nat" where
  "snapshot_len s = length (sn_ordered s)"

definition snapshot_by_id :: "('t, 'g) snapshot \<Rightarrow> string \<Rightarrow> 't compiled_stub option" where
  "snapshot_by_id s i = sn_by_id s i"

section \<open>Full match of one stub\<close>

text \<open>\<^verbatim>\<open>matchesBasicAuth\<close>; \<open>n\<close> is the length of the scheme token and its space.\<close>

definition basic_auth_prefix :: string where "basic_auth_prefix = ''Basic ''"

definition matches_basic_auth :: "unicode \<Rightarrow> string list \<Rightarrow> string \<Rightarrow> bool" where
  "matches_basic_auth u values want =
     (let n = length basic_auth_prefix
      in list_ex (\<lambda>got. length got = length want \<and> equal_fold u (take n got) (take n want) \<and> drop n got = drop n want)
           values)"

definition match_url ::
    "'t compiled_stub \<Rightarrow> ('x, 'p, 'e) parsed_request \<Rightarrow> bool \<times> ('x, 'p, 'e) parsed_request" where
  "match_url cs r =
     (case cs_url_kind cs of
        URLAny \<Rightarrow> (True, r)
      | URLExactFull \<Rightarrow> (cs_url_literal cs = pr_full_url r, r)
      | URLExactPath \<Rightarrow> (cs_url_literal cs = pr_path r, r)
      | URLPatternFull \<Rightarrow>
          (if \<not> has_prefix (pr_full_url r) (cs_literal_prefix cs) then (False, r)
           else (pm_match (cs_url_regex cs) (pr_full_url r), r))
      | URLPatternPath \<Rightarrow>
          (if \<not> has_prefix (pr_path r) (cs_literal_prefix cs) then (False, r)
           else (pm_match (cs_url_regex cs) (pr_path r), r))
      | URLTemplate \<Rightarrow>
          (if \<not> has_prefix (pr_path r) (cs_literal_prefix cs) then (False, r)
           else (case template_match (cs_path_template cs) (pr_path r) of
                   (ok, bs) \<Rightarrow> (ok, foldl (\<lambda>r (n, v). bind_path_var n v r) r bs))))"

text \<open>A run of criteria, stopping at the first that fails.\<close>

fun check_criteria ::
    "('x, 'p) reader \<Rightarrow> (field \<times> matcher) list \<Rightarrow> ('x, 'p, 'e) parsed_request \<Rightarrow>
     bool \<times> ('x, 'p, 'e) parsed_request" where
  "check_criteria rd [] r = (True, r)"
| "check_criteria rd ((f, m) # cs) r =
     (case read_field rd f r of
        (s, r') \<Rightarrow> if matches rd m s then check_criteria rd cs r' else (False, r'))"

definition optional_criterion :: "field \<Rightarrow> matcher option \<Rightarrow> (field \<times> matcher) list" where
  "optional_criterion f m = (case m of None \<Rightarrow> [] | Some m \<Rightarrow> [(f, m)])"

definition key_criteria :: "(string \<Rightarrow> field) \<Rightarrow> key_criterion list \<Rightarrow> (field \<times> matcher) list" where
  "key_criteria f cs = map (\<lambda>c. (f (kc_name c), kc_matcher c)) cs"

text \<open>The criteria before and after the Authorization check, in the code's order.\<close>

definition criteria_before_auth :: "'t compiled_stub \<Rightarrow> (field \<times> matcher) list" where
  "criteria_before_auth cs =
     optional_criterion FHost (cs_host cs) @ optional_criterion FPort (cs_port cs) @
     optional_criterion FScheme (cs_scheme cs) @ key_criteria FHeader (cs_headers cs) @
     key_criteria FQuery (cs_query cs) @ key_criteria FCookie (cs_cookies cs)"

definition criteria_after_auth :: "'t compiled_stub \<Rightarrow> (field \<times> matcher) list" where
  "criteria_after_auth cs =
     key_criteria FPathVar (cs_path_params cs) @ key_criteria FForm (cs_form cs) @
     map (\<lambda>m. (FBody, m)) (cs_body_matchers cs)"

definition auth_ok :: "('x, 'p) reader \<Rightarrow> 't compiled_stub \<Rightarrow> ('x, 'p, 'e) parsed_request \<Rightarrow> bool" where
  "auth_ok rd cs r =
     (cs_basic_auth cs = [] \<or>
      matches_basic_auth (rd_unicode rd)
        (case header_values (pr_header r) ''Authorization'' of Some vs \<Rightarrow> vs | None \<Rightarrow> []) (cs_basic_auth cs))"

definition full_match ::
    "('x, 'p) reader \<Rightarrow> 't compiled_stub \<Rightarrow> ('x, 'p, 'e) parsed_request \<Rightarrow> bool \<times> ('x, 'p, 'e) parsed_request" where
  "full_match rd cs r =
     (if \<not> matches_method cs (pr_method r) then (False, r)
      else
        let r = (if cs_url_kind cs = URLTemplate then clear_path_vars r else r)
        in case match_url cs r of
          (False, r) \<Rightarrow> (False, r)
        | (True, r) \<Rightarrow>
            (if \<not> has_criteria_beyond_url cs then (True, r)
             else case check_criteria rd (criteria_before_auth cs) r of
               (False, r) \<Rightarrow> (False, r)
             | (True, r) \<Rightarrow>
                 (if \<not> auth_ok rd cs r then (False, r)
                  else check_criteria rd (criteria_after_auth cs) r)))"

section \<open>Selection\<close>

text \<open>
  \<^verbatim>\<open>ScenarioGate\<close>: a predicate that may read the store, so it carries the world \<open>'w\<close> and may
  write the request's scenario memo.
\<close>

type_synonym ('x, 'p, 'e, 'w) scenario_gate =
  "scenario_ref \<Rightarrow> ('x, 'p, 'e) parsed_request \<Rightarrow> 'w \<Rightarrow> bool \<times> ('x, 'p, 'e) parsed_request \<times> 'w"

text \<open>
  One round's scan of the list heads: the smallest index and the list it came from. A list is
  represented by the part its cursor has not passed.
\<close>

fun pick_next :: "nat \<Rightarrow> nat list list \<Rightarrow> (nat \<times> nat) option \<Rightarrow> (nat \<times> nat) option" where
  "pick_next i [] best = best"
| "pick_next i ([] # ls) best = pick_next (Suc i) ls best"
| "pick_next i ((idx # l) # ls) best =
     pick_next (Suc i) ls
       (case best of None \<Rightarrow> Some (idx, i) | Some (next, from) \<Rightarrow> if idx < next then Some (idx, i) else best)"

lemma pick_next_in:
  "pick_next i ls best = Some (idx, from) \<Longrightarrow>
   best = Some (idx, from) \<or> (i \<le> from \<and> from - i < length ls \<and> (\<exists>l. ls ! (from - i) = idx # l))"
proof (induction i ls best rule: pick_next.induct)
  case (2 i ls best)
  then consider "best = Some (idx, from)" | "Suc i \<le> from" "from - Suc i < length ls" "\<exists>l. ls ! (from - Suc i) = idx # l"
    by auto
  then show ?case
  proof cases
    case 2
    then have "from - i = Suc (from - Suc i)" by simp
    with 2 show ?thesis by simp
  qed simp
next
  case (3 i idx' l ls best)
  then consider "(case best of None \<Rightarrow> Some (idx', i) | Some (next, from) \<Rightarrow> if idx' < next then Some (idx', i) else best) = Some (idx, from)"
    | "Suc i \<le> from" "from - Suc i < length ls" "\<exists>l. ls ! (from - Suc i) = idx # l" by auto
  then show ?case
  proof cases
    case 2
    then have "from - i = Suc (from - Suc i)" by simp
    with 2 show ?thesis by simp
  qed (auto split: option.splits if_splits)
qed simp

definition remaining :: "nat list list \<Rightarrow> nat" where
  "remaining ls = sum_list (map length ls)"

lemma remaining_advance:
  assumes "pick_next 0 ls None = Some (idx, from)"
  shows "remaining (ls[from := tl (ls ! from)]) < remaining ls"
proof -
  from pick_next_in [OF assms] obtain l where l: "from < length ls" "ls ! from = idx # l" by auto
  then have "length (ls ! from) \<le> remaining ls"
    using elem_le_sum_list [of "from" "map length ls"] by (simp add: remaining_def)
  then show ?thesis
    using l by (simp add: remaining_def map_update sum_list_update)
qed

text \<open>
  The loop of \<^verbatim>\<open>Match\<close>: the stub found, the number of candidates evaluated, the request and the
  world.
\<close>

function match_loop ::
    "('x, 'p) reader \<Rightarrow> 't compiled_stub list \<Rightarrow> ('x, 'p, 'e, 'w) scenario_gate option \<Rightarrow> nat list list \<Rightarrow> nat \<Rightarrow>
     ('x, 'p, 'e) parsed_request \<Rightarrow> 'w \<Rightarrow> 't compiled_stub option \<times> nat \<times> ('x, 'p, 'e) parsed_request \<times> 'w" where
  "match_loop rd ordered gate ls seen r w =
     (case pick_next 0 ls None of
        None \<Rightarrow> (None, seen, r, w)
      | Some (next, from) \<Rightarrow>
          (let ls = ls[from := tl (ls ! from)];
               cs = ordered ! next;
               seen = Suc seen
           in case full_match rd cs r of
                (False, r) \<Rightarrow> match_loop rd ordered gate ls seen r w
              | (True, r) \<Rightarrow>
                  (case (cs_scenario cs, gate) of
                     (Some ref, Some g) \<Rightarrow>
                       (case g ref r w of
                          (False, r, w) \<Rightarrow> match_loop rd ordered gate ls seen r w
                        | (True, r, w) \<Rightarrow> (Some cs, seen, r, w))
                   | _ \<Rightarrow> (Some cs, seen, r, w))))"
  by pat_completeness auto
termination
  by (relation "measure (\<lambda>(rd, ordered, gate, ls, seen, r, w). remaining ls)") (auto intro: remaining_advance)

declare match_loop.simps [simp del]

definition match_snapshot ::
    "('x, 'p) reader \<Rightarrow> ('t, 'g) snapshot \<Rightarrow> ('x, 'p, 'e, 'w) scenario_gate option \<Rightarrow>
     ('x, 'p, 'e) parsed_request \<Rightarrow> 'w \<Rightarrow> 't compiled_stub option \<times> nat \<times> ('x, 'p, 'e) parsed_request \<times> 'w" where
  "match_snapshot rd s gate r w =
     (if sn_ordered s = [] then (None, 0, r, w)
      else
        let (l0, r) = index_lookup (sn_by_full_url s) (pr_method r) (pr_full_url r) r;
            (l1, r) = index_lookup (sn_by_full_url s) any_method (pr_full_url r) r;
            (l2, r) = index_lookup (sn_by_path s) (pr_method r) (pr_path r) r;
            (l3, r) = index_lookup (sn_by_path s) any_method (pr_path r) r
        in match_loop rd (sn_ordered s) gate [l0, l1, l2, l3, sn_patterns s] 0 r w)"

end
