(* ===== verification/Snapshot_Select.thy ===== *)
theory Snapshot_Select
  imports Snapshot
begin

text \<open>
  What selection over the snapshot's indexes computes. The reference is a scan of every stub in
  selection order; the lazy merge over the five index lists of a request is shown to serve the
  same stub with the same effects on the request and the scenario state, and without a gate to
  serve the match of lowest priority number and newest sequence.
\<close>

section \<open>What matching one stub does to the request\<close>

text \<open>The facts of the request: everything but the memo fields, the bindings and the scenario memo.\<close>

definition same_wire :: "('x, 'p, 'e) parsed_request \<Rightarrow> ('x, 'p, 'e) parsed_request \<Rightarrow> bool" where
  "same_wire r r' \<longleftrightarrow>
     pr_method r' = pr_method r \<and> pr_path r' = pr_path r \<and> pr_full_url r' = pr_full_url r \<and>
     pr_header r' = pr_header r \<and> pr_body r' = pr_body r \<and> pr_raw_host r' = pr_raw_host r \<and>
     pr_is_tls r' = pr_is_tls r \<and> pr_body_subject r' = pr_body_subject r"

lemma same_wire_refl [simp]: "same_wire r r"
  by (simp add: same_wire_def)

lemma same_wire_trans: "same_wire a b \<Longrightarrow> same_wire b c \<Longrightarrow> same_wire a c"
  by (simp add: same_wire_def)

lemma same_wire_path_vars [simp]:
  "same_wire r (clear_path_vars r)" "same_wire r (bind_path_var n v r)" "same_wire r (r\<lparr>pr_key_buf := k\<rparr>)"
  "same_wire r (memoize_scenario_state n v r)" "same_wire r (fail_scenario_read e r)"
  by (simp_all add: same_wire_def clear_path_vars_def bind_path_var_def memoize_scenario_state_def fail_scenario_read_def)

lemma same_wire_bindings:
  "same_wire r (foldl (\<lambda>r (n, v). bind_path_var n v r) r bs)"
  "request_inv rd (foldl (\<lambda>r (n, v). bind_path_var n v r) r bs) = request_inv rd r"
proof (induction bs arbitrary: r)
  case (Cons b bs)
  { case 1 then show ?case
      using Cons.IH(1) [of "bind_path_var (fst b) (snd b) r"] same_wire_trans same_wire_path_vars(2)
      by (metis (no_types, lifting) case_prod_beta foldl_Cons) }
  { case 2 then show ?case using Cons.IH(2) by (cases b) simp }
qed simp_all

lemma same_request_wire: "same_request r r' \<Longrightarrow> same_wire r r'"
  by (simp add: same_request_def same_wire_def)

lemma read_field_wire: "same_wire r (snd (read_field rd f r))"
  by (cases f) (auto simp: read_field_def host_subject_def port_subject_def split_origin_def scheme_subject_def
      body_subject_def header_subject_def query_subject_def cookie_subject_def path_var_subject_def form_subject_def
      same_wire_def Let_def split: prod.splits)

lemma check_criteria_wire: "same_wire r (snd (check_criteria rd cs r))"
proof (induction cs arbitrary: r)
  case (Cons c cs)
  then show ?case
    using read_field_wire [of r rd "fst c"] same_wire_trans
    by (cases c; cases "read_field rd (fst c) r") (auto; blast)
qed simp

lemma match_url_wire: "same_wire r (snd (match_url cs r))" "request_inv rd (snd (match_url cs r)) = request_inv rd r"
  by (cases "cs_url_kind cs"; auto simp: match_url_def same_wire_bindings split: prod.splits)+

lemma full_match_wire: "same_wire r (snd (full_match rd cs r))"
proof -
  let ?r = "if cs_url_kind cs = URLTemplate then clear_path_vars r else r"
  have 0: "same_wire r ?r" by simp
  obtain ok r1 where m: "match_url cs ?r = (ok, r1)" by fastforce
  with match_url_wire(1) [of ?r cs] 0 have 1: "same_wire r r1" by (metis same_wire_trans snd_conv)
  obtain ok2 r2 where c1: "check_criteria rd (criteria_before_auth cs) r1 = (ok2, r2)" by fastforce
  with check_criteria_wire [of r1 rd] 1 have 2: "same_wire r r2" by (metis same_wire_trans snd_conv)
  obtain ok3 r3 where c2: "check_criteria rd (criteria_after_auth cs) r2 = (ok3, r3)" by fastforce
  with check_criteria_wire [of r2 rd] 2 have 3: "same_wire r r3" by (metis same_wire_trans snd_conv)
  from m c1 c2 1 2 3 show ?thesis
    by (auto simp: full_match_def Let_def split: bool.splits)
qed

section \<open>Scanning the stubs in selection order\<close>

text \<open>The reference: every stub in order, no index.\<close>

fun scan_stubs ::
    "('x, 'p) reader \<Rightarrow> ('x, 'p, 'e, 'w) scenario_gate option \<Rightarrow> 't compiled_stub list \<Rightarrow>
     ('x, 'p, 'e) parsed_request \<Rightarrow> 'w \<Rightarrow> 't compiled_stub option \<times> ('x, 'p, 'e) parsed_request \<times> 'w" where
  "scan_stubs rd gate [] r w = (None, r, w)"
| "scan_stubs rd gate (cs # css) r w =
     (case full_match rd cs r of
        (False, r) \<Rightarrow> scan_stubs rd gate css r w
      | (True, r) \<Rightarrow>
          (case (cs_scenario cs, gate) of
             (Some ref, Some g) \<Rightarrow>
               (case g ref r w of
                  (False, r, w) \<Rightarrow> scan_stubs rd gate css r w
                | (True, r, w) \<Rightarrow> (Some cs, r, w))
           | _ \<Rightarrow> (Some cs, r, w)))"

function merge_indexes :: "nat list list \<Rightarrow> nat list" where
  "merge_indexes ls =
     (case pick_next 0 ls None of
        None \<Rightarrow> []
      | Some (idx, from) \<Rightarrow> idx # merge_indexes (ls[from := tl (ls ! from)]))"
  by pat_completeness auto
termination
  by (relation "measure remaining") (auto intro: remaining_advance)

declare merge_indexes.simps [simp del]

definition drop_seen :: "'a \<times> nat \<times> 'b \<times> 'c \<Rightarrow> 'a \<times> 'b \<times> 'c" where
  "drop_seen x = (case x of (c, n, r, w) \<Rightarrow> (c, r, w))"

lemma drop_seen_simps [simp]: "drop_seen (c, n, r, w) = (c, r, w)"
  by (simp add: drop_seen_def)

lemma match_loop_scan:
  "drop_seen (match_loop rd ordered gate ls seen r w) =
   scan_stubs rd gate (map (\<lambda>i. ordered ! i) (merge_indexes ls)) r w"
proof (induction rd ordered gate ls seen r w rule: match_loop.induct)
  case (1 rd ordered gate ls seen r w)
  show ?case
  proof (cases "pick_next 0 ls None")
    case None
    then show ?thesis by (subst match_loop.simps, subst merge_indexes.simps) simp
  next
    case (Some p)
    obtain idx fr where p: "p = (idx, fr)" by fastforce
    obtain ok r1 where m: "full_match rd (ordered ! idx) r = (ok, r1)" by fastforce
    have step: "match_loop rd ordered gate ls seen r w =
       (if \<not> ok then match_loop rd ordered gate (ls[fr := tl (ls ! fr)]) (Suc seen) r1 w
        else case (cs_scenario (ordered ! idx), gate) of
               (Some ref, Some g) \<Rightarrow>
                 (case g ref r1 w of
                    (False, r, w) \<Rightarrow> match_loop rd ordered gate (ls[fr := tl (ls ! fr)]) (Suc seen) r w
                  | (True, r, w) \<Rightarrow> (Some (ordered ! idx), Suc seen, r, w))
             | _ \<Rightarrow> (Some (ordered ! idx), Suc seen, r1, w))"
      using Some p m by (subst match_loop.simps) (simp add: Let_def)
    have merge: "merge_indexes ls = idx # merge_indexes (ls[fr := tl (ls ! fr)])"
      using Some p by (subst merge_indexes.simps) simp
    show ?thesis
    proof (cases ok)
      case False
      then have okF: "ok = False" by simp
      then show ?thesis
        using "1.IH"(2) [OF Some p [symmetric] refl refl refl m [symmetric] okF] m
        unfolding step merge by simp
    next
      case True
      show ?thesis
      proof (cases "cs_scenario (ordered ! idx) = None \<or> gate = None")
        case True
        then show ?thesis using m \<open>ok\<close> unfolding step merge by (auto split: option.splits)
      next
        case False
        then obtain ref g where g: "cs_scenario (ordered ! idx) = Some ref" "gate = Some g" by auto
        obtain pass r2 w2 where gr: "g ref r1 w = (pass, r2, w2)" by (metis prod_cases3)
        show ?thesis
        proof (cases pass)
          case False
          then have passF: "pass = False" by simp
          have okT: "ok = True" using \<open>ok\<close> by simp
          from False show ?thesis
            using "1.IH"(1) [OF Some p [symmetric] refl refl refl m [symmetric] okT refl g gr [symmetric] passF refl] m \<open>ok\<close> g gr
            unfolding step merge by simp
        qed (use m \<open>ok\<close> g gr in \<open>unfold step merge, simp\<close>)
      qed
    qed
  qed
qed

section \<open>The merge yields the candidates in order\<close>

lemma pick_next_none: "pick_next i ls best = None \<longleftrightarrow> best = None \<and> (\<forall>l \<in> set ls. l = [])"
  by (induction i ls best rule: pick_next.induct) (auto split: option.splits)

lemma pick_next_least:
  "pick_next i ls best = Some (idx, fr) \<Longrightarrow>
   (\<forall>l \<in> set ls. l \<noteq> [] \<longrightarrow> idx \<le> hd l) \<and> (\<forall>b. best = Some b \<longrightarrow> idx \<le> fst b)"
proof (induction i ls best rule: pick_next.induct)
  case (3 i idx' l ls best)
  then show ?case by (cases best) (auto split: if_splits)
qed auto

lemma mset_merge: "mset (merge_indexes ls) = sum_list (map mset ls)"
proof (induction ls rule: merge_indexes.induct)
  case (1 ls)
  show ?case
  proof (cases "pick_next 0 ls None")
    case None
    then have "\<forall>l \<in> set ls. l = []" by (simp add: pick_next_none)
    then have "sum_list (map mset ls) = {#}" by (induction ls) auto
    then show ?thesis using None by (subst merge_indexes.simps) simp
  next
    case (Some p)
    obtain idx fr where p: "p = (idx, fr)" by fastforce
    from pick_next_in [of 0 ls None idx fr] Some p obtain l where l: "fr < length ls" "ls ! fr = idx # l" by auto
    have "mset (merge_indexes ls) = add_mset idx (sum_list (map mset (ls[fr := l])))"
      using 1 [OF Some p [symmetric]] Some p l by (subst merge_indexes.simps) simp
    also have "\<dots> = sum_list (map mset ls)"
    proof -
      have "ls = take fr ls @ (idx # l) # drop (Suc fr) ls" using l by (metis id_take_nth_drop)
      then have "sum_list (map mset ls) =
          sum_list (map mset (take fr ls)) + (add_mset idx (mset l) + sum_list (map mset (drop (Suc fr) ls)))"
        by (metis (no_types) list.simps(9) map_append mset.simps(2) sum_list.Cons sum_list.append)
      then show ?thesis
        using l(1) by (simp add: upd_conv_take_nth_drop)
    qed
    finally show ?thesis .
  qed
qed

lemma in_sum_mset_lists: "x \<in># sum_list (map mset ls) \<longleftrightarrow> (\<exists>l \<in> set ls. x \<in> set l)"
  by (induction ls) auto

lemma sorted_merge: "(\<And>l. l \<in> set ls \<Longrightarrow> sorted l) \<Longrightarrow> sorted (merge_indexes ls)"
proof (induction ls rule: merge_indexes.induct)
  case (1 ls)
  show ?case
  proof (cases "pick_next 0 ls None")
    case None
    then show ?thesis by (subst merge_indexes.simps) simp
  next
    case (Some p)
    obtain idx fr where p: "p = (idx, fr)" by fastforce
    from pick_next_in [of 0 ls None idx fr] Some p obtain l where l: "fr < length ls" "ls ! fr = idx # l" by auto
    let ?ls = "ls[fr := tl (ls ! fr)]"
    have sub: "l' \<in> set ls \<or> l' = l" if "l' \<in> set ?ls" for l'
      using that l set_update_subset_insert [of ls fr l] by auto
    have sl: "sorted (idx # l)" using 1(2) l by (metis nth_mem)
    have "sorted (merge_indexes ?ls)"
      by (rule 1(1) [OF Some p [symmetric]]) (use sub 1(2) sl in auto)
    moreover have "idx \<le> x" if "x \<in> set (merge_indexes ?ls)" for x
    proof -
      have "x \<in># sum_list (map mset ?ls)" using that mset_merge [of ?ls] by (metis set_mset_mset)
      then obtain l' where l': "l' \<in> set ?ls" "x \<in> set l'" by (auto simp: in_sum_mset_lists)
      show ?thesis
      proof (cases "l' = l")
        case True
        then show ?thesis using sl l'(2) by simp
      next
        case False
        then have "l' \<in> set ls" using sub l'(1) by blast
        then have "idx \<le> hd l'" "sorted l'" using pick_next_least [of 0 ls None idx fr] Some p l'(2) 1(2) by auto
        then show ?thesis using l'(2) by (cases l') auto
      qed
    qed
    ultimately show ?thesis using Some p by (subst merge_indexes.simps) simp
  qed
qed

lemma merge_filters:
  assumes "\<And>l. l \<in> set ls \<Longrightarrow> sorted l" and "sum_list (map mset ls) = mset (filter P [0..<n])"
  shows "merge_indexes ls = filter P [0..<n]"
proof -
  have "sorted (filter P [0..<n])" by (rule sorted_wrt_filter) (simp add: strict_sorted_imp_sorted)
  then show ?thesis
    using sorted_merge [OF assms(1)] mset_merge [of ls] assms(2)
    by (metis mset_eq_setD properties_for_sort sorted_sort_id)
qed

section \<open>What the indexes hold\<close>

definition stub_key :: "'t compiled_stub \<Rightarrow> string" where
  "stub_key cs = index_key (if cs_method cs = [] then any_method else cs_method cs) (cs_url_literal cs)"

definition is_pattern :: "'t compiled_stub \<Rightarrow> bool" where
  "is_pattern cs \<longleftrightarrow> cs_url_kind cs \<notin> {URLExactFull, URLExactPath}"

lemma index_stub_fields:
  "sn_ordered (index_stub i cs s) = sn_ordered s" "sn_epoch (index_stub i cs s) = sn_epoch s"
  "sn_settings (index_stub i cs s) = sn_settings s"
  "sn_by_id (index_stub i cs s) = (sn_by_id s)(cs_id cs \<mapsto> cs)"
  "sn_by_full_url (index_stub i cs s) k =
     sn_by_full_url s k @ (if cs_url_kind cs = URLExactFull \<and> stub_key cs = k then [i] else [])"
  "sn_by_path (index_stub i cs s) k =
     sn_by_path s k @ (if cs_url_kind cs = URLExactPath \<and> stub_key cs = k then [i] else [])"
  "sn_patterns (index_stub i cs s) = sn_patterns s @ (if is_pattern cs then [i] else [])"
  "sn_scenarios (index_stub i cs s) =
     (case cs_scenario cs of None \<Rightarrow> sn_scenarios s | Some ref \<Rightarrow> record_scenario ref (sn_scenarios s))"
  by (cases "cs_url_kind cs";
      auto simp: index_stub_def Let_def stub_key_def append_index_def is_pattern_def split: option.splits)+

definition positions :: "('a \<Rightarrow> bool) \<Rightarrow> nat \<Rightarrow> 'a list \<Rightarrow> nat list" where
  "positions P i xs = map fst (filter (\<lambda>(j, x). P x) (enumerate i xs))"

lemma positions_simps [simp]:
  "positions P i [] = []" "positions P i (x # xs) = (if P x then [i] else []) @ positions P (Suc i) xs"
  by (simp_all add: positions_def)

lemma index_stubs_fields:
  "sn_ordered (index_stubs i css s) = sn_ordered s \<and> sn_epoch (index_stubs i css s) = sn_epoch s \<and>
   sn_settings (index_stubs i css s) = sn_settings s"
  "sn_by_full_url (index_stubs i css s) k =
     sn_by_full_url s k @ positions (\<lambda>cs. cs_url_kind cs = URLExactFull \<and> stub_key cs = k) i css"
  "sn_by_path (index_stubs i css s) k =
     sn_by_path s k @ positions (\<lambda>cs. cs_url_kind cs = URLExactPath \<and> stub_key cs = k) i css"
  "sn_patterns (index_stubs i css s) = sn_patterns s @ positions is_pattern i css"
  by (induction i css s rule: index_stubs.induct) (simp_all add: index_stub_fields)

lemma positions_filter: "positions P 0 xs = filter (\<lambda>j. P (xs ! j)) [0..<length xs]"
proof -
  have "positions P i xs = filter (\<lambda>j. P (xs ! (j - i))) [i..<i + length xs]" for i
  proof (induction xs arbitrary: i)
    case (Cons x xs)
    have up: "[i..<i + length (x # xs)] = i # [Suc i..<Suc i + length xs]"
      by (simp add: upt_conv_Cons del: upt_Suc)
    have "filter (\<lambda>j. P ((x # xs) ! (j - i))) [Suc i..<Suc i + length xs] =
        filter (\<lambda>j. P (xs ! (j - Suc i))) [Suc i..<Suc i + length xs]"
      by (rule filter_cong) (auto simp: nth_Cons' Suc_diff_Suc)
    then show ?case unfolding up using Cons [of "Suc i"] by (simp del: upt_Suc)
  qed simp
  from this [of 0] show ?thesis by simp
qed

section \<open>Serving from the indexes is scanning in order\<close>

text \<open>A stub the index lookups of a request reach.\<close>

definition candidate :: "string \<Rightarrow> string \<Rightarrow> string \<Rightarrow> 't compiled_stub \<Rightarrow> bool" where
  "candidate meth full path cs \<longleftrightarrow>
     is_pattern cs \<or>
     (cs_url_kind cs = URLExactFull \<and> stub_key cs \<in> {index_key meth full, index_key any_method full}) \<or>
     (cs_url_kind cs = URLExactPath \<and> stub_key cs \<in> {index_key meth path, index_key any_method path})"

lemma stub_key_reached:
  "matches_method cs m \<Longrightarrow> stub_key cs \<in> {index_key m (cs_url_literal cs), index_key any_method (cs_url_literal cs)}"
  by (cases "cs_method cs = []") (auto simp: stub_key_def matches_method_def)

lemma full_match_no_candidate:
  "\<not> candidate (pr_method r) (pr_full_url r) (pr_path r) cs \<Longrightarrow> full_match rd cs r = (False, r)"
proof -
  assume no: "\<not> candidate (pr_method r) (pr_full_url r) (pr_path r) cs"
  then have kind: "cs_url_kind cs = URLExactFull \<or> cs_url_kind cs = URLExactPath"
    by (auto simp: candidate_def is_pattern_def)
  then have "match_url cs r = (False, r)" if "matches_method cs (pr_method r)"
    using no stub_key_reached [OF that] by (auto simp: candidate_def match_url_def)
  then show ?thesis using kind by (auto simp: full_match_def Let_def)
qed

text \<open>What is asked of a gate: it leaves the facts of the request alone.\<close>

definition gate_ok :: "('x, 'p, 'e, 'w) scenario_gate option \<Rightarrow> bool" where
  "gate_ok gate \<longleftrightarrow>
     (\<forall>g ref r w ok r' w'. gate = Some g \<longrightarrow> g ref r w = (ok, r', w') \<longrightarrow> same_wire r r')"

lemma gate_okD: "gate_ok (Some g) \<Longrightarrow> g ref r w = (ok, r', w') \<Longrightarrow> same_wire r r'"
  unfolding gate_ok_def by blast

lemma gate_ok_None [simp]: "gate_ok None"
  by (simp add: gate_ok_def)

lemma scan_candidates:
  assumes "gate_ok gate" and "same_wire r0 r"
  shows "scan_stubs rd gate (filter (candidate (pr_method r0) (pr_full_url r0) (pr_path r0)) css) r w =
    scan_stubs rd gate css r w"
  using assms(2)
proof (induction css arbitrary: r w)
  case (Cons cs css)
  have next_ok: "scan_stubs rd gate (filter (candidate (pr_method r0) (pr_full_url r0) (pr_path r0)) css) r' w' =
      scan_stubs rd gate css r' w'" if "same_wire r r'" for r' w'
    using Cons.IH same_wire_trans [OF Cons.prems that] .
  show ?case
  proof (cases "candidate (pr_method r0) (pr_full_url r0) (pr_path r0) cs")
    case False
    then have "full_match rd cs r = (False, r)"
      using Cons.prems by (intro full_match_no_candidate) (simp add: same_wire_def)
    then show ?thesis using False next_ok by simp
  next
    case True
    obtain ok r1 where m: "full_match rd cs r = (ok, r1)" by fastforce
    with full_match_wire [of r rd cs] have w1: "same_wire r r1" by simp
    show ?thesis
    proof (cases "cs_scenario cs = None \<or> gate = None")
      case True
      then show ?thesis
        using m next_ok [OF w1] \<open>candidate _ _ _ cs\<close> by (cases ok) (auto split: option.splits)
    next
      case False
      then obtain ref g where g: "cs_scenario cs = Some ref" "gate = Some g" by auto
      obtain pass r2 w2 where gr: "g ref r1 w = (pass, r2, w2)" by (metis prod_cases3)
      have "same_wire r r2" using gate_okD assms(1) g(2) gr w1 same_wire_trans by metis
      then show ?thesis
        using m g gr next_ok w1 \<open>candidate _ _ _ cs\<close> by (cases ok; cases pass) simp_all
    qed
  qed
qed simp

lemma mset_five_filters:
  assumes "\<And>x. of_bool (P x) = (of_bool (A x) + of_bool (B x) + of_bool (C x) + of_bool (D x) + of_bool (E x) :: nat)"
  shows "mset (filter P xs) =
    mset (filter A xs) + (mset (filter B xs) + (mset (filter C xs) + (mset (filter D xs) + mset (filter E xs))))"
proof (induction xs)
  case (Cons x xs)
  then show ?case using assms [of x] by (auto simp: of_bool_def split: if_splits)
qed simp

lemma build_snapshot_ordered: "sn_ordered (build_snapshot stubs epoch) = sort_selection_order stubs"
  by (simp add: build_snapshot_def Let_def index_stubs_fields)

lemma build_snapshot_indexes:
  fixes stubs :: "'t compiled_stub list" and epoch :: u64 and s :: "('t, 'g) snapshot"
  defines "s \<equiv> build_snapshot stubs epoch"
  shows "sn_by_full_url s k =
      filter (\<lambda>j. cs_url_kind (sn_ordered s ! j) = URLExactFull \<and> stub_key (sn_ordered s ! j) = k) [0..<length (sn_ordered s)]"
    and "sn_by_path s k =
      filter (\<lambda>j. cs_url_kind (sn_ordered s ! j) = URLExactPath \<and> stub_key (sn_ordered s ! j) = k) [0..<length (sn_ordered s)]"
    and "sn_patterns s = filter (\<lambda>j. is_pattern (sn_ordered s ! j)) [0..<length (sn_ordered s)]"
  unfolding s_def build_snapshot_ordered
  by (simp_all add: build_snapshot_def Let_def index_stubs_fields empty_snapshot_def positions_filter)

lemma merge_candidates:
  fixes stubs :: "'t compiled_stub list" and epoch :: u64 and s :: "('t, 'g) snapshot"
  assumes "meth \<noteq> any_method" and s: "s = build_snapshot stubs epoch"
  shows "merge_indexes [sn_by_full_url s (index_key meth full), sn_by_full_url s (index_key any_method full),
      sn_by_path s (index_key meth path), sn_by_path s (index_key any_method path), sn_patterns s] =
    filter (\<lambda>j. candidate meth full path (sn_ordered s ! j)) [0..<length (sn_ordered s)]"
proof -
  have diff: "index_key meth u \<noteq> index_key any_method u" for u
    using assms(1) by (simp add: index_key_def)
  have sorted: "sorted (filter P [0..<n])" for P n
    by (rule sorted_wrt_filter) (simp add: strict_sorted_imp_sorted)
  have sum5: "sum_list (map mset [a, b, c, d, e]) = mset a + (mset b + (mset c + (mset d + mset e)))" for a b c d e :: "nat list"
    by simp
  show ?thesis
    unfolding s build_snapshot_indexes
  proof (rule merge_filters, goal_cases)
    case (1 l)
    then show ?case using sorted by auto
  next
    case 2
    show ?case
      unfolding sum5
      by (rule mset_five_filters [symmetric]) (use diff diff [THEN not_sym] in \<open>auto simp: candidate_def is_pattern_def\<close>)
  qed
qed

lemma match_snapshot_scan:
  assumes s: "s = build_snapshot stubs epoch" and "pr_method r \<noteq> any_method" and "gate_ok gate"
  shows "\<exists>k. drop_seen (match_snapshot rd s gate r w) =
    scan_stubs rd gate (sort_selection_order stubs) (r\<lparr>pr_key_buf := k\<rparr>) w"
proof -
  let ?o = "sort_selection_order stubs"
  let ?r = "r\<lparr>pr_key_buf := index_key any_method (pr_path r)\<rparr>"
  have o: "sn_ordered s = ?o" unfolding s by (rule build_snapshot_ordered)
  show ?thesis
  proof (cases "?o = []")
    case True
    then show ?thesis by (auto simp: match_snapshot_def o intro!: exI [of _ "pr_key_buf r"])
  next
    case False
    let ?c = "candidate (pr_method r) (pr_full_url r) (pr_path r)"
    have "drop_seen (match_snapshot rd s gate r w) =
        scan_stubs rd gate (map (\<lambda>i. ?o ! i) (filter (\<lambda>j. ?c (?o ! j)) [0..<length ?o])) ?r w"
      using False merge_candidates [OF assms(2) s, of "pr_full_url r" "pr_path r"]
      by (simp add: match_snapshot_def o index_lookup_def Let_def match_loop_scan)
    also have "map (\<lambda>i. ?o ! i) (filter (\<lambda>j. ?c (?o ! j)) [0..<length ?o]) = filter ?c ?o"
      using filter_map [of ?c "\<lambda>i. ?o ! i" "[0..<length ?o]"] by (simp add: comp_def map_nth)
    also have "scan_stubs rd gate (filter ?c ?o) ?r w = scan_stubs rd gate ?o ?r w"
      by (rule scan_candidates [OF assms(3)]) simp
    finally show ?thesis by blast
  qed
qed

section \<open>The stub that wins\<close>

text \<open>When a stub matches, stated on the request itself.\<close>

definition bound_request :: "'t compiled_stub \<Rightarrow> ('x, 'p, 'e) parsed_request \<Rightarrow> ('x, 'p, 'e) parsed_request" where
  "bound_request cs r =
     (if cs_url_kind cs = URLTemplate
      then r\<lparr>pr_path_vars := map_of (rev (snd (template_match (cs_path_template cs) (pr_path r))))\<rparr> else r)"

definition stub_matches :: "('x, 'p) reader \<Rightarrow> 't compiled_stub \<Rightarrow> ('x, 'p, 'e) parsed_request \<Rightarrow> bool" where
  "stub_matches rd cs r \<longleftrightarrow>
     matches_method cs (pr_method r) \<and> fst (match_url cs r) \<and> auth_ok rd cs r \<and>
     (\<forall>(f, m) \<in> set (criteria_before_auth cs @ criteria_after_auth cs).
        matches rd m (field_subject rd f (bound_request cs r)))"

lemma check_criteria_ok:
  "request_inv rd r \<Longrightarrow>
   fst (check_criteria rd cs r) = (\<forall>(f, m) \<in> set cs. matches rd m (field_subject rd f r)) \<and>
   request_inv rd (snd (check_criteria rd cs r)) \<and> same_request r (snd (check_criteria rd cs r))"
proof (induction cs arbitrary: r)
  case (Cons c cs)
  obtain f m where c: "c = (f, m)" by fastforce
  obtain s r1 where r1: "read_field rd f r = (s, r1)" by fastforce
  from read_field_ok [OF Cons.prems, of f] r1
  have ok: "s = field_subject rd f r" "request_inv rd r1" "same_request r r1" by simp_all
  from Cons.IH [OF ok(2)] ok c r1 show ?case
    by (auto simp: field_subject_same [OF ok(3)] intro: same_request_trans)
qed simp

lemma foldl_bind_path_vars:
  "foldl (\<lambda>r (n, v). bind_path_var n v r) r bs = r\<lparr>pr_path_vars := pr_path_vars r ++ map_of (rev bs)\<rparr>"
proof (induction bs arbitrary: r)
  case (Cons b bs)
  obtain n v where b: "b = (n, v)" by fastforce
  have "((pr_path_vars r)(n \<mapsto> v)) ++ map_of (rev bs) = pr_path_vars r ++ map_of (rev (b # bs))"
    by (rule ext) (simp add: b map_add_def split: option.splits)
  then show ?case unfolding foldl.simps b prod.case Cons.IH by (simp add: bind_path_var_def)
qed simp

lemma match_url_bound:
  "fst (match_url cs r) \<Longrightarrow>
   match_url cs (if cs_url_kind cs = URLTemplate then clear_path_vars r else r) = (True, bound_request cs r)"
  by (cases "cs_url_kind cs")
    (auto simp: match_url_def bound_request_def clear_path_vars_def foldl_bind_path_vars split: prod.splits if_splits)

lemma match_url_cleared:
  "fst (match_url cs (if cs_url_kind cs = URLTemplate then clear_path_vars r else r)) = fst (match_url cs r)"
  by (cases "cs_url_kind cs") (auto simp: match_url_def clear_path_vars_def split: prod.splits)

lemma no_criteria:
  "\<not> has_criteria_beyond_url cs \<Longrightarrow>
   criteria_before_auth cs = [] \<and> criteria_after_auth cs = [] \<and> cs_basic_auth cs = []"
  by (simp add: has_criteria_beyond_url_def criteria_before_auth_def criteria_after_auth_def
      optional_criterion_def key_criteria_def)

lemma full_match_ok:
  assumes "request_inv rd r"
  shows "fst (full_match rd cs r) = stub_matches rd cs r \<and> request_inv rd (snd (full_match rd cs r))"
proof (cases "matches_method cs (pr_method r) \<and> fst (match_url cs r)")
  case False
  then show ?thesis
    using assms match_url_cleared [of cs r]
      match_url_wire(2) [of rd cs "if cs_url_kind cs = URLTemplate then clear_path_vars r else r"]
    by (auto simp: full_match_def stub_matches_def Let_def split: prod.splits bool.splits)
next
  case True
  let ?b = "bound_request cs r"
  have inv: "request_inv rd ?b" using assms by (simp add: bound_request_def request_inv_def)
  have auth: "auth_ok rd cs r' = auth_ok rd cs r" if "same_request ?b r'" for r'
    using that by (simp add: auth_ok_def same_request_def bound_request_def split: if_splits)
  obtain ok1 r1 where c1: "check_criteria rd (criteria_before_auth cs) ?b = (ok1, r1)" by fastforce
  with check_criteria_ok [OF inv, of "criteria_before_auth cs"]
  have ok1: "ok1 = (\<forall>(f, m) \<in> set (criteria_before_auth cs). matches rd m (field_subject rd f ?b))"
    "request_inv rd r1" "same_request ?b r1" by simp_all
  obtain ok2 r2 where c2: "check_criteria rd (criteria_after_auth cs) r1 = (ok2, r2)" by fastforce
  with check_criteria_ok [OF ok1(2), of "criteria_after_auth cs"]
  have ok2: "ok2 = (\<forall>(f, m) \<in> set (criteria_after_auth cs). matches rd m (field_subject rd f ?b))" "request_inv rd r2"
    by (simp_all add: field_subject_same [OF ok1(3)])
  show ?thesis
  proof (cases "has_criteria_beyond_url cs")
    case False
    then show ?thesis
      using True no_criteria [OF False] inv
      by (simp add: full_match_def stub_matches_def match_url_bound auth_ok_def Let_def)
  next
    case True
    have "full_match rd cs r =
       (if \<not> ok1 then (False, r1) else if \<not> auth_ok rd cs r1 then (False, r1) else (ok2, r2))"
      using True \<open>matches_method cs _ \<and> _\<close> c1 c2
      by (simp add: full_match_def match_url_bound Let_def split: bool.splits)
    then show ?thesis
      using ok1 ok2 auth [OF ok1(3)] \<open>matches_method cs _ \<and> _\<close> by (auto simp: stub_matches_def)
  qed
qed

text \<open>What the compiler guarantees: path-variable criteria only beside a template.\<close>

definition stub_ok :: "'t compiled_stub \<Rightarrow> bool" where
  "stub_ok cs \<longleftrightarrow> (cs_url_kind cs \<noteq> URLTemplate \<longrightarrow> cs_path_params cs = [])"

lemma field_subject_wire:
  "same_wire r r' \<Longrightarrow> (\<forall>n. f \<noteq> FPathVar n) \<or> pr_path_vars r' = pr_path_vars r \<Longrightarrow>
   field_subject rd f r' = field_subject rd f r"
  by (cases f) (auto simp: field_subject_def same_wire_def)

lemma criteria_no_path_var:
  "cs_path_params cs = [] \<Longrightarrow> (f, m) \<in> set (criteria_before_auth cs @ criteria_after_auth cs) \<Longrightarrow> f \<noteq> FPathVar n"
  by (auto simp: criteria_before_auth_def criteria_after_auth_def optional_criterion_def key_criteria_def
      split: option.splits)

lemma match_url_wire_eq: "same_wire r r' \<Longrightarrow> fst (match_url cs r') = fst (match_url cs r)"
  by (cases "cs_url_kind cs") (auto simp: match_url_def same_wire_def split: prod.splits)

lemma stub_matches_wire:
  assumes "stub_ok cs" and "same_wire r r'"
  shows "stub_matches rd cs r' = stub_matches rd cs r"
proof -
  have same: "same_wire (bound_request cs r) (bound_request cs r')"
    using assms(2) by (simp add: bound_request_def same_wire_def)
  have each: "field_subject rd f (bound_request cs r') = field_subject rd f (bound_request cs r)"
    if "(f, m) \<in> set (criteria_before_auth cs @ criteria_after_auth cs)" for f m
  proof (cases "cs_url_kind cs = URLTemplate")
    case True
    then show ?thesis
      using assms(2) by (intro field_subject_wire [OF same]) (simp add: bound_request_def same_wire_def)
  next
    case False
    then have "cs_path_params cs = []" using assms(1) by (simp add: stub_ok_def)
    from criteria_no_path_var [OF this that] show ?thesis by (intro field_subject_wire [OF same]) blast
  qed
  have "(\<forall>(f, m) \<in> set (criteria_before_auth cs @ criteria_after_auth cs).
        matches rd m (field_subject rd f (bound_request cs r'))) =
     (\<forall>(f, m) \<in> set (criteria_before_auth cs @ criteria_after_auth cs).
        matches rd m (field_subject rd f (bound_request cs r)))"
    by (rule ball_cong [OF refl]) (use each in \<open>auto simp del: set_append\<close>)
  moreover have "auth_ok rd cs r' = auth_ok rd cs r" "pr_method r' = pr_method r"
    using assms(2) by (simp_all add: auth_ok_def same_wire_def)
  ultimately show ?thesis
    unfolding stub_matches_def by (simp only: match_url_wire_eq [OF assms(2)])
qed

lemma scan_ungated:
  assumes "request_inv rd r" and "\<forall>cs \<in> set css. stub_ok cs"
  shows "fst (scan_stubs rd None css r w) = find (\<lambda>cs. stub_matches rd cs r) css"
  using assms
proof (induction css arbitrary: r)
  case (Cons cs css)
  obtain ok r1 where m: "full_match rd cs r = (ok, r1)" by fastforce
  with full_match_ok [OF Cons.prems(1), of cs] full_match_wire [of r rd cs]
  have 1: "ok = stub_matches rd cs r" "request_inv rd r1" "same_wire r r1" by simp_all
  have "find (\<lambda>cs. stub_matches rd cs r1) css = find (\<lambda>cs. stub_matches rd cs r) css"
    using Cons.prems(2) stub_matches_wire [OF _ 1(3), of _ rd] by (intro find_cong) auto
  then show ?case using m 1 Cons.IH [OF 1(2)] Cons.prems(2) by (cases ok) (auto split: option.splits)
qed simp

text \<open>The selection order as one integer: priorities first, then the newest sequence.\<close>

definition selection_key :: "'t compiled_stub \<Rightarrow> int" where
  "selection_key cs = cs_priority cs * 2 ^ 64 - uint (cs_seq cs)"

lemma selection_less_key: "selection_less a b \<longleftrightarrow> selection_key a < selection_key b"
proof -
  have s: "0 \<le> uint (cs_seq c)" "uint (cs_seq c) < 2 ^ 64" for c :: "'t compiled_stub"
    using uint_lt2p [of "cs_seq c"] by simp_all
  have "selection_key a < selection_key b" if "cs_priority a < cs_priority b"
  proof -
    have "(cs_priority a + 1) * 2 ^ 64 \<le> cs_priority b * 2 ^ 64" using that by (intro mult_right_mono) auto
    then have "cs_priority a * 2 ^ 64 + 2 ^ 64 \<le> cs_priority b * 2 ^ 64" by (simp add: algebra_simps)
    then show ?thesis
      unfolding selection_key_def using s(1) [of a] s(2) [of b] by linarith
  qed
  moreover have "selection_key b < selection_key a" if "cs_priority b < cs_priority a"
  proof -
    have "(cs_priority b + 1) * 2 ^ 64 \<le> cs_priority a * 2 ^ 64" using that by (intro mult_right_mono) auto
    then have "cs_priority b * 2 ^ 64 + 2 ^ 64 \<le> cs_priority a * 2 ^ 64" by (simp add: algebra_simps)
    then show ?thesis
      unfolding selection_key_def using s(1) [of b] s(2) [of a] by linarith
  qed
  moreover have "selection_less a b \<longleftrightarrow> selection_key a < selection_key b" if "cs_priority a = cs_priority b"
    using that by (simp add: selection_less_def selection_key_def word_less_def)
  ultimately show ?thesis
    by (cases "cs_priority a" "cs_priority b" rule: linorder_cases) (auto simp: selection_less_def)
qed

lemma sort_selection_order_key: "sort_selection_order stubs = sort_key selection_key stubs"
  unfolding sort_selection_order_def by (rule sort_stable_key) (rule selection_less_key)

lemma find_sorted:
  assumes "sorted (map k xs)"
  shows "(case find P xs of
     None \<Rightarrow> \<forall>x \<in> set xs. \<not> P x
   | Some x \<Rightarrow> x \<in> set xs \<and> P x \<and> (\<forall>y \<in> set xs. P y \<longrightarrow> k x \<le> (k y :: int)))"
  using assms by (induction xs) (auto split: option.splits)

lemma match_snapshot_winner:
  assumes s: "s = build_snapshot stubs epoch" and "pr_method r \<noteq> any_method" and "request_inv rd r"
    and "\<forall>cs \<in> set stubs. stub_ok cs"
  shows "(case fst (match_snapshot rd s None r w) of
     None \<Rightarrow> \<forall>cs \<in> set stubs. \<not> stub_matches rd cs r
   | Some cs \<Rightarrow> cs \<in> set stubs \<and> stub_matches rd cs r \<and>
       (\<forall>cs' \<in> set stubs. stub_matches rd cs' r \<longrightarrow> \<not> selection_less cs' cs))"
proof -
  have set: "set (sort_selection_order stubs) = set stubs" by (simp add: sort_selection_order_key)
  obtain k where "drop_seen (match_snapshot rd s None r w) =
      scan_stubs rd None (sort_selection_order stubs) (r\<lparr>pr_key_buf := k\<rparr>) w"
    using match_snapshot_scan [OF s assms(2) gate_ok_None, of rd w] by blast
  then have "fst (match_snapshot rd s None r w) =
      fst (scan_stubs rd None (sort_selection_order stubs) (r\<lparr>pr_key_buf := k\<rparr>) w)"
    by (cases "match_snapshot rd s None r w") (metis drop_seen_simps fst_conv)
  also have "\<dots> = find (\<lambda>cs. stub_matches rd cs (r\<lparr>pr_key_buf := k\<rparr>)) (sort_selection_order stubs)"
    by (rule scan_ungated) (use assms set in \<open>simp_all add: request_inv_def\<close>)
  also have "\<dots> = find (\<lambda>cs. stub_matches rd cs r) (sort_selection_order stubs)"
  proof (intro find_cong)
    fix cs assume "cs \<in> set (sort_selection_order stubs)"
    then have "stub_ok cs" using assms(4) set by blast
    then show "stub_matches rd cs (r\<lparr>pr_key_buf := k\<rparr>) = stub_matches rd cs r"
      by (rule stub_matches_wire) simp
  qed simp
  finally have f: "fst (match_snapshot rd s None r w) = find (\<lambda>cs. stub_matches rd cs r) (sort_selection_order stubs)" .
  have "sorted (map selection_key (sort_selection_order stubs))" by (simp add: sort_selection_order_key)
  from find_sorted [OF this, of "\<lambda>cs. stub_matches rd cs r"] show ?thesis
    unfolding f set by (auto simp: selection_less_key split: option.splits)
qed

section \<open>Path variables of the winner\<close>

lemma check_criteria_vars:
  "request_inv rd r \<Longrightarrow> pr_path_vars (snd (check_criteria rd cs r)) = pr_path_vars r"
  using check_criteria_ok [of rd r cs] by (simp add: same_request_def)

lemma full_match_vars:
  assumes "request_inv rd r"
  shows "pr_path_vars (snd (full_match rd cs r)) =
     (if cs_url_kind cs = URLTemplate \<and> matches_method cs (pr_method r)
      then if fst (match_url cs r) then map_of (rev (snd (template_match (cs_path_template cs) (pr_path r))))
           else pr_path_vars (snd (match_url cs (clear_path_vars r)))
      else pr_path_vars r)"
proof (cases "matches_method cs (pr_method r)")
  case True
  let ?r = "if cs_url_kind cs = URLTemplate then clear_path_vars r else r"
  show ?thesis
  proof (cases "fst (match_url cs r)")
    case False
    obtain r1 where m: "match_url cs ?r = (False, r1)"
      using False match_url_cleared [of cs r] by (metis prod.collapse)
    then have "full_match rd cs r = (False, r1)" using True by (simp add: full_match_def Let_def)
    moreover have "r1 = snd (match_url cs ?r)" using m by simp
    moreover have "pr_path_vars (snd (match_url cs r)) = pr_path_vars r" if "cs_url_kind cs \<noteq> URLTemplate"
      using that by (cases "cs_url_kind cs") (simp_all add: match_url_def)
    ultimately show ?thesis using True False by simp
  next
    case url: True
    let ?b = "bound_request cs r"
    have inv: "request_inv rd ?b" using assms by (simp add: bound_request_def request_inv_def)
    have m: "match_url cs ?r = (True, ?b)" by (rule match_url_bound [OF url])
    have b: "pr_path_vars ?b = (if cs_url_kind cs = URLTemplate
        then map_of (rev (snd (template_match (cs_path_template cs) (pr_path r)))) else pr_path_vars r)"
      by (simp add: bound_request_def)
    obtain ok1 r1 where c1: "check_criteria rd (criteria_before_auth cs) ?b = (ok1, r1)" by fastforce
    with check_criteria_ok [OF inv, of "criteria_before_auth cs"] check_criteria_vars [OF inv]
    have r1: "request_inv rd r1" "pr_path_vars r1 = pr_path_vars ?b" by (metis snd_conv)+
    obtain ok2 r2 where c2: "check_criteria rd (criteria_after_auth cs) r1 = (ok2, r2)" by fastforce
    with check_criteria_vars [OF r1(1)] r1(2) have "pr_path_vars r2 = pr_path_vars ?b" by (metis snd_conv)
    then have "pr_path_vars (snd (full_match rd cs r)) = pr_path_vars ?b"
      using True m c1 c2 r1(2) by (simp add: full_match_def Let_def split: bool.splits)
    then show ?thesis using True url b by simp
  qed
qed (simp add: full_match_def)

text \<open>
  A template candidate that fails on a criterion leaves its bindings behind, and a winner that is
  not a template does not clear them: the response template of \<open>b\<close> reads the variables of \<open>a\<close>.
\<close>

theorem stale_path_variables:
  assumes "request_inv rd r" and "cs_url_kind a = URLTemplate" and "matches_method a (pr_method r)"
    and "fst (match_url a r)" and "\<not> stub_matches rd a r"
    and "cs_url_kind b \<noteq> URLTemplate" and "stub_ok b" and "stub_matches rd b r"
  shows "\<exists>r'. scan_stubs rd None [a, b] r w = (Some b, r', w) \<and>
     pr_path_vars r' = map_of (rev (snd (template_match (cs_path_template a) (pr_path r))))"
proof -
  obtain oka r1 where fa: "full_match rd a r = (oka, r1)" by fastforce
  have 1: "oka = False" "request_inv rd r1" "same_wire r r1"
    "pr_path_vars r1 = map_of (rev (snd (template_match (cs_path_template a) (pr_path r))))"
    using full_match_ok [OF assms(1), of a] full_match_vars [OF assms(1), of a] full_match_wire [of r rd a] assms fa
    by simp_all
  obtain okb r2 where fb: "full_match rd b r1 = (okb, r2)" by fastforce
  have "okb" "pr_path_vars r2 = pr_path_vars r1"
    using full_match_ok [OF 1(2), of b] full_match_vars [OF 1(2), of b] stub_matches_wire [OF assms(7) 1(3)] assms fb
    by simp_all
  then show ?thesis using fa fb 1 by (auto split: option.splits)
qed

section \<open>The gate's interface\<close>

text \<open>What selection relies on of the predicate that decides scenario-bound stubs.\<close>

locale wire_keeping_gate =
  fixes gate :: "('x, 'p, 'e, 'w) scenario_gate"
  assumes keeps_wire: "gate ref r w = (ok, r', w') \<Longrightarrow> same_wire r r'"
begin

lemma is_ok: "gate_ok (Some gate)"
  by (simp add: gate_ok_def keeps_wire)

lemma serves_scan:
  assumes "s = build_snapshot stubs epoch" and "pr_method r \<noteq> any_method"
  shows "\<exists>k. drop_seen (match_snapshot rd s (Some gate) r w) =
    scan_stubs rd (Some gate) (sort_selection_order stubs) (r\<lparr>pr_key_buf := k\<rparr>) w"
  by (rule match_snapshot_scan [OF assms is_ok])

end

section \<open>Properties\<close>

text \<open>
  C11. Merging the index lists lazily serves what scanning all stubs in selection order serves: the
  same stub, and the same request and scenario world afterwards, for every gate that leaves the
  facts of the request alone.
\<close>

theorem index_merge_is_scan:
  assumes "s = build_snapshot stubs epoch" and "pr_method r \<noteq> any_method" and "gate_ok gate"
  shows "\<exists>k. drop_seen (match_snapshot rd s gate r w) =
    scan_stubs rd gate (sort_selection_order stubs) (r\<lparr>pr_key_buf := k\<rparr>) w"
  by (rule match_snapshot_scan [OF assms])

theorem index_merge_is_scan_witness:
  "\<forall>(rd :: (unit, unit) reader) (cs :: unit compiled_stub) epoch.
   \<exists>k. drop_seen (match_snapshot rd (build_snapshot [cs] epoch :: (unit, unit) snapshot)
          (Some (\<lambda>ref r (w :: nat). (False, r, Suc w))) (new_request :: (unit, unit, unit) parsed_request) 0) =
     scan_stubs rd (Some (\<lambda>ref r w. (False, r, Suc w))) (sort_selection_order [cs]) (new_request\<lparr>pr_key_buf := k\<rparr>) 0"
  by (intro allI index_merge_is_scan [OF refl]) (simp_all add: new_request_def any_method_def gate_ok_def)

text \<open>
  C12. The served stub matches the request on its own and no other matching stub has a smaller
  priority number, or the same and a newer sequence; nothing is served only when nothing matches.
\<close>

theorem newest_of_best_priority_wins:
  assumes "s = build_snapshot stubs epoch" and "pr_method r \<noteq> any_method" and "request_inv rd r"
    and "\<forall>cs \<in> set stubs. stub_ok cs"
  shows "(case fst (match_snapshot rd s None r w) of
     None \<Rightarrow> \<forall>cs \<in> set stubs. \<not> stub_matches rd cs r
   | Some cs \<Rightarrow> cs \<in> set stubs \<and> stub_matches rd cs r \<and>
       (\<forall>cs' \<in> set stubs. stub_matches rd cs' r \<longrightarrow> \<not> selection_less cs' cs))"
  by (rule match_snapshot_winner [OF assms])

definition catch_all_stub :: "u64 \<Rightarrow> unit compiled_stub" where
  "catch_all_stub sq =
     \<lparr>cs_raw = [], cs_id = [], cs_name = [], cs_priority = 5, cs_persistent = True, cs_metadata = [], cs_seq = sq,
      cs_method = [], cs_url_kind = URLAny, cs_url_literal = [], cs_url_regex = \<lparr>pm_match = (\<lambda>_. False), pm_source = []\<rparr>,
      cs_path_template = \<lparr>pt_source = [], pt_segments = [], pt_vars = [], pt_literal_prefix = []\<rparr>,
      cs_literal_prefix = [], cs_host = None, cs_port = None, cs_scheme = None, cs_headers = [], cs_query = [],
      cs_cookies = [], cs_form = [], cs_path_params = [], cs_basic_auth = [], cs_body_matchers = [], cs_scenario = None,
      cs_response =
        \<lparr>cr_status = 200, cr_status_message = [], cr_has_status_message = False, cr_headers = [], cr_body = [],
         cr_body_file_name = [], cr_body_file_missing = False, cr_fixed_delay = 0, cr_fixed_delay_set = False,
         cr_delay = \<lparr>dd_kind = DelayNone, dd_lower = 0, dd_upper = 0, dd_median = 0, dd_sigma = 0\<rparr>,
         cr_dribble = None, cr_fault = [], cr_templated = False, cr_body_template = None, cr_header_templates = [],
         cr_transformer_parameters = []\<rparr>\<rparr>"

lemma request_inv_new: "request_inv rd new_request"
  by (simp add: request_inv_def new_request_def new_body_def)

lemma catch_all_matches: "stub_matches rd (catch_all_stub sq) r" "stub_ok (catch_all_stub sq)"
  by (simp_all add: stub_matches_def catch_all_stub_def matches_method_def match_url_def auth_ok_def stub_ok_def
      criteria_before_auth_def criteria_after_auth_def optional_criterion_def key_criteria_def)

theorem newest_of_best_priority_wins_witness:
  "\<forall>rd :: (unit, unit) reader.
   fst (match_snapshot rd (build_snapshot [catch_all_stub 1, catch_all_stub 2] 0 :: (unit, unit) snapshot)
     None (new_request :: (unit, unit, unit) parsed_request) ()) = Some (catch_all_stub 2)"
proof
  fix rd :: "(unit, unit) reader"
  let ?m = "fst (match_snapshot rd (build_snapshot [catch_all_stub 1, catch_all_stub 2] 0 :: (unit, unit) snapshot)
     None (new_request :: (unit, unit, unit) parsed_request) ())"
  have "case ?m of None \<Rightarrow> \<forall>cs \<in> set [catch_all_stub 1, catch_all_stub 2]. \<not> stub_matches rd cs (new_request :: (unit, unit, unit) parsed_request)
   | Some cs \<Rightarrow> cs \<in> set [catch_all_stub 1, catch_all_stub 2] \<and> stub_matches rd cs (new_request :: (unit, unit, unit) parsed_request) \<and>
       (\<forall>cs' \<in> set [catch_all_stub 1, catch_all_stub 2].
          stub_matches rd cs' (new_request :: (unit, unit, unit) parsed_request) \<longrightarrow> \<not> selection_less cs' cs)"
    by (rule newest_of_best_priority_wins [OF refl])
      (simp_all add: request_inv_new catch_all_matches, simp add: new_request_def any_method_def)
  moreover have "selection_less (catch_all_stub 2) (catch_all_stub 1)"
    by (simp add: selection_less_def catch_all_stub_def)
  ultimately show "?m = Some (catch_all_stub 2)"
    by (auto simp: catch_all_matches split: option.splits)
qed

end
