(* ===== verification/Store.thy ===== *)
theory Store
  imports Mock_Prelude "HOL-Library.AList"
begin

text \<open>
  \<^verbatim>\<open>internal/store/store.go\<close>: the documents, the errors and the three interfaces the rest of the
  program is written against. The interfaces are locales: what a driver promises, stated over its
  observable content, and what follows for every client of it.
\<close>

section \<open>Documents and errors\<close>

text \<open>Times are nanoseconds since the Unix epoch; the zero time is \<open>None\<close>.\<close>

type_synonym time = int

definition schema_version :: int where "schema_version = 1"

text \<open>
  An error is the sentinel it wraps. \<^verbatim>\<open>ErrReadOnly\<close> wraps \<^verbatim>\<open>ErrUnavailable\<close>, so \<^verbatim>\<open>errors.Is\<close> finds both
  in it; \<open>StoreError\<close> is any other error, and \<open>NilMapWrite\<close> the panic of a write to a nil map.
\<close>

datatype store_error =
    ErrNotFound
  | ErrUnavailable string
  | ErrReadOnly
  | ErrCASConflict string
  | StoreError string
  | NilMapWrite

definition is_not_found :: "store_error \<Rightarrow> bool" where
  "is_not_found e = (e = ErrNotFound)"

definition is_unavailable :: "store_error \<Rightarrow> bool" where
  "is_unavailable e = (case e of ErrUnavailable _ \<Rightarrow> True | ErrReadOnly \<Rightarrow> True | _ \<Rightarrow> False)"

definition is_cas_conflict :: "store_error \<Rightarrow> bool" where
  "is_cas_conflict e = (case e of ErrCASConflict _ \<Rightarrow> True | _ \<Rightarrow> False)"

record stored_stub =
  ss_id :: string
  ss_schema_version :: int
  ss_seq :: u64
  ss_persistent :: bool
  ss_created_at :: time
  ss_mapping :: bytes

record stored_file =
  sf_name :: string
  sf_data :: bytes

record stored_settings =
  st_schema_version :: int
  st_updated_at :: time
  st_settings :: bytes

record scenario_state =
  sc_state :: string
  sc_updated_at :: time

type_synonym cas = u64

record journal_entry =
  je_id :: string
  je_ts :: int
  je_pod :: string
  je_data :: bytes

record journal_query =
  jq_since :: "time option"
  jq_limit :: int

text \<open>
  \<^verbatim>\<open>encoding/json\<close> over a map of raw members: decoding gives the members by name, \<open>None\<close> for the
  document \<^verbatim>\<open>null\<close>, which decodes to a nil map.
\<close>

record raw_codec =
  rc_unmarshal :: "bytes \<Rightarrow> string + (string \<rightharpoonup> bytes) option"
  rc_marshal :: "(string \<rightharpoonup> bytes) \<Rightarrow> store_error + bytes"

definition persistent_mapping :: "raw_codec \<Rightarrow> bytes \<Rightarrow> store_error + bytes" where
  "persistent_mapping jc mapping =
     (case rc_unmarshal jc mapping of
        Inl err \<Rightarrow> Inl (StoreError (''stub mapping is not a JSON object: '' @ err))
      | Inr None \<Rightarrow> Inl NilMapWrite
      | Inr (Some doc) \<Rightarrow> rc_marshal jc (doc(''persistent'' \<mapsto> ''true'')))"

section \<open>The stub store\<close>

text \<open>
  \<open>view s\<close> is what a client can read of a store: the current mappings by id. The laws are those of
  the interface's comments, for operations that return no error.
\<close>

type_synonym ('s, 'a) store_op = "'s \<Rightarrow> (store_error + 'a) \<times> 's"

locale stub_store =
  fixes ok :: "'s \<Rightarrow> bool"
    and view :: "'s \<Rightarrow> string \<rightharpoonup> stored_stub"
    and current_epoch :: "'s \<Rightarrow> u64"
    and durable :: "bytes \<Rightarrow> store_error + bytes"
    and get_stub :: "string \<Rightarrow> ('s, stored_stub) store_op"
    and put_stub :: "stored_stub \<Rightarrow> ('s, unit) store_op"
    and delete_stub :: "string \<Rightarrow> ('s, unit) store_op"
    and delete_all_stubs :: "('s, unit) store_op"
    and delete_ephemeral_stubs :: "('s, unit) store_op"
    and mark_all_persistent :: "('s, unit) store_op"
    and load_all :: "('s, stored_stub list \<times> stored_file list \<times> u64) store_op"
    and bump_epoch :: "('s, u64) store_op"
  assumes get_law: "ok s \<Longrightarrow> get_stub i s = (Inr x, s') \<Longrightarrow> view s i = Some x \<and> ok s' \<and> view s' = view s"
    and get_absent_law: "ok s \<Longrightarrow> get_stub i s = (Inl ErrNotFound, s') \<Longrightarrow> view s i = None \<and> ok s' \<and> view s' = view s"
    and put_law: "ok s \<Longrightarrow> put_stub x s = (Inr (), s') \<Longrightarrow> ok s' \<and> view s' = (view s)(ss_id x \<mapsto> x)"
    and delete_law: "ok s \<Longrightarrow> delete_stub i s = (Inr (), s') \<Longrightarrow> ok s' \<and> view s' = (view s)(i := None)"
    and delete_all_law: "ok s \<Longrightarrow> delete_all_stubs s = (Inr (), s') \<Longrightarrow> ok s' \<and> view s' = Map.empty"
    and delete_ephemeral_law: "ok s \<Longrightarrow> delete_ephemeral_stubs s = (Inr (), s') \<Longrightarrow>
          ok s' \<and> view s' = (\<lambda>i. case view s i of None \<Rightarrow> None | Some x \<Rightarrow> if ss_persistent x then Some x else None)"
    and mark_law: "ok s \<Longrightarrow> mark_all_persistent s = (Inr (), s') \<Longrightarrow> view s i = Some x \<Longrightarrow>
          ok s' \<and> view s' i = Some (if ss_persistent x then x
            else case durable (ss_mapping x) of Inl _ \<Rightarrow> x | Inr m \<Rightarrow> x\<lparr>ss_mapping := m, ss_persistent := True\<rparr>)"
    and load_law: "ok s \<Longrightarrow> load_all s = (Inr (stubs, files, e), s') \<Longrightarrow>
          ok s' \<and> view s' = view s \<and> set stubs = ran (view s) \<and> e = current_epoch s \<and> current_epoch s' = e"
    and bump_law: "ok s \<Longrightarrow> bump_epoch s = (Inr e, s') \<Longrightarrow>
          ok s' \<and> view s' = view s \<and> e = current_epoch s + 1 \<and> current_epoch s' = e"
begin

text \<open>A write is read back, and seen by the next reload.\<close>

lemma put_then_get:
  assumes "ok s" and "put_stub x s = (Inr (), s1)" and "get_stub (ss_id x) s1 = (Inr y, s2)"
  shows "y = x"
  using get_law [of s1 "ss_id x" y s2] put_law [OF assms(1,2)] assms(3) by simp

lemma put_then_load:
  assumes "ok s" and "put_stub x s = (Inr (), s1)" and "load_all s1 = (Inr (stubs, files, e), s2)"
  shows "x \<in> set stubs"
  using load_law [of s1 stubs files e s2] put_law [OF assms(1,2)] assms(3) by (auto simp: ran_def)

text \<open>\<^verbatim>\<open>POST mappings/save\<close> then \<^verbatim>\<open>POST mappings/reset\<close> loses no mapping whose document is an object.\<close>

lemma save_then_reset:
  assumes "ok s" and "mark_all_persistent s = (Inr (), s1)" and "delete_ephemeral_stubs s1 = (Inr (), s2)"
    and "view s i = Some x" and "\<And>e. durable (ss_mapping x) \<noteq> Inl e"
  shows "\<exists>y. view s2 i = Some y \<and> ss_seq y = ss_seq x \<and> ss_persistent y"
proof -
  from mark_law [OF assms(1,2,4)] have "ok s1"
    and "view s1 i = Some (if ss_persistent x then x
      else case durable (ss_mapping x) of Inl _ \<Rightarrow> x | Inr m \<Rightarrow> x\<lparr>ss_mapping := m, ss_persistent := True\<rparr>)" by blast+
  with delete_ephemeral_law [OF _ assms(3)] assms(5) show ?thesis
    by (cases "durable (ss_mapping x)") auto
qed

text \<open>\<^verbatim>\<open>POST mappings/reset\<close> keeps exactly the durable mappings.\<close>

lemma reset_keeps_durable:
  assumes "ok s" and "delete_ephemeral_stubs s = (Inr (), s1)" and "load_all s1 = (Inr (stubs, files, e), s2)"
  shows "set stubs = {x \<in> ran (view s). ss_persistent x}"
  using load_law [of s1 stubs files e s2] delete_ephemeral_law [OF assms(1,2)] assms(3)
  by (auto simp: ran_def split: option.splits if_splits)

end

section \<open>The scenario store\<close>

text \<open>
  \<open>doc s n\<close> is the stored document of scenario \<open>n\<close> with its token, \<open>used s c\<close> says that token \<open>c\<close> was
  given to a document before, and \<open>room s\<close> is how many tokens are left. What a write of \<open>n\<close> does:
  it stores the state under a token no document ever had.
\<close>

definition writes ::
    "('s \<Rightarrow> string \<rightharpoonup> scenario_state \<times> cas) \<Rightarrow> ('s \<Rightarrow> cas \<Rightarrow> bool) \<Rightarrow> ('s \<Rightarrow> nat) \<Rightarrow>
     's \<Rightarrow> string \<Rightarrow> scenario_state \<Rightarrow> 's \<Rightarrow> bool" where
  "writes doc used room s n st s' \<longleftrightarrow>
     (\<exists>c. \<not> used s c \<and> doc s' = (doc s)(n \<mapsto> (st, c)) \<and> (\<forall>c'. used s' c' \<longleftrightarrow> used s c' \<or> c' = c) \<and>
          room s = Suc (room s'))"

locale scenario_store =
  fixes ok :: "'s \<Rightarrow> bool"
    and doc :: "'s \<Rightarrow> string \<rightharpoonup> scenario_state \<times> cas"
    and used :: "'s \<Rightarrow> cas \<Rightarrow> bool"
    and room :: "'s \<Rightarrow> nat"
    and get_scenario :: "string \<Rightarrow> ('s, scenario_state \<times> cas) store_op"
    and insert_scenario :: "string \<Rightarrow> scenario_state \<Rightarrow> ('s, unit) store_op"
    and replace_scenario :: "string \<Rightarrow> scenario_state \<Rightarrow> cas \<Rightarrow> ('s, unit) store_op"
    and upsert_scenario :: "string \<Rightarrow> scenario_state \<Rightarrow> ('s, unit) store_op"
    and delete_all_scenarios :: "('s, unit) store_op"
  assumes doc_used: "ok s \<Longrightarrow> doc s n = Some (st, c) \<Longrightarrow> used s c"
    and get_law: "get_scenario n s = (r, s') \<Longrightarrow> s' = s \<and>
          (case r of Inr d \<Rightarrow> doc s n = Some d | Inl e \<Rightarrow> is_not_found e \<longrightarrow> doc s n = None)"
    and insert_law: "ok s \<Longrightarrow> 0 < room s \<Longrightarrow> insert_scenario n st s = (w, s') \<Longrightarrow>
          ok s' \<and> (case w of Inl _ \<Rightarrow> s' = s | Inr _ \<Rightarrow> doc s n = None \<and> writes doc used room s n st s')"
    and replace_law: "ok s \<Longrightarrow> 0 < room s \<Longrightarrow> replace_scenario n st c s = (w, s') \<Longrightarrow>
          ok s' \<and> (case w of Inl _ \<Rightarrow> s' = s
            | Inr _ \<Rightarrow> (\<exists>st0. doc s n = Some (st0, c)) \<and> writes doc used room s n st s')"
    and upsert_law: "ok s \<Longrightarrow> 0 < room s \<Longrightarrow> upsert_scenario n st s = (w, s') \<Longrightarrow>
          ok s' \<and> (case w of Inl _ \<Rightarrow> s' = s | Inr _ \<Rightarrow> writes doc used room s n st s')"
    and delete_law: "ok s \<Longrightarrow> delete_all_scenarios s = (w, s') \<Longrightarrow>
          ok s' \<and> (case w of Inl _ \<Rightarrow> s' = s
            | Inr _ \<Rightarrow> doc s' = Map.empty \<and> used s' = used s \<and> room s' = room s)"
begin

text \<open>
  A token seen on a document stands for that document for as long as it is stored: no later write
  reuses it. \<open>observed\<close> is what a client may rely on between its read and its write.
\<close>

definition observed :: "'s \<Rightarrow> string \<Rightarrow> scenario_state \<Rightarrow> cas \<Rightarrow> bool" where
  "observed s n st c \<longleftrightarrow> used s c \<and> (\<forall>st'. doc s n = Some (st', c) \<longrightarrow> st' = st)"

lemma get_observed: "ok s \<Longrightarrow> get_scenario n s = (Inr (st, c), s') \<Longrightarrow> observed s' n st c"
  using get_law [of n s] doc_used by (fastforce simp: observed_def)

lemma writes_observed:
  assumes "observed s n st c" and "writes doc used room s m new s'"
  shows "observed s' n st c"
  using assms by (auto simp: observed_def writes_def split: if_splits)

lemma observed_insert:
  "observed s n st c \<Longrightarrow> ok s \<Longrightarrow> 0 < room s \<Longrightarrow> insert_scenario m new s = (w, s') \<Longrightarrow> observed s' n st c"
  using insert_law [of s m new w s'] writes_observed by (cases w) auto

lemma observed_replace:
  "observed s n st c \<Longrightarrow> ok s \<Longrightarrow> 0 < room s \<Longrightarrow> replace_scenario m new k s = (w, s') \<Longrightarrow> observed s' n st c"
  using replace_law [of s m new k w s'] writes_observed by (cases w) auto

lemma observed_upsert:
  "observed s n st c \<Longrightarrow> ok s \<Longrightarrow> 0 < room s \<Longrightarrow> upsert_scenario m new s = (w, s') \<Longrightarrow> observed s' n st c"
  using upsert_law [of s m new w s'] writes_observed by (cases w) auto

lemma observed_delete:
  "observed s n st c \<Longrightarrow> ok s \<Longrightarrow> delete_all_scenarios s = (w, s') \<Longrightarrow> observed s' n st c"
  using delete_law [of s w s'] by (cases w) (auto simp: observed_def)

lemmas observed_keeps = observed_insert observed_replace observed_upsert observed_delete

text \<open>A replace that succeeds replaces the document that was read.\<close>

lemma replace_observed:
  assumes "observed s n st c" and "ok s" and "0 < room s" and "replace_scenario n new c s = (Inr (), s')"
  shows "\<exists>c'. doc s n = Some (st, c) \<and> doc s' n = Some (new, c')"
  using replace_law [OF assms(2-4)] assms(1) by (auto simp: observed_def writes_def)

end

text \<open>A driver that is always reachable also says exactly when its operations succeed.\<close>

locale reachable_scenario_store = scenario_store +
  assumes get_exact: "get_scenario n s = (case doc s n of None \<Rightarrow> Inl ErrNotFound | Some d \<Rightarrow> Inr d, s)"
    and insert_exact: "doc s n = None \<Longrightarrow> fst (insert_scenario n st s) = Inr ()"
    and replace_exact: "doc s n = Some (st0, c) \<Longrightarrow> fst (replace_scenario n st c s) = Inr ()"
    and upsert_exact: "fst (upsert_scenario n st s) = Inr ()"

section \<open>The journal store\<close>

locale journal_store =
  fixes ok :: "'s \<Rightarrow> bool"
    and entries :: "'s \<Rightarrow> string \<rightharpoonup> journal_entry"
    and append_journal :: "journal_entry list \<Rightarrow> ('s, unit) store_op"
    and query_journal :: "journal_query \<Rightarrow> ('s, journal_entry list) store_op"
    and delete_journal_entry :: "string \<Rightarrow> ('s, unit) store_op"
    and clear_journal :: "('s, unit) store_op"
  assumes append_law: "ok s \<Longrightarrow> append_journal es s = (Inr (), s') \<Longrightarrow>
          ok s' \<and> entries s' = entries s ++ map_of (rev (map (\<lambda>e. (je_id e, e)) es))"
    and query_law: "ok s \<Longrightarrow> query_journal q s = (Inr es, s') \<Longrightarrow> s' = s \<and>
          sorted (rev (map je_ts es)) \<and> distinct (map je_id es) \<and> set es \<subseteq> ran (entries s)"
    and query_all_law: "ok s \<Longrightarrow> query_journal \<lparr>jq_since = None, jq_limit = 0\<rparr> s = (Inr es, s') \<Longrightarrow>
          set es = {e \<in> ran (entries s). 0 \<le> je_ts e}"
    and delete_entry_law: "ok s \<Longrightarrow> delete_journal_entry i s = (Inr (), s') \<Longrightarrow>
          ok s' \<and> entries s' = (entries s)(i := None)"
    and clear_law: "ok s \<Longrightarrow> clear_journal s = (Inr (), s') \<Longrightarrow> ok s' \<and> entries s' = Map.empty"
begin

text \<open>A batch with ids of its own is found whole by the next unbounded query.\<close>

lemma append_then_query:
  assumes "ok s" and "append_journal es s = (Inr (), s1)" and "distinct (map je_id es)" and "\<forall>e \<in> set es. 0 \<le> je_ts e"
    and "query_journal \<lparr>jq_since = None, jq_limit = 0\<rparr> s1 = (Inr out, s2)"
  shows "set es \<subseteq> set out"
proof
  fix e assume e: "e \<in> set es"
  have "map_of (rev (map (\<lambda>e. (je_id e, e)) es)) (je_id e) = Some e"
    using assms(3) e by (intro map_of_is_SomeI) (auto simp: comp_def rev_map [symmetric])
  then have "entries s1 (je_id e) = Some e" by (simp add: append_law [OF assms(1,2)])
  then have "e \<in> ran (entries s1)" by (rule ranI)
  then show "e \<in> set out" using query_all_law [OF _ assms(5)] append_law [OF assms(1,2)] assms(4) e by simp
qed

end

end
