(* ===== verification/Memory_Store.thy ===== *)
theory Memory_Store
  imports Store
begin

text \<open>
  \<^verbatim>\<open>internal/store/memory/memory.go\<close>: the in-process driver. A Go map is an association list with
  distinct keys whose order stands for the iteration order, which Go leaves open: whatever a
  theorem says of one order it says of all. The mutex makes every operation atomic, so each is one
  function on the state; the clock is a field that \<open>mem_set_clock\<close> moves.
\<close>

section \<open>State\<close>

record mem_entry =
  me_stub :: stored_stub
  me_expires_at :: "time option"

record mem_scenario =
  ms_state :: scenario_state
  ms_cas :: cas

record mem_store =
  mem_ephemeral_ttl :: int
  mem_now :: time
  mem_stubs :: "(string \<times> mem_entry) list"
  mem_files :: "(string \<times> bytes) list"
  mem_scenarios :: "(string \<times> mem_scenario) list"
  mem_journal :: "(string \<times> journal_entry) list"
  mem_settings :: "stored_settings option"
  mem_epoch :: u64
  mem_seq :: u64
  mem_cas_seq :: u64

definition mem_new :: "int \<Rightarrow> time \<Rightarrow> mem_store" where
  "mem_new ttl now =
     \<lparr>mem_ephemeral_ttl = ttl, mem_now = now, mem_stubs = [], mem_files = [], mem_scenarios = [], mem_journal = [],
      mem_settings = None, mem_epoch = 0, mem_seq = 0, mem_cas_seq = 0\<rparr>"

definition mem_set_clock :: "time \<Rightarrow> mem_store \<Rightarrow> mem_store" where
  "mem_set_clock now s = s\<lparr>mem_now := now\<rparr>"

section \<open>Stubs\<close>

definition mem_expired :: "mem_store \<Rightarrow> mem_entry \<Rightarrow> bool" where
  "mem_expired s e = (case me_expires_at e of None \<Rightarrow> False | Some t \<Rightarrow> t < mem_now s)"

lemma mem_expired_cong: "mem_now s' = mem_now s \<Longrightarrow> mem_expired s' = mem_expired s"
  by (rule ext) (simp add: mem_expired_def cong: option.case_cong)

definition mem_expire :: "mem_store \<Rightarrow> mem_store" where
  "mem_expire s =
     (if mem_ephemeral_ttl s \<le> 0 then s
      else s\<lparr>mem_stubs := filter (\<lambda>(i, e). \<not> mem_expired s e) (mem_stubs s)\<rparr>)"

definition mem_load_all :: "(mem_store, stored_stub list \<times> stored_file list \<times> u64) store_op" where
  "mem_load_all s =
     (let s = mem_expire s;
          stubs = sort_stable (\<lambda>a b. ss_seq a < ss_seq b) (map (\<lambda>(i, e). me_stub e) (mem_stubs s));
          files = sort_stable (\<lambda>a b. string_less (sf_name a) (sf_name b))
                    (map (\<lambda>(n, d). \<lparr>sf_name = n, sf_data = d\<rparr>) (mem_files s))
      in (Inr (stubs, files, mem_epoch s), s))"

definition mem_put_stub :: "stored_stub \<Rightarrow> (mem_store, unit) store_op" where
  "mem_put_stub x s =
     (if ss_id x = [] then (Inl (StoreError ''memory store: stub has no id''), s)
      else
        let e = \<lparr>me_stub = x, me_expires_at = None\<rparr>;
            e = (if \<not> ss_persistent x \<and> 0 < mem_ephemeral_ttl s
                 then e\<lparr>me_expires_at := Some (mem_now s + mem_ephemeral_ttl s)\<rparr> else e)
        in (Inr (), s\<lparr>mem_stubs := AList.update (ss_id x) e (mem_stubs s)\<rparr>))"

definition mem_get_stub :: "string \<Rightarrow> (mem_store, stored_stub) store_op" where
  "mem_get_stub i s =
     (case map_of (mem_stubs s) i of
        None \<Rightarrow> (Inl ErrNotFound, s)
      | Some e \<Rightarrow> if mem_expired s e then (Inl ErrNotFound, s) else (Inr (me_stub e), s))"

definition mem_delete_stub :: "string \<Rightarrow> (mem_store, unit) store_op" where
  "mem_delete_stub i s = (Inr (), s\<lparr>mem_stubs := AList.delete i (mem_stubs s)\<rparr>)"

definition mem_delete_all_stubs :: "(mem_store, unit) store_op" where
  "mem_delete_all_stubs s = (Inr (), s\<lparr>mem_stubs := []\<rparr>)"

definition mem_delete_ephemeral_stubs :: "(mem_store, unit) store_op" where
  "mem_delete_ephemeral_stubs s =
     (Inr (), s\<lparr>mem_stubs := filter (\<lambda>(i, e). ss_persistent (me_stub e)) (mem_stubs s)\<rparr>)"

text \<open>One round of the loop in \<^verbatim>\<open>MarkAllPersistent\<close>; the panic of a nil map ends it.\<close>

definition mark_entry :: "raw_codec \<Rightarrow> mem_entry \<Rightarrow> store_error + mem_entry" where
  "mark_entry jc e =
     (if ss_persistent (me_stub e) then Inr e
      else case persistent_mapping jc (ss_mapping (me_stub e)) of
             Inl NilMapWrite \<Rightarrow> Inl NilMapWrite
           | Inl err \<Rightarrow> Inr e
           | Inr m \<Rightarrow> Inr (e\<lparr>me_stub := (me_stub e)\<lparr>ss_mapping := m, ss_persistent := True\<rparr>, me_expires_at := None\<rparr>))"

fun mark_entries :: "raw_codec \<Rightarrow> (string \<times> mem_entry) list \<Rightarrow> (store_error + unit) \<times> (string \<times> mem_entry) list" where
  "mark_entries jc [] = (Inr (), [])"
| "mark_entries jc ((i, e) # es) =
     (case mark_entry jc e of
        Inl err \<Rightarrow> (Inl err, (i, e) # es)
      | Inr e \<Rightarrow> (case mark_entries jc es of (r, es) \<Rightarrow> (r, (i, e) # es)))"

definition mem_mark_all_persistent :: "raw_codec \<Rightarrow> (mem_store, unit) store_op" where
  "mem_mark_all_persistent jc s =
     (case mark_entries jc (mem_stubs s) of (r, es) \<Rightarrow> (r, s\<lparr>mem_stubs := es\<rparr>))"

section \<open>Files, counters and settings\<close>

definition mem_put_file :: "stored_file \<Rightarrow> (mem_store, unit) store_op" where
  "mem_put_file f s = (Inr (), s\<lparr>mem_files := AList.update (sf_name f) (sf_data f) (mem_files s)\<rparr>)"

definition mem_get_file :: "string \<Rightarrow> (mem_store, stored_file) store_op" where
  "mem_get_file n s =
     (case map_of (mem_files s) n of
        None \<Rightarrow> (Inl ErrNotFound, s)
      | Some d \<Rightarrow> (Inr \<lparr>sf_name = n, sf_data = d\<rparr>, s))"

definition mem_delete_file :: "string \<Rightarrow> (mem_store, unit) store_op" where
  "mem_delete_file n s = (Inr (), s\<lparr>mem_files := AList.delete n (mem_files s)\<rparr>)"

definition mem_list_files :: "(mem_store, string list) store_op" where
  "mem_list_files s = (Inr (sort_stable string_less (map fst (mem_files s))), s)"

definition mem_next_seq :: "(mem_store, u64) store_op" where
  "mem_next_seq s = (let s = s\<lparr>mem_seq := mem_seq s + 1\<rparr> in (Inr (mem_seq s), s))"

definition mem_get_epoch :: "(mem_store, u64) store_op" where
  "mem_get_epoch s = (Inr (mem_epoch s), s)"

definition mem_bump_epoch :: "(mem_store, u64) store_op" where
  "mem_bump_epoch s = (let s = s\<lparr>mem_epoch := mem_epoch s + 1\<rparr> in (Inr (mem_epoch s), s))"

definition mem_get_settings :: "(mem_store, stored_settings) store_op" where
  "mem_get_settings s =
     (case mem_settings s of None \<Rightarrow> (Inl ErrNotFound, s) | Some x \<Rightarrow> (Inr x, s))"

definition mem_put_settings :: "stored_settings \<Rightarrow> (mem_store, unit) store_op" where
  "mem_put_settings x s = (Inr (), s\<lparr>mem_settings := Some x\<rparr>)"

definition mem_close :: "(mem_store, unit) store_op" where
  "mem_close s = (Inr (), s)"

section \<open>Scenarios\<close>

definition store_scenario :: "string \<Rightarrow> scenario_state \<Rightarrow> mem_store \<Rightarrow> mem_store" where
  "store_scenario n st s =
     (let s = s\<lparr>mem_cas_seq := mem_cas_seq s + 1\<rparr>
      in s\<lparr>mem_scenarios := AList.update n \<lparr>ms_state = st, ms_cas = mem_cas_seq s\<rparr> (mem_scenarios s)\<rparr>)"

definition mem_get_scenario :: "string \<Rightarrow> (mem_store, scenario_state \<times> cas) store_op" where
  "mem_get_scenario n s =
     (case map_of (mem_scenarios s) n of
        None \<Rightarrow> (Inl ErrNotFound, s)
      | Some e \<Rightarrow> (Inr (ms_state e, ms_cas e), s))"

definition mem_insert_scenario :: "string \<Rightarrow> scenario_state \<Rightarrow> (mem_store, unit) store_op" where
  "mem_insert_scenario n st s =
     (if map_of (mem_scenarios s) n \<noteq> None then (Inl (ErrCASConflict n), s)
      else (Inr (), store_scenario n st s))"

definition mem_replace_scenario :: "string \<Rightarrow> scenario_state \<Rightarrow> cas \<Rightarrow> (mem_store, unit) store_op" where
  "mem_replace_scenario n st c s =
     (case map_of (mem_scenarios s) n of
        None \<Rightarrow> (Inl ErrNotFound, s)
      | Some e \<Rightarrow> if ms_cas e \<noteq> c then (Inl (ErrCASConflict n), s) else (Inr (), store_scenario n st s))"

definition mem_upsert_scenario :: "string \<Rightarrow> scenario_state \<Rightarrow> (mem_store, unit) store_op" where
  "mem_upsert_scenario n st s = (Inr (), store_scenario n st s)"

definition mem_delete_all_scenarios :: "(mem_store, unit) store_op" where
  "mem_delete_all_scenarios s = (Inr (), s\<lparr>mem_scenarios := []\<rparr>)"

definition mem_list_scenario_states :: "(mem_store, (string \<times> scenario_state) list) store_op" where
  "mem_list_scenario_states s = (Inr (map (\<lambda>(n, e). (n, ms_state e)) (mem_scenarios s)), s)"

section \<open>Journal\<close>

definition mem_append_journal :: "journal_entry list \<Rightarrow> (mem_store, unit) store_op" where
  "mem_append_journal es s =
     (Inr (), s\<lparr>mem_journal := foldl (\<lambda>j e. AList.update (je_id e) e j) (mem_journal s) es\<rparr>)"

definition journal_newer :: "journal_entry \<Rightarrow> journal_entry \<Rightarrow> bool" where
  "journal_newer a b =
     (if je_ts a \<noteq> je_ts b then je_ts b < je_ts a else string_less (je_id b) (je_id a))"

definition mem_query_journal :: "journal_query \<Rightarrow> (mem_store, journal_entry list) store_op" where
  "mem_query_journal q s =
     (let since = (case jq_since q of None \<Rightarrow> 0 | Some t \<Rightarrow> t div 1000000);
          out = sort_stable journal_newer (filter (\<lambda>e. since \<le> je_ts e) (map snd (mem_journal s)))
      in (Inr (if 0 < jq_limit q \<and> jq_limit q < int (length out) then take (nat (jq_limit q)) out else out), s))"

definition mem_get_journal_entry :: "string \<Rightarrow> (mem_store, journal_entry) store_op" where
  "mem_get_journal_entry i s =
     (case map_of (mem_journal s) i of None \<Rightarrow> (Inl ErrNotFound, s) | Some e \<Rightarrow> (Inr e, s))"

definition mem_delete_journal_entry :: "string \<Rightarrow> (mem_store, unit) store_op" where
  "mem_delete_journal_entry i s = (Inr (), s\<lparr>mem_journal := AList.delete i (mem_journal s)\<rparr>)"

definition mem_clear_journal :: "(mem_store, unit) store_op" where
  "mem_clear_journal s = (Inr (), s\<lparr>mem_journal := []\<rparr>)"

section \<open>The invariant\<close>

definition mem_ok :: "mem_store \<Rightarrow> bool" where
  "mem_ok s \<longleftrightarrow>
     distinct (map fst (mem_stubs s)) \<and> distinct (map fst (mem_files s)) \<and>
     distinct (map fst (mem_scenarios s)) \<and> distinct (map fst (mem_journal s)) \<and>
     (\<forall>(i, e) \<in> set (mem_stubs s). ss_id (me_stub e) = i \<and> i \<noteq> [] \<and>
        (me_expires_at e \<noteq> None \<longrightarrow> 0 < mem_ephemeral_ttl s \<and> \<not> ss_persistent (me_stub e))) \<and>
     (\<forall>(i, e) \<in> set (mem_journal s). je_id e = i)"

definition mem_tokens_ok :: "mem_store \<Rightarrow> bool" where
  "mem_tokens_ok s \<longleftrightarrow> (\<forall>(n, e) \<in> set (mem_scenarios s). ms_cas e \<le> mem_cas_seq s)"

lemma mem_ok_new: "mem_ok (mem_new ttl now)"
  by (simp add: mem_ok_def mem_new_def)

lemma set_update_sub: "set (AList.update k v al) \<subseteq> insert (k, v) (set al)"
  by (induction al) auto

lemma set_delete_sub: "set (AList.delete k al) \<subseteq> set al"
  by (auto simp: AList.delete_eq)

lemma distinct_filter_fst: "distinct (map fst al) \<Longrightarrow> distinct (map fst (filter P al))"
  by (induction al) auto

lemma mem_ok_set_clock: "mem_ok s \<Longrightarrow> mem_ok (mem_set_clock now s)"
  by (simp add: mem_ok_def mem_set_clock_def)

lemma mem_ok_expire: "mem_ok s \<Longrightarrow> mem_ok (mem_expire s)"
  by (auto simp: mem_ok_def mem_expire_def distinct_filter_fst)

lemma mem_ok_put: "mem_ok s \<Longrightarrow> mem_ok (snd (mem_put_stub x s))"
  using set_update_sub [of "ss_id x" _ "mem_stubs s"]
  by (fastforce simp: mem_ok_def mem_put_stub_def Let_def distinct_update)

lemma mem_ok_delete: "mem_ok s \<Longrightarrow> mem_ok (snd (mem_delete_stub i s))"
  using set_delete_sub [of i "mem_stubs s"]
  by (fastforce simp: mem_ok_def mem_delete_stub_def distinct_delete)

lemma mem_ok_delete_all: "mem_ok s \<Longrightarrow> mem_ok (snd (mem_delete_all_stubs s))"
  by (simp add: mem_ok_def mem_delete_all_stubs_def)

lemma mem_ok_delete_ephemeral: "mem_ok s \<Longrightarrow> mem_ok (snd (mem_delete_ephemeral_stubs s))"
  by (auto simp: mem_ok_def mem_delete_ephemeral_stubs_def distinct_filter_fst)

lemma mark_entries_keys: "map fst (snd (mark_entries jc es)) = map fst es"
  by (induction jc es rule: mark_entries.induct) (auto split: sum.splits prod.splits)

lemma mark_entries_each:
  "(i, e') \<in> set (snd (mark_entries jc es)) \<Longrightarrow>
   \<exists>e. (i, e) \<in> set es \<and> (e' = e \<or> mark_entry jc e = Inr e')"
  by (induction jc es rule: mark_entries.induct) (auto split: sum.splits prod.splits)

lemma mark_entry_inv:
  "mark_entry jc e = Inr e' \<Longrightarrow> ss_id (me_stub e') = ss_id (me_stub e) \<and>
     (e' = e \<or> ss_persistent (me_stub e') \<and> me_expires_at e' = None)"
  by (auto simp: mark_entry_def split: if_splits sum.splits store_error.splits)

lemma mem_ok_mark: "mem_ok s \<Longrightarrow> mem_ok (snd (mem_mark_all_persistent jc s))"
proof -
  assume ok: "mem_ok s"
  let ?s = "snd (mem_mark_all_persistent jc s)"
  have stubs: "mem_stubs ?s = snd (mark_entries jc (mem_stubs s))" and same:
    "mem_files ?s = mem_files s" "mem_scenarios ?s = mem_scenarios s" "mem_journal ?s = mem_journal s"
    "mem_cas_seq ?s = mem_cas_seq s" "mem_ephemeral_ttl ?s = mem_ephemeral_ttl s"
    by (simp_all add: mem_mark_all_persistent_def split: prod.splits)
  have "ss_id (me_stub e') = i \<and> i \<noteq> [] \<and>
      (me_expires_at e' \<noteq> None \<longrightarrow> 0 < mem_ephemeral_ttl s \<and> \<not> ss_persistent (me_stub e'))"
    if "(i, e') \<in> set (mem_stubs ?s)" for i e'
  proof -
    from mark_entries_each [of i e' jc] that obtain e where e: "(i, e) \<in> set (mem_stubs s)"
      "e' = e \<or> mark_entry jc e = Inr e'" unfolding stubs by blast
    then show ?thesis using ok mark_entry_inv [of jc e e'] unfolding mem_ok_def by fastforce
  qed
  with ok show ?thesis unfolding mem_ok_def same by (auto simp: stubs mark_entries_keys)
qed

lemma mem_ok_files: "mem_ok s \<Longrightarrow> mem_ok (snd (mem_put_file f s)) \<and> mem_ok (snd (mem_delete_file n s))"
  by (auto simp: mem_ok_def mem_put_file_def mem_delete_file_def distinct_update distinct_delete)

lemma mem_ok_counters:
  "mem_ok s \<Longrightarrow> mem_ok (snd (mem_next_seq s)) \<and> mem_ok (snd (mem_bump_epoch s)) \<and> mem_ok (snd (mem_put_settings x s))"
  by (simp add: mem_ok_def mem_next_seq_def mem_bump_epoch_def mem_put_settings_def Let_def)

text \<open>How many scenario writes are left before the token counter wraps around.\<close>

definition mem_room :: "mem_store \<Rightarrow> nat" where
  "mem_room s = 2 ^ 64 - 1 - unat (mem_cas_seq s)"

lemma cas_seq_step:
  fixes c :: u64
  assumes "0 < 2 ^ 64 - 1 - unat c"
  shows "unat (c + 1) = Suc (unat c)"
  using assms by (simp add: unat_word_ariths)

lemma mem_ok_store_scenario: "mem_ok s \<Longrightarrow> mem_ok (store_scenario n st s)"
  by (auto simp: mem_ok_def store_scenario_def Let_def distinct_update)

lemma mem_tokens_store_scenario: "mem_tokens_ok s \<Longrightarrow> 0 < mem_room s \<Longrightarrow> mem_tokens_ok (store_scenario n st s)"
proof -
  assume ok: "mem_tokens_ok s" and room: "0 < mem_room s"
  have le: "mem_cas_seq s \<le> mem_cas_seq s + 1"
    using cas_seq_step [of "mem_cas_seq s"] room by (simp add: mem_room_def word_le_nat_alt)
  have "ms_cas e \<le> mem_cas_seq s + 1"
    if "(m, e) \<in> set (AList.update n \<lparr>ms_state = st, ms_cas = mem_cas_seq s + 1\<rparr> (mem_scenarios s))" for m e
    using that set_update_sub [of n "\<lparr>ms_state = st, ms_cas = mem_cas_seq s + 1\<rparr>" "mem_scenarios s"] ok le
    unfolding mem_tokens_ok_def by fastforce
  then show ?thesis by (auto simp: mem_tokens_ok_def store_scenario_def Let_def)
qed

lemma mem_ok_scenarios:
  "mem_ok s \<Longrightarrow> mem_ok (snd (mem_insert_scenario n st s)) \<and> mem_ok (snd (mem_replace_scenario n st c s)) \<and>
     mem_ok (snd (mem_upsert_scenario n st s)) \<and> mem_ok (snd (mem_delete_all_scenarios s))"
proof -
  assume ok: "mem_ok s"
  then have "mem_ok (s\<lparr>mem_scenarios := []\<rparr>)" by (simp add: mem_ok_def)
  with ok mem_ok_store_scenario show ?thesis
    by (auto simp: mem_insert_scenario_def mem_replace_scenario_def mem_upsert_scenario_def
        mem_delete_all_scenarios_def split: option.splits)
qed

lemma mem_ok_append: "mem_ok s \<Longrightarrow> mem_ok (snd (mem_append_journal es s))"
proof -
  assume ok: "mem_ok s"
  have "distinct (map fst (foldl (\<lambda>j e. AList.update (je_id e) e j) j es)) \<and>
      (\<forall>(i, e) \<in> set (foldl (\<lambda>j e. AList.update (je_id e) e j) j es). je_id e = i)"
    if "distinct (map fst j)" "\<forall>(i, e) \<in> set j. je_id e = i" for j
    using that
  proof (induction es arbitrary: j)
    case (Cons e es)
    have "\<forall>(i, e') \<in> set (AList.update (je_id e) e j). je_id e' = i"
      using Cons.prems(2) set_update_sub [of "je_id e" e j] by blast
    then show ?case using Cons.IH [OF distinct_update [OF Cons.prems(1)]] by simp
  qed simp
  from this [of "mem_journal s"] ok show ?thesis by (simp add: mem_ok_def mem_append_journal_def)
qed

lemma mem_ok_journal:
  "mem_ok s \<Longrightarrow> mem_ok (snd (mem_delete_journal_entry i s)) \<and> mem_ok (snd (mem_clear_journal s))"
  using set_delete_sub [of i "mem_journal s"]
  by (fastforce simp: mem_ok_def mem_delete_journal_entry_def mem_clear_journal_def distinct_delete)

lemmas mem_ok_keeps = mem_ok_set_clock mem_ok_expire mem_ok_put mem_ok_delete mem_ok_delete_all mem_ok_delete_ephemeral
  mem_ok_mark mem_ok_files mem_ok_counters mem_ok_scenarios mem_ok_append mem_ok_journal

text \<open>Every way a driver's state changes: its operations and the passing of time.\<close>

inductive mem_step :: "raw_codec \<Rightarrow> mem_store \<Rightarrow> mem_store \<Rightarrow> bool" for jc where
  clock: "mem_now s \<le> now \<Longrightarrow> mem_step jc s (mem_set_clock now s)"
| load_all: "mem_step jc s (snd (mem_load_all s))"
| put_stub: "mem_step jc s (snd (mem_put_stub x s))"
| delete_stub: "mem_step jc s (snd (mem_delete_stub i s))"
| delete_all_stubs: "mem_step jc s (snd (mem_delete_all_stubs s))"
| delete_ephemeral_stubs: "mem_step jc s (snd (mem_delete_ephemeral_stubs s))"
| mark_all_persistent: "mem_step jc s (snd (mem_mark_all_persistent jc s))"
| put_file: "mem_step jc s (snd (mem_put_file f s))"
| delete_file: "mem_step jc s (snd (mem_delete_file n s))"
| next_seq: "mem_step jc s (snd (mem_next_seq s))"
| bump_epoch: "mem_step jc s (snd (mem_bump_epoch s))"
| put_settings: "mem_step jc s (snd (mem_put_settings g s))"
| insert_scenario: "mem_step jc s (snd (mem_insert_scenario n st s))"
| replace_scenario: "mem_step jc s (snd (mem_replace_scenario n st c s))"
| upsert_scenario: "mem_step jc s (snd (mem_upsert_scenario n st s))"
| delete_all_scenarios: "mem_step jc s (snd (mem_delete_all_scenarios s))"
| append_journal: "mem_step jc s (snd (mem_append_journal es s))"
| delete_journal_entry: "mem_step jc s (snd (mem_delete_journal_entry i s))"
| clear_journal: "mem_step jc s (snd (mem_clear_journal s))"

lemma mem_load_all_state: "snd (mem_load_all s) = mem_expire s"
  by (simp add: mem_load_all_def Let_def)

lemma mem_step_ok: "mem_step jc s s' \<Longrightarrow> mem_ok s \<Longrightarrow> mem_ok s'"
  by (induction rule: mem_step.induct) (simp_all add: mem_ok_keeps mem_load_all_state)

lemma mem_reachable_ok: "(mem_step jc)\<^sup>*\<^sup>* (mem_new ttl now) s \<Longrightarrow> mem_ok s"
  by (induction rule: rtranclp_induct) (simp_all add: mem_ok_new mem_step_ok)

section \<open>What a client reads\<close>

definition mem_view :: "mem_store \<Rightarrow> string \<rightharpoonup> stored_stub" where
  "mem_view s i =
     (case map_of (mem_stubs s) i of None \<Rightarrow> None | Some e \<Rightarrow> if mem_expired s e then None else Some (me_stub e))"

lemma map_of_filter_distinct:
  "distinct (map fst al) \<Longrightarrow>
   map_of (filter (\<lambda>(i, e). P e) al) i = (case map_of al i of None \<Rightarrow> None | Some e \<Rightarrow> if P e then Some e else None)"
proof (induction al)
  case (Cons a al)
  have "map_of al i = None" if "i = fst a" using Cons.prems that by (simp add: map_of_eq_None_iff)
  then show ?case using Cons by (cases a) (auto split: option.splits)
qed simp

lemma mem_expire_fields:
  "mem_now (mem_expire s) = mem_now s" "mem_epoch (mem_expire s) = mem_epoch s" "mem_files (mem_expire s) = mem_files s"
  "mem_expired (mem_expire s) = mem_expired s"
  by (simp_all add: mem_expire_def) (auto intro: mem_expired_cong)

lemma mem_expire_stubs: "mem_ok s \<Longrightarrow> mem_stubs (mem_expire s) = filter (\<lambda>(i, e). \<not> mem_expired s e) (mem_stubs s)"
proof (cases "mem_ephemeral_ttl s \<le> 0")
  case True
  assume "mem_ok s"
  then have "\<forall>(i, e) \<in> set (mem_stubs s). \<not> mem_expired s e"
    using True unfolding mem_ok_def mem_expired_def by (fastforce split: option.splits)
  then show ?thesis using True by (simp add: mem_expire_def filter_True)
qed (simp add: mem_expire_def)

lemma mem_view_expire: "mem_ok s \<Longrightarrow> mem_view (mem_expire s) = mem_view s"
  by (rule ext) (auto simp: mem_view_def mem_expire_stubs mem_expire_fields map_of_filter_distinct mem_ok_def split: option.splits)

lemma ran_mem_view:
  "mem_ok s \<Longrightarrow> ran (mem_view s) = me_stub ` snd ` set (mem_stubs (mem_expire s))"
proof -
  assume ok: "mem_ok s"
  have "x \<in> ran (mem_view s) \<longleftrightarrow> (\<exists>i e. (i, e) \<in> set (mem_stubs s) \<and> \<not> mem_expired s e \<and> x = me_stub e)" for x
  proof
    assume "x \<in> ran (mem_view s)"
    then show "\<exists>i e. (i, e) \<in> set (mem_stubs s) \<and> \<not> mem_expired s e \<and> x = me_stub e"
      by (auto simp: ran_def mem_view_def split: option.splits if_splits dest!: map_of_SomeD)
  next
    assume "\<exists>i e. (i, e) \<in> set (mem_stubs s) \<and> \<not> mem_expired s e \<and> x = me_stub e"
    then obtain i e where "(i, e) \<in> set (mem_stubs s)" "\<not> mem_expired s e" "x = me_stub e" by blast
    then have "mem_view s i = Some x" using ok by (simp add: mem_view_def mem_ok_def)
    then show "x \<in> ran (mem_view s)" by (rule ranI)
  qed
  then show ?thesis using ok by (force simp: mem_expire_stubs)
qed

lemma mem_view_put:
  "mem_put_stub x s = (Inr (), s') \<Longrightarrow> mem_view s' = (mem_view s)(ss_id x \<mapsto> x)"
  by (rule ext) (auto simp: mem_put_stub_def mem_view_def mem_expired_def Let_def update_conv'
      cong: option.case_cong split: if_splits option.splits)

lemma mark_entries_all:
  assumes "mark_entries jc es = (Inr (), es')" and "map_of es i = Some e"
  shows "\<exists>e'. mark_entry jc e = Inr e' \<and> map_of es' i = Some e'"
  using assms
  by (induction jc es arbitrary: es' rule: mark_entries.induct) (auto split: sum.splits prod.splits if_splits)

definition durable_stub :: "raw_codec \<Rightarrow> stored_stub \<Rightarrow> stored_stub" where
  "durable_stub jc x =
     (if ss_persistent x then x
      else case persistent_mapping jc (ss_mapping x) of Inl _ \<Rightarrow> x | Inr m \<Rightarrow> x\<lparr>ss_mapping := m, ss_persistent := True\<rparr>)"

lemma mark_entry_stub:
  assumes "mark_entry jc e = Inr e'"
  shows "me_stub e' = durable_stub jc (me_stub e) \<and> (me_expires_at e' = me_expires_at e \<or> me_expires_at e' = None)"
proof (cases "ss_persistent (me_stub e)")
  case False
  show ?thesis
  proof (cases "persistent_mapping jc (ss_mapping (me_stub e))")
    case (Inl err)
    then have "e' = e" using assms False by (cases err) (simp_all add: mark_entry_def)
    then show ?thesis using False Inl by (simp add: durable_stub_def)
  next
    case (Inr m)
    then show ?thesis using assms False by (auto simp: mark_entry_def durable_stub_def)
  qed
qed (use assms in \<open>simp add: mark_entry_def durable_stub_def\<close>)

lemma mem_view_mark:
  assumes "mem_mark_all_persistent jc s = (Inr (), s')" and "mem_view s i = Some x"
  shows "mem_view s' i = Some (durable_stub jc x)"
proof -
  obtain e where e: "map_of (mem_stubs s) i = Some e" "\<not> mem_expired s e" "x = me_stub e"
    using assms(2) unfolding mem_view_def by (cases "map_of (mem_stubs s) i") (simp_all split: if_splits)
  obtain r es where m: "mark_entries jc (mem_stubs s) = (r, es)" by fastforce
  then have s': "r = Inr ()" "s' = s\<lparr>mem_stubs := es\<rparr>" using assms(1) by (simp_all add: mem_mark_all_persistent_def)
  obtain e' where e': "mark_entry jc e = Inr e'" "map_of es i = Some e'"
    using mark_entries_all [of jc "mem_stubs s" es i e] m s'(1) e(1) by blast
  have "\<not> mem_expired s' e'" "me_stub e' = durable_stub jc x"
    using mark_entry_stub [OF e'(1)] e mem_expired_cong [of s' s] s'(2) by (auto simp: mem_expired_def)
  then show ?thesis using e'(2) s'(2) by (simp add: mem_view_def)
qed

interpretation mem_stubs: stub_store mem_ok mem_view mem_epoch "persistent_mapping jc"
  mem_get_stub mem_put_stub mem_delete_stub mem_delete_all_stubs mem_delete_ephemeral_stubs
  "mem_mark_all_persistent jc" mem_load_all mem_bump_epoch for jc
proof (unfold_locales, goal_cases)
  case (1 s i x s')
  then show ?case by (auto simp: mem_get_stub_def mem_view_def split: option.splits if_splits)
next
  case (2 s i s')
  then show ?case by (auto simp: mem_get_stub_def mem_view_def split: option.splits if_splits)
next
  case (3 s x s')
  then show ?case using mem_ok_put [of s x] mem_view_put [of x s s'] by simp
next
  case (4 s i s')
  then show ?case using mem_ok_delete [of s i]
    by (auto simp: mem_delete_stub_def mem_view_def mem_expired_def delete_conv' fun_eq_iff cong: option.case_cong)
next
  case (5 s s')
  then show ?case using mem_ok_delete_all [of s]
    by (auto simp: mem_delete_all_stubs_def mem_view_def fun_eq_iff)
next
  case (6 s s')
  have "distinct (map fst (mem_stubs s))" using 6 by (simp add: mem_ok_def)
  then show ?case using 6 mem_ok_delete_ephemeral [of s]
    by (auto simp: mem_delete_ephemeral_stubs_def mem_view_def mem_expired_def fun_eq_iff map_of_filter_distinct
        cong: option.case_cong split: option.splits if_splits)
next
  case (7 s s' i x)
  then show ?case using mem_ok_mark [of s jc] mem_view_mark [OF 7(2,3)] by (simp add: durable_stub_def)
next
  case (8 s stubs files e s')
  have img: "set (map (\<lambda>(i, e). me_stub e) es) = me_stub ` snd ` set es" for es :: "(string \<times> mem_entry) list"
    by (induction es) auto
  from 8 have "s' = mem_expire s" "e = mem_epoch s" "set stubs = me_stub ` snd ` set (mem_stubs (mem_expire s))"
    unfolding img [symmetric] by (auto simp: mem_load_all_def Let_def mem_expire_fields simp del: set_map)
  with 8 show ?case by (simp add: mem_ok_expire mem_view_expire mem_expire_fields ran_mem_view)
next
  case (9 s e s')
  then show ?case using mem_ok_counters [of s]
    by (auto simp: mem_bump_epoch_def Let_def mem_view_def mem_expired_def fun_eq_iff cong: option.case_cong)
qed

end
