(* ===== verification/Memory_Facts.thy ===== *)
theory Memory_Facts
  imports Memory_Store
begin

text \<open>
  The in-process driver meets the scenario and journal interfaces too, and what that gives: tokens
  are never reused, the journal's reads are the newest entries in order, and a reload does not
  depend on the iteration order of the driver's maps.
\<close>

section \<open>Scenario documents\<close>

definition mem_doc :: "mem_store \<Rightarrow> string \<rightharpoonup> scenario_state \<times> cas" where
  "mem_doc s n = map_option (\<lambda>e. (ms_state e, ms_cas e)) (map_of (mem_scenarios s) n)"

definition mem_used :: "mem_store \<Rightarrow> cas \<Rightarrow> bool" where
  "mem_used s c \<longleftrightarrow> c \<le> mem_cas_seq s"

lemma store_scenario_writes:
  assumes "0 < mem_room s"
  shows "writes mem_doc mem_used mem_room s n st (store_scenario n st s)"
proof -
  have c: "unat (mem_cas_seq s + 1) = Suc (unat (mem_cas_seq s))"
    using assms by (simp add: mem_room_def cas_seq_step)
  have "\<not> mem_used s (mem_cas_seq s + 1)" by (simp add: mem_used_def word_le_nat_alt c)
  moreover have "mem_doc (store_scenario n st s) = (mem_doc s)(n \<mapsto> (st, mem_cas_seq s + 1))"
    by (rule ext) (simp add: mem_doc_def store_scenario_def Let_def update_conv')
  moreover have "mem_used (store_scenario n st s) c' \<longleftrightarrow> mem_used s c' \<or> c' = mem_cas_seq s + 1" for c'
    by (simp add: mem_used_def store_scenario_def Let_def word_le_nat_alt c word_unat_eq_iff) linarith
  moreover have "mem_room s = Suc (mem_room (store_scenario n st s))"
    using assms by (simp add: mem_room_def store_scenario_def Let_def c)
  ultimately show ?thesis unfolding writes_def by blast
qed

interpretation mem_scen: scenario_store mem_tokens_ok mem_doc mem_used mem_room
  mem_get_scenario mem_insert_scenario mem_replace_scenario mem_upsert_scenario mem_delete_all_scenarios
proof (unfold_locales, goal_cases)
  case (1 s n st c)
  then show ?case by (auto simp: mem_tokens_ok_def mem_doc_def mem_used_def dest!: map_of_SomeD)
next
  case (2 n s r s')
  then show ?case by (auto simp: mem_get_scenario_def mem_doc_def split: option.splits)
next
  case (3 s n st w s')
  then show ?case using store_scenario_writes [of s n st] mem_tokens_store_scenario [of s n st]
    by (auto simp: mem_insert_scenario_def mem_doc_def split: if_splits)
next
  case (4 s n st c w s')
  then show ?case using store_scenario_writes [of s n st] mem_tokens_store_scenario [of s n st]
    by (auto simp: mem_replace_scenario_def mem_doc_def split: if_splits option.splits)
next
  case (5 s n st w s')
  then show ?case using store_scenario_writes [of s n st] mem_tokens_store_scenario [of s n st]
    by (auto simp: mem_upsert_scenario_def)
next
  case (6 s w s')
  then show ?case
    by (auto simp: mem_delete_all_scenarios_def mem_tokens_ok_def mem_doc_def mem_used_def mem_room_def fun_eq_iff)
qed

interpretation mem_scen: reachable_scenario_store mem_tokens_ok mem_doc mem_used mem_room
  mem_get_scenario mem_insert_scenario mem_replace_scenario mem_upsert_scenario mem_delete_all_scenarios
  by unfold_locales
    (auto simp: mem_get_scenario_def mem_insert_scenario_def mem_replace_scenario_def mem_upsert_scenario_def mem_doc_def
      split: option.splits)

section \<open>The journal\<close>

definition journal_key :: "journal_entry \<Rightarrow> int \<times> string" where
  "journal_key e = (je_ts e, je_id e)"

lemma string_less_linear:
  "string_less a b \<Longrightarrow> \<not> string_less b a" "\<not> string_less b a \<Longrightarrow> \<not> string_less c b \<Longrightarrow> \<not> string_less c a"
  "\<not> string_less a b \<Longrightarrow> \<not> string_less b a \<Longrightarrow> a = b"
  unfolding string_less_key using inj_byte_key [of UNIV] by (auto simp: inj_on_def)

lemma journal_newer_linear:
  "journal_newer a b \<Longrightarrow> \<not> journal_newer b a"
  "\<not> journal_newer b a \<Longrightarrow> \<not> journal_newer c b \<Longrightarrow> \<not> journal_newer c a"
  using string_less_linear(1) [of "je_id b" "je_id a"] string_less_linear(2) [of "je_id b" "je_id c" "je_id a"]
  by (simp_all add: journal_newer_def split: if_splits)

lemma journal_sorted:
  "sorted_wrt (\<lambda>a b. \<not> journal_newer b a) (sort_stable journal_newer es)"
  by (rule sorted_sort_stable [OF journal_newer_linear])

definition since_of :: "journal_query \<Rightarrow> int" where
  "since_of q = (case jq_since q of None \<Rightarrow> 0 | Some t \<Rightarrow> t div 1000000)"

definition journal_matching :: "journal_query \<Rightarrow> mem_store \<Rightarrow> journal_entry list" where
  "journal_matching q s = sort_stable journal_newer (filter (\<lambda>e. since_of q \<le> je_ts e) (map snd (mem_journal s)))"

lemma mem_query_journal_take:
  "mem_query_journal q s = (Inr (if 0 < jq_limit q then take (nat (jq_limit q)) (journal_matching q s)
     else journal_matching q s), s)"
  by (auto simp: mem_query_journal_def journal_matching_def since_of_def Let_def)

definition mem_entries :: "mem_store \<Rightarrow> string \<rightharpoonup> journal_entry" where
  "mem_entries s = map_of (mem_journal s)"

lemma ran_mem_entries: "mem_ok s \<Longrightarrow> ran (mem_entries s) = snd ` set (mem_journal s)"
  by (simp add: mem_ok_def mem_entries_def ran_distinct)

lemma journal_ids: "mem_ok s \<Longrightarrow> map je_id (map snd (mem_journal s)) = map fst (mem_journal s)"
  by (auto simp: mem_ok_def)

lemma journal_matching_facts:
  assumes "mem_ok s"
  shows "set (journal_matching q s) = {e \<in> ran (mem_entries s). since_of q \<le> je_ts e}"
    and "distinct (map je_id (journal_matching q s))"
    and "sorted_wrt (\<lambda>a b. \<not> journal_newer b a) (journal_matching q s)"
proof -
  show "set (journal_matching q s) = {e \<in> ran (mem_entries s). since_of q \<le> je_ts e}"
    using assms by (auto simp: journal_matching_def ran_mem_entries)
  have "distinct (map je_id (map snd (mem_journal s)))" using assms journal_ids by (metis mem_ok_def)
  then show "distinct (map je_id (journal_matching q s))"
    by (simp add: journal_matching_def distinct_map_filter)
  show "sorted_wrt (\<lambda>a b. \<not> journal_newer b a) (journal_matching q s)"
    unfolding journal_matching_def by (rule journal_sorted)
qed

lemma sorted_newer_ts:
  "sorted_wrt (\<lambda>a b. \<not> journal_newer b a) es \<Longrightarrow> sorted (rev (map je_ts es))"
proof -
  assume "sorted_wrt (\<lambda>a b. \<not> journal_newer b a) es"
  then have "sorted_wrt (\<lambda>a b. je_ts b \<le> je_ts a) es"
    by (rule sorted_wrt_mono_rel [rotated]) (auto simp: journal_newer_def split: if_splits)
  then show ?thesis by (induction es) (auto simp: sorted_append)
qed

lemma foldl_update_entries:
  "map_of (foldl (\<lambda>j e. AList.update (je_id e) e j) j es) = map_of j ++ map_of (rev (map (\<lambda>e. (je_id e, e)) es))"
proof (induction es arbitrary: j)
  case (Cons e es)
  have "(map_of j)(je_id e \<mapsto> e) ++ map_of (rev (map (\<lambda>e. (je_id e, e)) es)) =
      map_of j ++ map_of (rev (map (\<lambda>e. (je_id e, e)) (e # es)))"
    by (rule ext) (simp add: map_add_def split: option.splits)
  then show ?case by (simp only: foldl.simps Cons.IH update_conv')
qed simp

interpretation mem_jour: journal_store mem_ok mem_entries
  mem_append_journal mem_query_journal mem_delete_journal_entry mem_clear_journal
proof (unfold_locales, goal_cases)
  case (1 s es s')
  then show ?case using mem_ok_append [of s es]
    by (auto simp: mem_append_journal_def mem_entries_def foldl_update_entries)
next
  case (2 s q es s')
  let ?all = "journal_matching q s"
  define k where "k = (if 0 < jq_limit q then nat (jq_limit q) else length ?all)"
  have es: "es = take k ?all" "s' = s"
    using 2(2) by (auto simp: mem_query_journal_take k_def)
  have "sorted_wrt (\<lambda>a b. \<not> journal_newer b a) es"
    unfolding es by (rule sorted_wrt_take) (rule journal_matching_facts(3) [OF 2(1)])
  moreover have "distinct (map je_id es)"
    unfolding es using distinct_take journal_matching_facts(2) [OF 2(1), of q] by (metis take_map)
  moreover have "set es \<subseteq> ran (mem_entries s)"
    unfolding es using journal_matching_facts(1) [OF 2(1), of q] set_take_subset [of k ?all] by blast
  ultimately show ?case using es(2) sorted_newer_ts by blast
next
  case (3 s es s')
  then show ?case using journal_matching_facts(1) [OF 3(1), of "\<lparr>jq_since = None, jq_limit = 0\<rparr>"]
    by (auto simp: mem_query_journal_take since_of_def)
next
  case (4 s i s')
  then show ?case using mem_ok_journal [of s i]
    by (auto simp: mem_delete_journal_entry_def mem_entries_def delete_conv')
next
  case (5 s s')
  then show ?case using mem_ok_journal [of s]
    by (auto simp: mem_clear_journal_def mem_entries_def)
qed

section \<open>Iteration order\<close>

lemma mset_of_map:
  "distinct (map fst xs) \<Longrightarrow> distinct (map fst ys) \<Longrightarrow> map_of xs = map_of ys \<Longrightarrow> mset xs = mset ys"
proof -
  assume xs: "distinct (map fst xs)" and ys: "distinct (map fst ys)" and "map_of xs = map_of ys"
  then have "(k, v) \<in> set xs \<longleftrightarrow> (k, v) \<in> set ys" for k v
    by (metis map_of_eq_Some_iff)
  then have "set xs = set ys" by auto
  then show ?thesis using xs ys by (simp add: distinct_map set_eq_iff_mset_eq_distinct)
qed

lemma mem_load_all_order:
  assumes ok: "mem_ok s" "mem_ok t" and same: "map_of (mem_stubs s) = map_of (mem_stubs t)"
    "map_of (mem_files s) = map_of (mem_files t)" "mem_now s = mem_now t" "mem_epoch s = mem_epoch t"
    and seqs: "inj_on ss_seq (ran (mem_view s))"
  shows "fst (mem_load_all s) = fst (mem_load_all t)"
proof -
  let ?st = "\<lambda>s. map (\<lambda>(i, e). me_stub e) (mem_stubs (mem_expire s))"
  have exp: "mem_expired s = mem_expired t" by (rule mem_expired_cong) (rule same(3))
  have "mset (mem_stubs s) = mset (mem_stubs t)" using ok same(1) by (intro mset_of_map) (auto simp: mem_ok_def)
  then have "mset (?st s) = mset (?st t)" using ok exp by (simp add: mem_expire_stubs)
  moreover have "inj_on ss_seq (set (?st s))"
    using seqs ran_mem_view [OF ok(1)] by (simp add: image_image case_prod_beta)
  ultimately have stubs: "sort_key ss_seq (?st s) = sort_key ss_seq (?st t)" by (rule sort_key_perm_unique)
  have "mset (mem_files s) = mset (mem_files t)" using ok same(2) by (intro mset_of_map) (auto simp: mem_ok_def)
  then have m: "mset (map (\<lambda>(n, d). \<lparr>sf_name = n, sf_data = d\<rparr>) (mem_files s)) =
      mset (map (\<lambda>(n, d). \<lparr>sf_name = n, sf_data = d\<rparr>) (mem_files t))" by simp
  have "inj_on (\<lambda>f. byte_key (sf_name f)) (set (map (\<lambda>(n, d). \<lparr>sf_name = n, sf_data = d\<rparr>) (mem_files s)))"
  proof (rule inj_onI, clarsimp)
    fix n d n' d'
    assume *: "(n, d) \<in> set (mem_files s)" "(n', d') \<in> set (mem_files s)" "byte_key n = byte_key n'"
    then have "n = n'" using inj_byte_key [of UNIV] by (simp add: inj_on_def)
    moreover have "distinct (map fst (mem_files s))" using ok(1) by (simp add: mem_ok_def)
    ultimately show "n = n' \<and> d = d'" using * by (metis eq_key_imp_eq_value)
  qed
  with m have files: "sort_key (\<lambda>f. byte_key (sf_name f)) (map (\<lambda>(n, d). \<lparr>sf_name = n, sf_data = d\<rparr>) (mem_files s)) =
      sort_key (\<lambda>f. byte_key (sf_name f)) (map (\<lambda>(n, d). \<lparr>sf_name = n, sf_data = d\<rparr>) (mem_files t))"
    by (rule sort_key_perm_unique)
  have k1: "sort_stable (\<lambda>a b. ss_seq a < ss_seq b) = sort_key ss_seq"
    by (rule ext) (rule sort_stable_key, simp)
  have k2: "sort_stable (\<lambda>a b. string_less (sf_name a) (sf_name b)) = sort_key (\<lambda>f. byte_key (sf_name f))"
    by (rule ext) (rule sort_stable_key, simp add: string_less_key)
  show ?thesis
    unfolding mem_load_all_def Let_def k1 k2 mem_expire_fields using stubs files same(4) by simp
qed

section \<open>Saving brings expired mappings back\<close>

text \<open>
  \<^verbatim>\<open>MarkAllPersistent\<close> walks every entry of the map, also one whose lifetime has passed and that no
  reload has swept yet: a mapping that read as not found is served again after a save.
\<close>

lemma save_revives_expired:
  assumes "mem_ok s" and "mem_mark_all_persistent jc s = (Inr (), s')" and "map_of (mem_stubs s) i = Some e"
    and "mem_expired s e" and "persistent_mapping jc (ss_mapping (me_stub e)) = Inr m"
  shows "fst (mem_get_stub i s) = Inl ErrNotFound \<and> (\<exists>x. fst (mem_get_stub i s') = Inr x \<and> ss_persistent x)"
proof -
  have np: "\<not> ss_persistent (me_stub e)"
    using assms(1,3,4) by (auto simp: mem_ok_def mem_expired_def dest!: map_of_SomeD split: option.splits)
  obtain r es where m: "mark_entries jc (mem_stubs s) = (r, es)" by fastforce
  then have s': "r = Inr ()" "s' = s\<lparr>mem_stubs := es\<rparr>" using assms(2) by (simp_all add: mem_mark_all_persistent_def)
  obtain e' where e': "mark_entry jc e = Inr e'" "map_of es i = Some e'"
    using mark_entries_all [of jc "mem_stubs s" es i e] m s'(1) assms(3) by blast
  then have "me_expires_at e' = None" "ss_persistent (me_stub e')"
    using np assms(5) by (auto simp: mark_entry_def)
  then show ?thesis using assms e' s'(2) by (simp add: mem_get_stub_def mem_expired_def)
qed

section \<open>Properties\<close>

text \<open>
  C13. Whatever operations run and however the clock moves, the driver's state stays well formed:
  one entry per key, stubs and journal entries under their own ids, and a lifetime only on
  mappings that are not persistent.
\<close>

theorem driver_state_wellformed:
  assumes "(mem_step jc)\<^sup>*\<^sup>* (mem_new ttl now) s"
  shows "mem_ok s"
  using assms by (rule mem_reachable_ok)

theorem driver_state_wellformed_witness:
  "\<forall>jc. mem_ok (snd (mem_put_stub \<lparr>ss_id = ''a'', ss_schema_version = 1, ss_seq = 1, ss_persistent = False,
      ss_created_at = 0, ss_mapping = ''{}''\<rparr> (mem_new 5 0)))"
  by (intro allI driver_state_wellformed [where ttl = 5 and now = 0] r_into_rtranclp mem_step.put_stub)

text \<open>
  C14. A reload reads exactly what single reads see, in sequence order, and does not depend on the
  iteration order of the driver's maps: two well-formed states with the same entries and distinct
  sequences give the same reload.
\<close>

theorem reload_is_deterministic:
  assumes "mem_ok s" and "mem_ok t" and "map_of (mem_stubs s) = map_of (mem_stubs t)"
    and "map_of (mem_files s) = map_of (mem_files t)" and "mem_now s = mem_now t" and "mem_epoch s = mem_epoch t"
    and "inj_on ss_seq (ran (mem_view s))"
  shows "fst (mem_load_all s) = fst (mem_load_all t)"
  by (rule mem_load_all_order [OF assms])

theorem reload_is_deterministic_witness:
  "fst (mem_load_all ((mem_new 0 0)\<lparr>mem_files := [(''a'', ''1''), (''b'', ''2'')]\<rparr>)) =
   fst (mem_load_all ((mem_new 0 0)\<lparr>mem_files := [(''b'', ''2''), (''a'', ''1'')]\<rparr>))"
  by (rule reload_is_deterministic)
    (auto simp: mem_ok_def mem_new_def mem_view_def inj_on_def ran_def)

text \<open>
  C15. Saving all mappings and then resetting to the persistent ones loses no mapping whose document
  is a JSON object: it reads back under its id, with its sequence, as persistent.
\<close>

theorem save_then_reset_keeps:
  assumes "mem_ok s" and "mem_mark_all_persistent jc s = (Inr (), s1)" and "mem_delete_ephemeral_stubs s1 = (Inr (), s2)"
    and "mem_view s i = Some x" and "\<And>e. persistent_mapping jc (ss_mapping x) \<noteq> Inl e"
  shows "\<exists>y. mem_view s2 i = Some y \<and> ss_seq y = ss_seq x \<and> ss_persistent y"
  by (rule mem_stubs.save_then_reset [OF assms])

theorem save_then_reset_keeps_witness:
  "let jc = \<lparr>rc_unmarshal = (\<lambda>_. Inr (Some Map.empty)), rc_marshal = (\<lambda>m. Inr (if m ''persistent'' = None then [] else ''{p}''))\<rparr>;
       x = \<lparr>ss_id = ''a'', ss_schema_version = 1, ss_seq = 7, ss_persistent = False, ss_created_at = 0, ss_mapping = ''{}''\<rparr>;
       s = snd (mem_put_stub x (mem_new 0 0))
   in \<exists>y. mem_view (snd (mem_delete_ephemeral_stubs (snd (mem_mark_all_persistent jc s)))) ''a'' = Some y \<and>
        ss_seq y = 7 \<and> ss_persistent y"
proof -
  let ?jc = "\<lparr>rc_unmarshal = (\<lambda>_. Inr (Some Map.empty)), rc_marshal = (\<lambda>m. Inr (if m ''persistent'' = None then [] else ''{p}''))\<rparr>"
  let ?x = "\<lparr>ss_id = ''a'', ss_schema_version = 1, ss_seq = 7, ss_persistent = False, ss_created_at = 0, ss_mapping = ''{}''\<rparr>"
  let ?s = "snd (mem_put_stub ?x (mem_new 0 0))"
  have "\<exists>y. mem_view (snd (mem_delete_ephemeral_stubs (snd (mem_mark_all_persistent ?jc ?s)))) ''a'' = Some y \<and>
      ss_seq y = ss_seq ?x \<and> ss_persistent y"
  proof (rule save_then_reset_keeps)
    show "mem_ok ?s" by (rule mem_ok_put) (rule mem_ok_new)
    show "mem_mark_all_persistent ?jc ?s = (Inr (), snd (mem_mark_all_persistent ?jc ?s))"
      by (simp add: mem_mark_all_persistent_def mem_put_stub_def mem_new_def mark_entry_def persistent_mapping_def)
    show "mem_delete_ephemeral_stubs (snd (mem_mark_all_persistent ?jc ?s)) =
        (Inr (), snd (mem_delete_ephemeral_stubs (snd (mem_mark_all_persistent ?jc ?s))))"
      by (simp add: mem_delete_ephemeral_stubs_def)
    show "mem_view ?s ''a'' = Some ?x" by (simp add: mem_view_def mem_put_stub_def mem_new_def mem_expired_def)
    show "persistent_mapping ?jc (ss_mapping ?x) \<noteq> Inl e" for e by (simp add: persistent_mapping_def)
  qed
  then show ?thesis by simp
qed

text \<open>
  C16. A journal query returns the newest matching entries in order: at most the limit, none older
  than the bound, every id once, and an entry it leaves out is not newer than any it returns.
\<close>

theorem journal_query_newest:
  assumes "mem_ok s" and "fst (mem_query_journal q s) = Inr es"
  shows "sorted (rev (map je_ts es)) \<and> distinct (map je_id es) \<and>
     (0 < jq_limit q \<longrightarrow> int (length es) \<le> jq_limit q) \<and>
     set es \<subseteq> {e \<in> ran (mem_entries s). since_of q \<le> je_ts e} \<and>
     (\<forall>e \<in> ran (mem_entries s). since_of q \<le> je_ts e \<longrightarrow> e \<notin> set es \<longrightarrow>
        int (length es) = jq_limit q \<and> (\<forall>e' \<in> set es. \<not> journal_newer e e'))"
proof -
  let ?all = "journal_matching q s"
  define k where "k = (if 0 < jq_limit q then nat (jq_limit q) else length ?all)"
  have es: "es = take k ?all" using assms(2) by (auto simp: mem_query_journal_take k_def)
  note facts = journal_matching_facts [OF assms(1), of q]
  have "int (length es) = jq_limit q \<and> (\<forall>e' \<in> set es. \<not> journal_newer e e')"
    if "e \<in> set ?all" "e \<notin> set es" for e
  proof -
    have "e \<in> set (drop k ?all)" using that es by (metis Un_iff append_take_drop_id set_append)
    moreover from this have "k < length ?all" by (cases "k < length ?all") simp_all
    moreover have "\<not> journal_newer e e'" if "e' \<in> set (take k ?all)" for e'
    proof -
      have "sorted_wrt (\<lambda>a b. \<not> journal_newer b a) (take k ?all @ drop k ?all)" using facts(3) by simp
      then show ?thesis using that \<open>e \<in> set (drop k ?all)\<close> unfolding sorted_wrt_append by blast
    qed
    ultimately show ?thesis unfolding es by (auto simp: k_def split: if_splits)
  qed
  moreover have "sorted (rev (map je_ts es)) \<and> distinct (map je_id es) \<and> set es \<subseteq> ran (mem_entries s)"
    using mem_jour.query_law [OF assms(1), of q es "snd (mem_query_journal q s)"] assms(2)
    by (metis prod.collapse)
  moreover have "set es \<subseteq> set ?all" unfolding es by (rule set_take_subset)
  moreover have "0 < jq_limit q \<longrightarrow> int (length es) \<le> jq_limit q" unfolding es by (simp add: k_def) linarith
  ultimately show ?thesis using facts(1) by blast
qed

theorem journal_query_newest_witness:
  "set ([\<lparr>je_id = ''b'', je_ts = 2, je_pod = [], je_data = []\<rparr>]) \<subseteq>
     {e \<in> ran (mem_entries ((mem_new 0 0)\<lparr>mem_journal := [(''b'', \<lparr>je_id = ''b'', je_ts = 2, je_pod = [], je_data = []\<rparr>)]\<rparr>)).
      0 \<le> je_ts e}"
proof -
  let ?b = "\<lparr>je_id = ''b'', je_ts = 2, je_pod = [], je_data = []\<rparr>"
  let ?s = "(mem_new 0 0)\<lparr>mem_journal := [(''b'', ?b)]\<rparr>"
  have q: "fst (mem_query_journal \<lparr>jq_since = None, jq_limit = 1\<rparr> ?s) = Inr [?b]"
    by (simp add: mem_query_journal_def mem_new_def sort_stable_def)
  have ok: "mem_ok ?s" by (simp add: mem_ok_def mem_new_def)
  have "set [?b] \<subseteq> {e \<in> ran (mem_entries ?s). since_of \<lparr>jq_since = None, jq_limit = 1\<rparr> \<le> je_ts e}"
    using journal_query_newest [OF ok q] by blast
  then show ?thesis by (simp add: since_of_def)
qed

end
