(* ===== verification/Scenario.thy ===== *)
theory Scenario
  imports Snapshot_Select Memory_Facts
begin

text \<open>
  \<^verbatim>\<open>internal/scenario/scenario.go\<close>, the client that reads and advances scenario state through
  compare-and-swap, and the match-time gate of \<^verbatim>\<open>cmd/mockulus/main.go\<close>. A transition is a small
  program of store calls, written as a step function so that the calls of many replicas can be
  interleaved; \<open>conc_step\<close> is that interleaving. The lemmas are proved over the scenario-store
  interface and hold of the in-process driver through its interpretation.
\<close>

section \<open>The client\<close>

definition cas_attempts :: nat where "cas_attempts = 3"

text \<open>The store operations a client calls.\<close>

record 's scenario_api =
  sa_get :: "string \<Rightarrow> ('s, scenario_state \<times> cas) store_op"
  sa_insert :: "string \<Rightarrow> scenario_state \<Rightarrow> ('s, unit) store_op"
  sa_replace :: "string \<Rightarrow> scenario_state \<Rightarrow> cas \<Rightarrow> ('s, unit) store_op"
  sa_upsert :: "string \<Rightarrow> scenario_state \<Rightarrow> ('s, unit) store_op"
  sa_delete_all :: "('s, unit) store_op"

text \<open>A stored state as the client reads it: the empty state is \<^verbatim>\<open>Started\<close>.\<close>

definition state_or_started :: "scenario_state \<Rightarrow> string" where
  "state_or_started st = (if sc_state st = [] then scenario_started else sc_state st)"

definition client_state :: "'s scenario_api \<Rightarrow> string \<Rightarrow> ('s, string) store_op" where
  "client_state api n s =
     (case sa_get api n s of
        (Inl e, s) \<Rightarrow> if is_not_found e then (Inr scenario_started, s) else (Inl e, s)
      | (Inr (st, c), s) \<Rightarrow> (Inr (state_or_started st), s))"

record transition_job =
  tj_name :: string
  tj_required :: string
  tj_new :: string
  tj_now :: time

datatype transition_end = NotAsked | Moved | Skipped | Abandoned | Failed store_error

text \<open>Where a transition is: before a read or a write of an attempt, or done.\<close>

datatype transition_pc = TUpsert | TRead nat | TWrite nat "cas option" | TEnd transition_end

definition transition_start :: "transition_job \<Rightarrow> transition_pc" where
  "transition_start j =
     (if tj_new j = [] then TEnd NotAsked else if tj_required j = [] then TUpsert else TRead 0)"

definition next_state :: "transition_job \<Rightarrow> scenario_state" where
  "next_state j = \<lparr>sc_state = tj_new j, sc_updated_at = tj_now j\<rparr>"

definition transition_read :: "'s scenario_api \<Rightarrow> transition_job \<Rightarrow> nat \<Rightarrow> 's \<Rightarrow> transition_pc \<times> 's" where
  "transition_read api j a s =
     (case sa_get api (tj_name j) s of
        (Inl e, s) \<Rightarrow>
          if \<not> is_not_found e then (TEnd (Failed e), s)
          else if scenario_started \<noteq> tj_required j then (TEnd Skipped, s)
          else (TWrite a None, s)
      | (Inr (st, c), s) \<Rightarrow>
          if state_or_started st \<noteq> tj_required j then (TEnd Skipped, s) else (TWrite a (Some c), s))"

definition is_retryable :: "store_error \<Rightarrow> bool" where
  "is_retryable e = is_cas_conflict e"

definition transition_write ::
    "'s scenario_api \<Rightarrow> transition_job \<Rightarrow> nat \<Rightarrow> cas option \<Rightarrow> 's \<Rightarrow> transition_pc \<times> 's" where
  "transition_write api j a c s =
     (case (case c of None \<Rightarrow> sa_insert api (tj_name j) (next_state j) s
                    | Some c \<Rightarrow> sa_replace api (tj_name j) (next_state j) c s) of
        (Inr _, s) \<Rightarrow> (TEnd Moved, s)
      | (Inl e, s) \<Rightarrow>
          if \<not> is_retryable e then (TEnd (Failed e), s)
          else if Suc a < cas_attempts then (TRead (Suc a), s) else (TEnd Abandoned, s))"

definition transition_step :: "'s scenario_api \<Rightarrow> transition_job \<Rightarrow> transition_pc \<Rightarrow> 's \<Rightarrow> transition_pc \<times> 's" where
  "transition_step api j pc s =
     (case pc of
        TUpsert \<Rightarrow> (case sa_upsert api (tj_name j) (next_state j) s of
                     (Inr _, s) \<Rightarrow> (TEnd Moved, s) | (Inl e, s) \<Rightarrow> (TEnd (Failed e), s))
      | TRead a \<Rightarrow> transition_read api j a s
      | TWrite a c \<Rightarrow> transition_write api j a c s
      | TEnd r \<Rightarrow> (TEnd r, s))"

text \<open>How many store calls a transition can still make.\<close>

fun calls_left :: "transition_pc \<Rightarrow> nat" where
  "calls_left TUpsert = 1"
| "calls_left (TRead a) = (if a < cas_attempts then 2 * (cas_attempts - a) else 2)"
| "calls_left (TWrite a c) = (if a < cas_attempts then 2 * (cas_attempts - a) - 1 else 1)"
| "calls_left (TEnd r) = 0"

lemma transition_step_calls:
  "(\<And>r. pc \<noteq> TEnd r) \<Longrightarrow> calls_left (fst (transition_step api j pc s)) < calls_left pc"
  by (cases pc) (auto simp: transition_step_def transition_read_def transition_write_def cas_attempts_def
      split: prod.splits sum.splits option.splits)

lemma transition_step_less:
  "(pc', s') = transition_step api j pc s \<Longrightarrow> (\<And>r. pc \<noteq> TEnd r) \<Longrightarrow> calls_left pc' < calls_left pc"
  using transition_step_calls [of pc api j s] by (metis fst_conv)

text \<open>\<^verbatim>\<open>Transition\<close> with nobody else at the store.\<close>

function run_transition :: "'s scenario_api \<Rightarrow> transition_job \<Rightarrow> transition_pc \<Rightarrow> 's \<Rightarrow> transition_end \<times> 's" where
  "run_transition api j pc s =
     (case pc of TEnd r \<Rightarrow> (r, s)
      | _ \<Rightarrow> (case transition_step api j pc s of (pc, s) \<Rightarrow> run_transition api j pc s))"
  by pat_completeness auto
termination
proof (relation "measure (\<lambda>(api, j, pc, s). calls_left pc)", goal_cases)
  case 1
  show ?case by (rule wf_measure)
qed (unfold in_measure prod.case, (rule transition_step_less, assumption, simp)+)

declare run_transition.simps [simp del]

definition transition :: "'s scenario_api \<Rightarrow> transition_job \<Rightarrow> 's \<Rightarrow> transition_end \<times> 's" where
  "transition api j s = run_transition api j (transition_start j) s"

text \<open>The error \<^verbatim>\<open>Transition\<close> returns: losing every attempt is not one.\<close>

definition transition_error :: "transition_end \<Rightarrow> store_error option" where
  "transition_error r = (case r of Failed e \<Rightarrow> Some e | _ \<Rightarrow> None)"

definition client_set_state :: "'s scenario_api \<Rightarrow> string \<Rightarrow> string \<Rightarrow> time \<Rightarrow> ('s, unit) store_op" where
  "client_set_state api n st now s = sa_upsert api n \<lparr>sc_state = st, sc_updated_at = now\<rparr> s"

definition client_reset_all :: "'s scenario_api \<Rightarrow> ('s, unit) store_op" where
  "client_reset_all api s = sa_delete_all api s"

section \<open>Many replicas\<close>

text \<open>
  The store shared by any number of transitions, each replica's call an atomic step, and between
  them the admin operations that set a state or reset all of them. Steps are taken from states
  with tokens left: the 64-bit counter behind them has not wrapped around.
\<close>

type_synonym 's conc_state = "'s \<times> (nat \<Rightarrow> transition_pc)"

inductive conc_step ::
    "'s scenario_api \<Rightarrow> ('s \<Rightarrow> nat) \<Rightarrow> (nat \<Rightarrow> transition_job) \<Rightarrow> 's conc_state \<Rightarrow> 's conc_state \<Rightarrow> bool"
  for api room jobs where
  call: "0 < room s \<Longrightarrow> (\<forall>r. pcs i \<noteq> TEnd r) \<Longrightarrow> transition_step api (jobs i) (pcs i) s = (pc, s') \<Longrightarrow>
     conc_step api room jobs (s, pcs) (s', pcs(i := pc))"
| set_state: "0 < room s \<Longrightarrow> client_set_state api n st now s = (r, s') \<Longrightarrow> conc_step api room jobs (s, pcs) (s', pcs)"
| reset_all: "client_reset_all api s = (r, s') \<Longrightarrow> conc_step api room jobs (s, pcs) (s', pcs)"

inductive_cases conc_stepE: "conc_step api room jobs (s, pcs) c'"

text \<open>The steps of the replicas alone.\<close>

inductive replica_step ::
    "'s scenario_api \<Rightarrow> ('s \<Rightarrow> nat) \<Rightarrow> (nat \<Rightarrow> transition_job) \<Rightarrow> 's conc_state \<Rightarrow> 's conc_state \<Rightarrow> bool"
  for api room jobs where
  "0 < room s \<Longrightarrow> (\<forall>r. pcs i \<noteq> TEnd r) \<Longrightarrow> transition_step api (jobs i) (pcs i) s = (pc, s') \<Longrightarrow>
     replica_step api room jobs (s, pcs) (s', pcs(i := pc))"

inductive_cases replica_stepE: "replica_step api room jobs (s, pcs) c'"

definition conc_start :: "(nat \<Rightarrow> transition_job) \<Rightarrow> 's \<Rightarrow> 's conc_state" where
  "conc_start jobs s = (s, \<lambda>i. transition_start (jobs i))"

definition current_state :: "('s \<Rightarrow> string \<rightharpoonup> scenario_state \<times> cas) \<Rightarrow> 's \<Rightarrow> string \<Rightarrow> string" where
  "current_state doc s n = (case doc s n of None \<Rightarrow> scenario_started | Some (st, c) \<Rightarrow> state_or_started st)"

context scenario_store
begin

definition api :: "'s scenario_api" where
  "api = \<lparr>sa_get = get_scenario, sa_insert = insert_scenario, sa_replace = replace_scenario,
          sa_upsert = upsert_scenario, sa_delete_all = delete_all_scenarios\<rparr>"

lemma api_simps [simp]:
  "sa_get api = get_scenario" "sa_insert api = insert_scenario" "sa_replace api = replace_scenario"
  "sa_upsert api = upsert_scenario" "sa_delete_all api = delete_all_scenarios"
  by (simp_all add: api_def)

text \<open>What a replica knows when it is about to write.\<close>

definition pc_ok :: "'s \<Rightarrow> transition_job \<Rightarrow> transition_pc \<Rightarrow> bool" where
  "pc_ok s j pc =
     (case pc of
        TWrite a (Some c) \<Rightarrow> (\<exists>st. observed s (tj_name j) st c \<and> state_or_started st = tj_required j)
      | TWrite a None \<Rightarrow> scenario_started = tj_required j
      | TUpsert \<Rightarrow> tj_required j = []
      | _ \<Rightarrow> True)"

definition conc_ok :: "(nat \<Rightarrow> transition_job) \<Rightarrow> 's conc_state \<Rightarrow> bool" where
  "conc_ok jobs c \<longleftrightarrow> ok (fst c) \<and> (\<forall>i. pc_ok (fst c) (jobs i) (snd c i))"

lemma pc_ok_keeps:
  assumes "pc_ok s j pc" and "\<And>n st c. observed s n st c \<Longrightarrow> observed s' n st c"
  shows "pc_ok s' j pc"
  using assms by (auto simp: pc_ok_def split: transition_pc.splits option.splits)

lemma transition_step_ok:
  assumes "ok s" and "0 < room s" and "pc_ok s j pc" and "transition_step api j pc s = (pc', s')"
  shows "ok s' \<and> pc_ok s' j pc' \<and> (\<forall>n st c. observed s n st c \<longrightarrow> observed s' n st c)"
proof (cases pc)
  case TUpsert
  obtain w t where u: "upsert_scenario (tj_name j) (next_state j) s = (w, t)" by fastforce
  then have "s' = t" "pc_ok s' j pc'" using assms(4) TUpsert
    by (auto simp: transition_step_def pc_ok_def split: sum.splits)
  then show ?thesis using upsert_law [OF assms(1,2) u] observed_upsert [OF _ assms(1,2) u] by blast
next
  case (TRead a)
  obtain r t where g: "get_scenario (tj_name j) s = (r, t)" by fastforce
  then have t: "t = s" using get_law [OF g] by blast
  have s': "s' = s" using assms(4) g t TRead
    by (auto simp: transition_step_def transition_read_def split: sum.splits prod.splits if_splits)
  have "pc_ok s j pc'" using assms(4) g t TRead get_observed [OF assms(1), of "tj_name j"]
    by (auto simp: transition_step_def transition_read_def pc_ok_def split: sum.splits prod.splits if_splits)
  then show ?thesis using assms(1) s' by blast
next
  case (TWrite a c)
  show ?thesis
  proof (cases c)
    case None
    obtain w t where u: "insert_scenario (tj_name j) (next_state j) s = (w, t)" by fastforce
    then have "s' = t" "pc_ok s' j pc'" using assms(4) TWrite None
      by (auto simp: transition_step_def transition_write_def pc_ok_def split: sum.splits if_splits)
    then show ?thesis using insert_law [OF assms(1,2) u] observed_insert [OF _ assms(1,2) u] by blast
  next
    case (Some k)
    obtain w t where u: "replace_scenario (tj_name j) (next_state j) k s = (w, t)" by fastforce
    then have "s' = t" "pc_ok s' j pc'" using assms(4) TWrite Some
      by (auto simp: transition_step_def transition_write_def pc_ok_def split: sum.splits if_splits)
    then show ?thesis using replace_law [OF assms(1,2) u] observed_replace [OF _ assms(1,2) u] by blast
  qed
qed (use assms in \<open>simp add: transition_step_def\<close>)

lemma conc_start_ok: "ok s \<Longrightarrow> conc_ok jobs (conc_start jobs s)"
  by (simp add: conc_ok_def conc_start_def transition_start_def pc_ok_def)

lemma conc_step_ok: "conc_step api room jobs c c' \<Longrightarrow> conc_ok jobs c \<Longrightarrow> conc_ok jobs c'"
proof (induction rule: conc_step.induct)
  case (call s pcs i pc s')
  then have "ok s" "pc_ok s (jobs i) (pcs i)" by (simp_all add: conc_ok_def)
  from transition_step_ok [OF this(1) call(1) this(2) call(3)] call(4) show ?case
    by (auto simp: conc_ok_def intro: pc_ok_keeps)
next
  case (set_state s n st now r s' pcs)
  then have "ok s" and u: "upsert_scenario n \<lparr>sc_state = st, sc_updated_at = now\<rparr> s = (r, s')"
    by (simp_all add: conc_ok_def client_set_state_def)
  then show ?case using set_state upsert_law [OF _ _ u] observed_upsert [OF _ _ _ u]
    by (auto simp: conc_ok_def intro: pc_ok_keeps)
next
  case (reset_all s r s' pcs)
  then have "ok s" and u: "delete_all_scenarios s = (r, s')" by (simp_all add: conc_ok_def client_reset_all_def)
  then show ?case using reset_all delete_law [OF _ u] observed_delete [OF _ _ u]
    by (auto simp: conc_ok_def intro: pc_ok_keeps)
qed

lemma conc_reachable_ok: "(conc_step api room jobs)\<^sup>*\<^sup>* (conc_start jobs s) c \<Longrightarrow> ok s \<Longrightarrow> conc_ok jobs c"
  by (induction rule: rtranclp_induct) (simp_all add: conc_start_ok conc_step_ok)

text \<open>The call that moves a gated scenario finds it in the required state.\<close>

lemma moves_from_required:
  assumes "ok s" and "0 < room s" and "pc_ok s j pc" and "tj_required j \<noteq> []"
    and "transition_step api j pc s = (TEnd Moved, s')" and "pc \<noteq> TEnd Moved"
  shows "current_state doc s (tj_name j) = tj_required j \<and> (\<exists>c. doc s' (tj_name j) = Some (next_state j, c))"
proof -
  obtain a c where pc: "pc = TWrite a c"
  proof (cases pc)
    case (TRead a)
    then show thesis using assms(5)
      by (auto simp: transition_step_def transition_read_def split: sum.splits prod.splits if_splits)
  qed (use assms in \<open>auto simp: pc_ok_def transition_step_def\<close>)
  show ?thesis
  proof (cases c)
    case None
    then have "insert_scenario (tj_name j) (next_state j) s = (Inr (), s')"
      using assms(5) pc by (auto simp: transition_step_def transition_write_def split: sum.splits prod.splits if_splits)
    from insert_law [OF assms(1,2) this] assms(3) show ?thesis
      by (auto simp: pc None pc_ok_def current_state_def writes_def)
  next
    case (Some k)
    then have r: "replace_scenario (tj_name j) (next_state j) k s = (Inr (), s')"
      using assms(5) pc by (auto simp: transition_step_def transition_write_def split: sum.splits prod.splits if_splits)
    from assms(3) obtain st where "observed s (tj_name j) st k" "state_or_started st = tj_required j"
      by (auto simp: pc Some pc_ok_def)
    with replace_observed [OF this(1) assms(1,2) r] show ?thesis by (auto simp: current_state_def)
  qed
qed

end

end
