(* ===== verification/Scenario_Gate.thy ===== *)
theory Scenario_Gate
  imports Scenario
begin

text \<open>
  What the scenario client and the match-time gate guarantee: of many replicas racing to move a
  scenario exactly one does, a transition makes at most six store calls whatever the others do,
  and a request is served by the first stub in selection order whose criteria hold and whose
  scenario is in the state it requires.
\<close>

section \<open>Exactly one replica moves\<close>

text \<open>Transitions that contend for one move of scenario \<open>n\<close> out of state \<open>q\<close>.\<close>

definition contenders :: "(nat \<Rightarrow> transition_job) \<Rightarrow> string \<Rightarrow> string \<Rightarrow> bool" where
  "contenders jobs n q \<longleftrightarrow>
     q \<noteq> [] \<and> (\<forall>i. tj_name (jobs i) = n \<and> tj_required (jobs i) = q \<and> tj_new (jobs i) \<noteq> [] \<and> tj_new (jobs i) \<noteq> q)"

definition one_moved :: "(nat \<Rightarrow> transition_pc) \<Rightarrow> bool" where
  "one_moved pcs \<longleftrightarrow> (\<exists>i. pcs i = TEnd Moved \<and> (\<forall>k. pcs k = TEnd Moved \<longrightarrow> k = i))"

context scenario_store
begin

lemma unmoved_same:
  assumes "ok s" and "0 < room s" and "\<forall>r. pc \<noteq> TEnd r"
    and "transition_step api j pc s = (pc', s')" and "pc' \<noteq> TEnd Moved"
  shows "s' = s"
proof (cases pc)
  case TUpsert
  obtain w t where u: "upsert_scenario (tj_name j) (next_state j) s = (w, t)" by fastforce
  then show ?thesis using upsert_law [OF assms(1,2) u] assms(4,5) TUpsert
    by (auto simp: transition_step_def split: sum.splits)
next
  case (TRead a)
  obtain r t where g: "get_scenario (tj_name j) s = (r, t)" by fastforce
  then show ?thesis using get_law [OF g] assms(4) TRead
    by (auto simp: transition_step_def transition_read_def split: sum.splits prod.splits if_splits)
next
  case (TWrite a c)
  show ?thesis
  proof (cases c)
    case None
    obtain w t where u: "insert_scenario (tj_name j) (next_state j) s = (w, t)" by fastforce
    then show ?thesis using insert_law [OF assms(1,2) u] assms(4,5) TWrite None
      by (auto simp: transition_step_def transition_write_def split: sum.splits if_splits)
  next
    case (Some k)
    obtain w t where u: "replace_scenario (tj_name j) (next_state j) k s = (w, t)" by fastforce
    then show ?thesis using replace_law [OF assms(1,2) u] assms(4,5) TWrite Some
      by (auto simp: transition_step_def transition_write_def split: sum.splits if_splits)
  qed
qed (use assms(3) in simp)

lemma replica_is_conc: "replica_step api room jobs c c' \<Longrightarrow> conc_step api room jobs c c'"
  by (induction rule: replica_step.induct) (rule conc_step.call)

end

context reachable_scenario_store
begin

text \<open>Nobody has moved, and every replica is before its first write; or exactly one has.\<close>

definition race_inv :: "(nat \<Rightarrow> transition_job) \<Rightarrow> string \<Rightarrow> string \<Rightarrow> (scenario_state \<times> cas) option \<Rightarrow> 'a conc_state \<Rightarrow> bool" where
  "race_inv jobs n q d c \<longleftrightarrow>
     (one_moved (snd c) \<and> current_state doc (fst c) n \<noteq> q) \<or>
     (doc (fst c) n = d \<and> (\<forall>i. snd c i = TRead 0 \<or> snd c i = TWrite 0 (map_option snd d)))"

lemma race_first_step:
  assumes "contenders jobs n q" and "(case d of None \<Rightarrow> scenario_started | Some (st, c) \<Rightarrow> state_or_started st) = q"
    and "doc s n = d" and "pc = TRead 0 \<or> pc = TWrite 0 (map_option snd d)"
    and "transition_step api (jobs i) pc s = (pc', s')"
  shows "pc' = TEnd Moved \<or> (s' = s \<and> pc' = TWrite 0 (map_option snd d))"
proof (cases d)
  case None
  have "fst (insert_scenario n (next_state (jobs i)) s) = Inr ()" using insert_exact assms(3) None by simp
  then show ?thesis using assms None
    by (auto simp: contenders_def transition_step_def transition_read_def transition_write_def get_exact is_not_found_def
        split: prod.splits sum.splits)
next
  case (Some p)
  then obtain st c where d: "d = Some (st, c)" by (cases p) simp
  have "fst (replace_scenario n (next_state (jobs i)) c s) = Inr ()" using replace_exact assms(3) d by blast
  then show ?thesis using assms d
    by (auto simp: contenders_def transition_step_def transition_read_def transition_write_def get_exact
        split: prod.splits sum.splits)
qed

lemma one_moved_keeps:
  assumes "one_moved pcs" and "\<forall>r. pcs i \<noteq> TEnd r" and "pc \<noteq> TEnd Moved"
  shows "one_moved (pcs(i := pc))"
proof -
  obtain m where m: "pcs m = TEnd Moved" "\<forall>k. pcs k = TEnd Moved \<longrightarrow> k = m"
    using assms(1) unfolding one_moved_def by blast
  then have "m \<noteq> i" using assms(2) by blast
  then show ?thesis using m assms(3) unfolding one_moved_def by (metis fun_upd_apply)
qed

lemma one_moved_first:
  assumes "\<And>k. pcs k = TRead 0 \<or> pcs k = TWrite 0 d"
  shows "one_moved (pcs(i := TEnd Moved))"
proof -
  have "pcs k \<noteq> TEnd Moved" for k using assms [of k] by auto
  then show ?thesis unfolding one_moved_def by (intro exI [of _ i]) simp
qed

lemma race_step:
  assumes "0 < room s" and "\<forall>r. pcs i \<noteq> TEnd r" and step: "transition_step api (jobs i) (pcs i) s = (pc, s')"
    and inv: "conc_ok jobs (s, pcs)" and "contenders jobs n q"
    and "(case d of None \<Rightarrow> scenario_started | Some (st, k) \<Rightarrow> state_or_started st) = q" and "race_inv jobs n q d (s, pcs)"
  shows "race_inv jobs n q d (s', pcs(i := pc))"
proof -
  have ok: "ok s" "pc_ok s (jobs i) (pcs i)" using inv by (simp_all add: conc_ok_def)
  have job: "tj_name (jobs i) = n" "tj_required (jobs i) = q" "tj_new (jobs i) \<noteq> []" "tj_new (jobs i) \<noteq> q" "q \<noteq> []"
    using assms(5) by (simp_all add: contenders_def)
  have moved: "current_state doc s n = q \<and> current_state doc s' n \<noteq> q" if pc: "pc = TEnd Moved"
  proof -
    have st: "transition_step api (jobs i) (pcs i) s = (TEnd Moved, s')" using step pc by simp
    have "tj_required (jobs i) \<noteq> []" "pcs i \<noteq> TEnd Moved" using job assms(2) by simp_all
    from moves_from_required [OF ok(1) assms(1) ok(2) this(1) st this(2)] obtain c
      where c: "current_state doc s n = q" "doc s' n = Some (next_state (jobs i), c)" unfolding job(1,2) by blast
    have "current_state doc s' n = tj_new (jobs i)"
      using c(2) job(3) by (simp add: current_state_def next_state_def state_or_started_def)
    then show ?thesis using c(1) job(4) by simp
  qed
  have keep: "s' = s" if "pc \<noteq> TEnd Moved" by (rule unmoved_same [OF ok(1) assms(1,2) step that])
  from assms(7) consider
    "one_moved pcs" "current_state doc s n \<noteq> q" | "doc s n = d" "\<And>k. pcs k = TRead 0 \<or> pcs k = TWrite 0 (map_option snd d)"
    unfolding race_inv_def by auto
  then show ?thesis
  proof cases
    case 1
    then have "pc \<noteq> TEnd Moved" using moved by blast
    with 1 keep one_moved_keeps [OF 1(1) assms(2)] show ?thesis by (simp add: race_inv_def)
  next
    case 2
    from race_first_step [OF assms(5,6) 2(1) 2(2) step] consider "pc = TEnd Moved" | "s' = s" "pc = TWrite 0 (map_option snd d)"
      by blast
    then show ?thesis
    proof cases
      case 1
      then show ?thesis using moved one_moved_first [OF 2(2)] by (simp add: race_inv_def)
    next
      case same: 2
      then show ?thesis using 2 by (simp add: race_inv_def)
    qed
  qed
qed

lemma race_reachable:
  assumes "(replica_step api room jobs)\<^sup>*\<^sup>* (conc_start jobs s) c" and "ok s" and "contenders jobs n q"
    and "current_state doc s n = q"
  shows "conc_ok jobs c \<and> race_inv jobs n q (doc s n) c"
  using assms(1)
proof (induction rule: rtranclp_induct)
  case base
  have "transition_start (jobs i) = TRead 0" for i
    using assms(3) by (auto simp: contenders_def transition_start_def)
  then show ?case using conc_start_ok [OF assms(2), of jobs] by (simp add: race_inv_def conc_start_def)
next
  case (step c c')
  from step(2) have "race_inv jobs n q (doc s n) c'"
  proof (cases rule: replica_step.cases)
    case (1 t pcs i pc t')
    then show ?thesis
      using race_step [of t pcs i jobs pc t' n q "doc s n", OF 1(3,4,5) _ assms(3)] step(3) assms(4)
      by (simp add: current_state_def)
  qed
  then show ?case using step(3) conc_step_ok [OF replica_is_conc [OF step(2)]] by blast
qed

lemma one_replica_moves:
  assumes "(replica_step api room jobs)\<^sup>*\<^sup>* (conc_start jobs s) (s', pcs)" and "ok s" and "contenders jobs n q"
    and "current_state doc s n = q" and "pcs i = TEnd r"
  shows "one_moved pcs"
proof -
  from race_reachable [OF assms(1-4)] consider "one_moved pcs"
    | "\<And>k. pcs k = TRead 0 \<or> pcs k = TWrite 0 (map_option snd (doc s n))"
    unfolding race_inv_def by auto
  then show ?thesis
  proof cases
    case 2
    from this [of i] assms(5) show ?thesis by auto
  qed
qed

end

section \<open>The match-time gate\<close>

definition memoized_state :: "('x, 'p, 'e) parsed_request \<Rightarrow> string \<Rightarrow> string option" where
  "memoized_state r n = pr_scenario_states r n"

definition gate_of :: "'s scenario_api \<Rightarrow> ('x, 'p, store_error, 's) scenario_gate" where
  "gate_of api ref r w =
     (if sr_required_state ref = [] then (True, r, w)
      else case memoized_state r (sr_name ref) of
             Some state \<Rightarrow> (state = sr_required_state ref, r, w)
           | None \<Rightarrow>
               (case client_state api (sr_name ref) w of
                  (Inl err, w) \<Rightarrow> (False, fail_scenario_read err r, w)
                | (Inr state, w) \<Rightarrow>
                    (state = sr_required_state ref, memoize_scenario_state (sr_name ref) state r, w)))"

interpretation scenario_gate: wire_keeping_gate "gate_of api" for api
  by unfold_locales (auto simp: gate_of_def split: if_splits option.splits prod.splits sum.splits)

text \<open>Whether a stub's scenario is in the state the stub asks for.\<close>

definition scenario_open :: "(string \<Rightarrow> string) \<Rightarrow> 't compiled_stub \<Rightarrow> bool" where
  "scenario_open current cs =
     (case cs_scenario cs of
        None \<Rightarrow> True
      | Some ref \<Rightarrow> sr_required_state ref = [] \<or> current (sr_name ref) = sr_required_state ref)"

text \<open>The memo holds what the store holds.\<close>

definition memo_ok :: "(string \<Rightarrow> string) \<Rightarrow> ('x, 'p, 'e) parsed_request \<Rightarrow> bool" where
  "memo_ok current r \<longleftrightarrow> (\<forall>n st. pr_scenario_states r n = Some st \<longrightarrow> st = current n)"

text \<open>What a criterion never touches: the scenario memo and the scenario error.\<close>

abbreviation scenario_part :: "('x, 'p, 'e) parsed_request \<Rightarrow> (string \<rightharpoonup> string) \<times> 'e option" where
  "scenario_part r \<equiv> (pr_scenario_states r, pr_scenario_err r)"

lemma full_match_scenario:
  assumes "request_inv rd r"
  shows "scenario_part (snd (full_match rd cs r)) = scenario_part r"
proof -
  let ?r = "if cs_url_kind cs = URLTemplate then clear_path_vars r else r"
  have url: "scenario_part (snd (match_url cs r)) = scenario_part r" for r :: "('a, 'b, 'c) parsed_request"
    by (cases "cs_url_kind cs") (auto simp: match_url_def foldl_bind_path_vars split: prod.splits)
  have crit: "scenario_part (snd (check_criteria rd c r)) = scenario_part r"
    if "request_inv rd r" for c and r :: "('a, 'b, 'c) parsed_request"
    using check_criteria_ok [OF that, of c] by (simp add: same_request_def)
  have 0: "request_inv rd ?r" "scenario_part ?r = scenario_part r"
    using assms by (simp_all add: clear_path_vars_def request_inv_def)
  obtain ok0 r0 where m: "match_url cs ?r = (ok0, r0)" by fastforce
  have r0: "request_inv rd r0" "scenario_part r0 = scenario_part r"
    using match_url_wire(2) [of rd cs ?r] url [of ?r] 0 m by simp_all
  obtain ok1 r1 where c1: "check_criteria rd (criteria_before_auth cs) r0 = (ok1, r1)" by fastforce
  have r1: "request_inv rd r1" "scenario_part r1 = scenario_part r"
    using check_criteria_ok [OF r0(1), of "criteria_before_auth cs"] crit [OF r0(1), of "criteria_before_auth cs"] r0 c1
    by simp_all
  obtain ok2 r2 where c2: "check_criteria rd (criteria_after_auth cs) r1 = (ok2, r2)" by fastforce
  have "scenario_part r2 = scenario_part r"
    using crit [OF r1(1), of "criteria_after_auth cs"] r1 c2 by simp
  then show ?thesis using m r0 r1 c1 c2 by (simp add: full_match_def Let_def split: bool.splits)
qed

lemma full_match_memo:
  "request_inv rd r \<Longrightarrow> pr_scenario_states (snd (full_match rd cs r)) = pr_scenario_states r"
  "request_inv rd r \<Longrightarrow> pr_scenario_err (snd (full_match rd cs r)) = pr_scenario_err r"
  using full_match_scenario [of rd r cs] by simp_all

context reachable_scenario_store
begin

lemma client_state_exact: "client_state api n s = (Inr (current_state doc s n), s)"
  by (simp add: client_state_def get_exact current_state_def is_not_found_def split: option.splits prod.splits)

lemma gate_exact:
  assumes "memo_ok (current_state doc w) r" and "gate_of api ref r w = (ok', r', w')"
  shows "w' = w \<and> ok' = (sr_required_state ref = [] \<or> current_state doc w (sr_name ref) = sr_required_state ref) \<and>
     memo_ok (current_state doc w) r' \<and> same_wire r r' \<and> (request_inv rd r \<longrightarrow> request_inv rd r')"
proof (cases "sr_required_state ref = []")
  case True
  then show ?thesis using assms by (simp add: gate_of_def)
next
  case False
  show ?thesis
  proof (cases "pr_scenario_states r (sr_name ref)")
    case None
    then have "ok' = (current_state doc w (sr_name ref) = sr_required_state ref)" "w' = w"
      "r' = memoize_scenario_state (sr_name ref) (current_state doc w (sr_name ref)) r"
      using assms(2) False by (auto simp: gate_of_def memoized_state_def client_state_exact)
    then show ?thesis using False assms(1)
      by (simp add: memo_ok_def memoize_scenario_state_def request_inv_def same_wire_def)
  next
    case (Some st)
    moreover from this have "st = current_state doc w (sr_name ref)" using assms(1) by (simp add: memo_ok_def)
    ultimately show ?thesis using assms False by (auto simp: gate_of_def memoized_state_def)
  qed
qed

lemma scan_gated:
  assumes "request_inv rd r" and "memo_ok (current_state doc w) r" and "\<forall>cs \<in> set css. stub_ok cs"
  shows "fst (scan_stubs rd (Some (gate_of api)) css r w) =
     find (\<lambda>cs. stub_matches rd cs r \<and> scenario_open (current_state doc w) cs) css"
  using assms
proof (induction css arbitrary: r)
  case (Cons cs css)
  let ?open = "scenario_open (current_state doc w)"
  obtain okm r1 where m: "full_match rd cs r = (okm, r1)" by fastforce
  with full_match_ok [OF Cons.prems(1), of cs] full_match_wire [of r rd cs] full_match_memo(1) [OF Cons.prems(1), of cs]
  have 1: "okm = stub_matches rd cs r" "request_inv rd r1" "same_wire r r1" "memo_ok (current_state doc w) r1"
    using Cons.prems(2) by (simp_all add: memo_ok_def)
  have next_ok: "fst (scan_stubs rd (Some (gate_of api)) css r' w) = find (\<lambda>cs. stub_matches rd cs r \<and> ?open cs) css"
    if "request_inv rd r'" "same_wire r r'" "memo_ok (current_state doc w) r'" for r'
  proof -
    have "find (\<lambda>cs. stub_matches rd cs r' \<and> ?open cs) css = find (\<lambda>cs. stub_matches rd cs r \<and> ?open cs) css"
    proof (intro find_cong refl)
      fix x assume "x \<in> set css"
      then have "stub_ok x" using Cons.prems(3) by simp
      from stub_matches_wire [OF this that(2), of rd]
      show "(stub_matches rd x r' \<and> ?open x) = (stub_matches rd x r \<and> ?open x)" by simp
    qed
    then show ?thesis using Cons.IH [OF that(1,3)] Cons.prems(3) by simp
  qed
  show ?case
  proof (cases "okm \<and> cs_scenario cs \<noteq> None")
    case False
    then show ?thesis using m 1 next_ok [OF 1(2,3,4)] by (cases okm) (auto simp: scenario_open_def)
  next
    case True
    then obtain ref where ref: "cs_scenario cs = Some ref" by auto
    obtain ok2 r2 w2 where g: "gate_of api ref r1 w = (ok2, r2, w2)" by (metis prod_cases3)
    from gate_exact [OF 1(4) g, of rd] 1(2)
    have 2: "w2 = w" "ok2 = ?open cs" "memo_ok (current_state doc w) r2" "same_wire r1 r2" "request_inv rd r2"
      by (simp_all add: scenario_open_def ref)
    have "same_wire r r2" by (rule same_wire_trans [OF 1(3) 2(4)])
    then show ?thesis using True m 1(1) ref g 2 next_ok [OF 2(5) _ 2(3)] by (cases ok2) simp_all
  qed
qed simp

lemma gated_selection:
  assumes s: "s = build_snapshot stubs epoch" and "pr_method r \<noteq> any_method" and "request_inv rd r"
    and "pr_scenario_states r = Map.empty" and "\<forall>cs \<in> set stubs. stub_ok cs"
  shows "(case fst (match_snapshot rd s (Some (gate_of api)) r w) of
     None \<Rightarrow> \<forall>cs \<in> set stubs. \<not> (stub_matches rd cs r \<and> scenario_open (current_state doc w) cs)
   | Some cs \<Rightarrow> cs \<in> set stubs \<and> stub_matches rd cs r \<and> scenario_open (current_state doc w) cs \<and>
       (\<forall>cs' \<in> set stubs. stub_matches rd cs' r \<and> scenario_open (current_state doc w) cs' \<longrightarrow> \<not> selection_less cs' cs))"
proof -
  let ?o = "sort_selection_order stubs" and ?P = "\<lambda>cs. stub_matches rd cs r \<and> scenario_open (current_state doc w) cs"
  have set: "set ?o = set stubs" by (simp add: sort_selection_order_key)
  obtain k where k: "drop_seen (match_snapshot rd s (Some (gate_of api)) r w) =
      scan_stubs rd (Some (gate_of api)) ?o (r\<lparr>pr_key_buf := k\<rparr>) w"
    using scenario_gate.serves_scan [where rd = rd and api = api and w = w, OF s assms(2)] by blast
  have inv: "request_inv rd (r\<lparr>pr_key_buf := k\<rparr>)" "memo_ok (current_state doc w) (r\<lparr>pr_key_buf := k\<rparr>)"
    using assms(3,4) by (simp_all add: request_inv_def memo_ok_def)
  have "fst (match_snapshot rd s (Some (gate_of api)) r w) =
      fst (scan_stubs rd (Some (gate_of api)) ?o (r\<lparr>pr_key_buf := k\<rparr>) w)"
    using k by (cases "match_snapshot rd s (Some (gate_of api)) r w") (metis drop_seen_simps fst_conv)
  also have "\<dots> = find (\<lambda>cs. stub_matches rd cs (r\<lparr>pr_key_buf := k\<rparr>) \<and> scenario_open (current_state doc w) cs) ?o"
    by (rule scan_gated [OF inv]) (use assms(5) set in simp)
  also have "\<dots> = find ?P ?o"
  proof (intro find_cong refl)
    fix cs assume "cs \<in> set ?o"
    then have "stub_ok cs" using assms(5) set by blast
    from stub_matches_wire [OF this same_wire_path_vars(3) [of r k], of rd]
    show "(stub_matches rd cs (r\<lparr>pr_key_buf := k\<rparr>) \<and> scenario_open (current_state doc w) cs) = ?P cs" by simp
  qed
  finally have f: "fst (match_snapshot rd s (Some (gate_of api)) r w) = find ?P ?o" .
  have "sorted (map selection_key ?o)" by (simp add: sort_selection_order_key)
  from find_sorted [OF this, of ?P] show ?thesis
    unfolding f set by (auto simp: selection_less_key split: option.splits)
qed

end

section \<open>Over the in-process driver\<close>

definition mem_api :: "mem_store scenario_api" where
  "mem_api = \<lparr>sa_get = mem_get_scenario, sa_insert = mem_insert_scenario, sa_replace = mem_replace_scenario,
     sa_upsert = mem_upsert_scenario, sa_delete_all = mem_delete_all_scenarios\<rparr>"

lemma mem_api_simps:
  "sa_get mem_api = mem_get_scenario" "sa_insert mem_api = mem_insert_scenario" "sa_replace mem_api = mem_replace_scenario"
  "sa_upsert mem_api = mem_upsert_scenario"
  by (simp_all add: mem_api_def)

lemma mem_scen_api: "mem_scen.api = mem_api"
  by (simp add: mem_scen.api_def mem_api_def)

lemma mem_get_current:
  "mem_get_scenario n s = (case mem_doc s n of None \<Rightarrow> Inl ErrNotFound | Some d \<Rightarrow> Inr d, s)"
  by (rule mem_scen.get_exact)

section \<open>Properties\<close>

text \<open>
  C17. Replicas racing to move a scenario out of one state, each through its own reads and
  compare-and-swap writes in any interleaving: once any of them has finished, exactly one has moved
  the scenario.
\<close>

theorem exactly_one_replica_moves:
  assumes "(replica_step mem_api mem_room jobs)\<^sup>*\<^sup>* (conc_start jobs s) (s', pcs)" and "mem_tokens_ok s"
    and "contenders jobs n q" and "current_state mem_doc s n = q" and "pcs i = TEnd r"
  shows "one_moved pcs"
  by (rule mem_scen.one_replica_moves [unfolded mem_scen_api, OF assms])

definition sample_job :: "nat \<Rightarrow> transition_job" where
  "sample_job i = \<lparr>tj_name = ''n'', tj_required = ''Started'', tj_new = ''done'', tj_now = 0\<rparr>"

lemma sample_job_simps:
  "tj_name (sample_job i) = ''n''" "tj_required (sample_job i) = scenario_started" "tj_new (sample_job i) = ''done''"
  by (simp_all add: sample_job_def scenario_started_def)

lemma mem_tokens_ok_new: "mem_tokens_ok (mem_new ttl now)" "0 < mem_room (mem_new ttl now)"
  by (simp_all add: mem_tokens_ok_def mem_new_def mem_room_def)

lemma sample_read: "transition_step mem_api (sample_job i) (TRead 0) (mem_new 0 0) = (TWrite 0 None, mem_new 0 0)"
  by (simp add: transition_step_def transition_read_def mem_api_simps mem_get_scenario_def mem_new_def is_not_found_def
      sample_job_simps)

lemma sample_write:
  "transition_step mem_api (sample_job i) (TWrite 0 None) (mem_new 0 0) =
     (TEnd Moved, store_scenario ''n'' (next_state (sample_job i)) (mem_new 0 0))"
  by (simp add: transition_step_def transition_write_def mem_api_simps mem_insert_scenario_def mem_new_def sample_job_simps)

lemma sample_start: "conc_start sample_job s = (s, \<lambda>_. TRead 0)"
  by (simp add: conc_start_def transition_start_def sample_job_def)

lemma sample_run:
  "(replica_step mem_api mem_room sample_job)\<^sup>*\<^sup>* (conc_start sample_job (mem_new 0 0))
     (mem_new 0 0, (\<lambda>_. TRead 0)(0 := TWrite 0 None))"
  unfolding sample_start
  by (intro r_into_rtranclp replica_step.intros) (simp_all add: sample_read mem_tokens_ok_new)

theorem exactly_one_replica_moves_witness:
  "\<exists>s' pcs. (replica_step mem_api mem_room sample_job)\<^sup>*\<^sup>* (conc_start sample_job (mem_new 0 0)) (s', pcs) \<and>
     pcs 0 = TEnd Moved \<and> one_moved pcs"
proof -
  let ?s = "store_scenario ''n'' (next_state (sample_job 0)) (mem_new 0 0)"
  let ?pcs = "((\<lambda>_. TRead 0)(0 := TWrite 0 None))(0 := TEnd Moved)"
  have "replica_step mem_api mem_room sample_job (mem_new 0 0, (\<lambda>_. TRead 0)(0 := TWrite 0 None)) (?s, ?pcs)"
    by (rule replica_step.intros) (simp_all add: sample_write mem_tokens_ok_new)
  with sample_run have run: "(replica_step mem_api mem_room sample_job)\<^sup>*\<^sup>* (conc_start sample_job (mem_new 0 0)) (?s, ?pcs)"
    by (rule rtranclp.rtrancl_into_rtrancl)
  have "contenders sample_job ''n'' scenario_started"
    by (simp add: contenders_def sample_job_simps) (simp add: scenario_started_def)
  moreover have "current_state mem_doc (mem_new 0 0) ''n'' = scenario_started"
    by (simp add: current_state_def mem_doc_def mem_new_def)
  ultimately have "one_moved ?pcs"
    by (rule exactly_one_replica_moves [OF run mem_tokens_ok_new(1), where i = 0 and r = Moved]) simp
  with run show ?thesis by (intro exI [of _ ?s] exI [of _ ?pcs]) simp
qed

text \<open>
  C19. A gated transition that moves its scenario found it, at the moment of its write, in the state
  its stub requires, whatever other replicas, state writes and resets came between its read and its
  write.
\<close>

theorem transition_moves_from_required:
  assumes "(conc_step mem_api mem_room jobs)\<^sup>*\<^sup>* (conc_start jobs s0) (s, pcs)" and "mem_tokens_ok s0" and "0 < mem_room s"
    and "tj_required (jobs i) \<noteq> []" and "pcs i \<noteq> TEnd Moved"
    and "transition_step mem_api (jobs i) (pcs i) s = (TEnd Moved, s')"
  shows "current_state mem_doc s (tj_name (jobs i)) = tj_required (jobs i) \<and>
     (\<exists>c. mem_doc s' (tj_name (jobs i)) = Some (next_state (jobs i), c))"
proof -
  have "mem_scen.conc_ok jobs (s, pcs)"
    using mem_scen.conc_reachable_ok [unfolded mem_scen_api] assms(1,2) by blast
  then have "mem_tokens_ok s" "mem_scen.pc_ok s (jobs i) (pcs i)" by (simp_all add: mem_scen.conc_ok_def)
  from mem_scen.moves_from_required [unfolded mem_scen_api, OF this(1) assms(3) this(2) assms(4,6,5)] show ?thesis .
qed

theorem transition_moves_from_required_witness:
  "current_state mem_doc (mem_new 0 0) ''n'' = ''Started''"
proof -
  have "conc_step mem_api mem_room sample_job (mem_new 0 0, \<lambda>_. TRead 0)
      (mem_new 0 0, (\<lambda>_. TRead 0)(0 := TWrite 0 None))"
    by (rule conc_step.call) (simp_all add: sample_read mem_tokens_ok_new)
  then have run: "(conc_step mem_api mem_room sample_job)\<^sup>*\<^sup>* (conc_start sample_job (mem_new 0 0))
      (mem_new 0 0, (\<lambda>_. TRead 0)(0 := TWrite 0 None))"
    unfolding sample_start by (rule r_into_rtranclp)
  have "current_state mem_doc (mem_new 0 0) (tj_name (sample_job 0)) = tj_required (sample_job 0) \<and>
      (\<exists>c. mem_doc (store_scenario ''n'' (next_state (sample_job 0)) (mem_new 0 0)) (tj_name (sample_job 0)) =
         Some (next_state (sample_job 0), c))"
    by (rule transition_moves_from_required [OF run])
      (simp_all add: mem_tokens_ok_new sample_job_simps sample_write scenario_started_def)
  then show ?thesis by (simp add: sample_job_def)
qed

text \<open>
  C20. A transition is over after at most six store calls, whatever states of the store its calls
  find: it reads and writes at most three times.
\<close>

theorem transition_bounded:
  "\<exists>r. foldl (\<lambda>pc s. fst (transition_step api j pc s)) (transition_start j) [s1, s2, s3, s4, s5, s6] = TEnd r"
proof -
  have "calls_left (fst (transition_step api j pc s)) \<le> calls_left pc - 1" for pc s
  proof (cases "\<exists>r. pc = TEnd r")
    case False
    then show ?thesis using transition_step_calls [of pc api j s] by fastforce
  qed (auto simp: transition_step_def)
  note step = this
  have fold: "calls_left (foldl (\<lambda>pc s. fst (transition_step api j pc s)) pc ss) \<le> calls_left pc - length ss" for pc ss
  proof (induction ss arbitrary: pc)
    case (Cons s ss)
    from Cons [of "fst (transition_step api j pc s)"] step [of pc s] show ?case by simp
  qed simp
  have "calls_left (transition_start j) \<le> 6" by (simp add: transition_start_def cas_attempts_def)
  with fold [of "transition_start j" "[s1, s2, s3, s4, s5, s6]"]
  have z: "calls_left (foldl (\<lambda>pc s. fst (transition_step api j pc s)) (transition_start j) [s1, s2, s3, s4, s5, s6]) = 0"
    by simp
  have "\<exists>r. pc = TEnd r" if "calls_left pc = 0" for pc
    using that by (cases pc) (auto split: if_splits)
  then show ?thesis using z by blast
qed

text \<open>
  With nobody else at the store a transition moves the scenario exactly when it declares no
  required state or finds the required one, and otherwise leaves the store alone.
\<close>

lemma transition_alone:
  "transition mem_api j s =
     (if tj_new j = [] then (NotAsked, s)
      else if tj_required j = [] \<or> current_state mem_doc s (tj_name j) = tj_required j
      then (Moved, store_scenario (tj_name j) (next_state j) s)
      else (Skipped, s))"
proof -
  have step: "run_transition mem_api j pc s = (case transition_step mem_api j pc s of (pc, s) \<Rightarrow> run_transition mem_api j pc s)"
    if "\<forall>r. pc \<noteq> TEnd r" for pc s
    using that by (subst run_transition.simps) (simp split: transition_pc.splits)
  have fin: "run_transition mem_api j (TEnd r) s = (r, s)" for r s
    by (subst run_transition.simps) simp
  note defs = transition_step_def transition_read_def transition_write_def mem_api_simps mem_get_current mem_insert_scenario_def
    mem_replace_scenario_def mem_upsert_scenario_def is_not_found_def
  consider "tj_new j = []" | "tj_new j \<noteq> []" "tj_required j = []" | "tj_new j \<noteq> []" "tj_required j \<noteq> []" by blast
  then show ?thesis
  proof cases
    case 1
    then show ?thesis by (simp add: transition_def transition_start_def fin)
  next
    case 2
    then show ?thesis by (simp add: transition_def transition_start_def step fin defs)
  next
    case 3
    show ?thesis
    proof (cases "map_of (mem_scenarios s) (tj_name j)")
      case None
      then show ?thesis using 3
        by (simp add: transition_def transition_start_def step fin defs mem_doc_def current_state_def)
    next
      case (Some e)
      then show ?thesis using 3
        by (simp add: transition_def transition_start_def step fin defs mem_doc_def current_state_def)
    qed
  qed
qed

text \<open>
  C18. With scenarios, the served stub is the best of those whose criteria hold and whose scenario
  is in the state they require; a request reads its scenarios' states once and sees one state each.
\<close>

theorem gated_selection_exact:
  assumes "s = build_snapshot stubs epoch" and "pr_method r \<noteq> any_method" and "request_inv rd r"
    and "pr_scenario_states r = Map.empty" and "\<forall>cs \<in> set stubs. stub_ok cs"
  shows "(case fst (match_snapshot rd s (Some (gate_of mem_api)) r w) of
     None \<Rightarrow> \<forall>cs \<in> set stubs. \<not> (stub_matches rd cs r \<and> scenario_open (current_state mem_doc w) cs)
   | Some cs \<Rightarrow> cs \<in> set stubs \<and> stub_matches rd cs r \<and> scenario_open (current_state mem_doc w) cs \<and>
       (\<forall>cs' \<in> set stubs. stub_matches rd cs' r \<and> scenario_open (current_state mem_doc w) cs' \<longrightarrow> \<not> selection_less cs' cs))"
  by (rule mem_scen.gated_selection [unfolded mem_scen_api, OF assms])

theorem gated_selection_exact_witness:
  "\<forall>rd :: (unit, unit) reader.
   fst (match_snapshot rd
     (build_snapshot [catch_all_stub 1,
        (catch_all_stub 2)\<lparr>cs_scenario := Some \<lparr>sr_name = ''n'', sr_required_state = ''done'', sr_new_state = []\<rparr>\<rparr>] 0
        :: (unit, unit) snapshot)
     (Some (gate_of mem_api)) (new_request :: (unit, unit, store_error) parsed_request) (mem_new 0 0)) =
   Some (catch_all_stub 1)"
proof
  fix rd :: "(unit, unit) reader"
  let ?b = "(catch_all_stub 2)\<lparr>cs_scenario := Some \<lparr>sr_name = ''n'', sr_required_state = ''done'', sr_new_state = []\<rparr>\<rparr>"
  let ?stubs = "[catch_all_stub 1, ?b]" and ?r = "new_request :: (unit, unit, store_error) parsed_request"
  let ?open = "scenario_open (current_state mem_doc (mem_new 0 0))"
  let ?m = "fst (match_snapshot rd (build_snapshot ?stubs 0 :: (unit, unit) snapshot) (Some (gate_of mem_api)) ?r (mem_new 0 0))"
  have "case ?m of None \<Rightarrow> \<forall>cs \<in> set ?stubs. \<not> (stub_matches rd cs ?r \<and> ?open cs)
    | Some cs \<Rightarrow> cs \<in> set ?stubs \<and> stub_matches rd cs ?r \<and> ?open cs \<and>
        (\<forall>cs' \<in> set ?stubs. stub_matches rd cs' ?r \<and> ?open cs' \<longrightarrow> \<not> selection_less cs' cs)"
  proof (rule gated_selection_exact [OF refl])
    show "pr_method ?r \<noteq> any_method" "pr_scenario_states ?r = Map.empty" by (simp_all add: new_request_def any_method_def)
    show "request_inv rd ?r" by (rule request_inv_new)
    show "\<forall>cs \<in> set ?stubs. stub_ok cs" by (simp add: stub_ok_def catch_all_stub_def)
  qed
  moreover have "?open (catch_all_stub 1)" "\<not> ?open ?b"
    by (simp_all add: scenario_open_def catch_all_stub_def current_state_def mem_doc_def mem_new_def scenario_started_def)
  ultimately show "?m = Some (catch_all_stub 1)"
    by (auto simp: catch_all_matches split: option.splits)
qed

end
