(* ===== verification/Journal.thy ===== *)
theory Journal
  imports Json_Match Query_Text Memory_Facts
begin

text \<open>
  \<^verbatim>\<open>internal/journal/journal.go\<close>: the bounded queue between the request path and the flushers. The
  request path reserves bytes and then offers the entry to the queue, the flushers take entries,
  batch them and write the batches; each of these is one atomic step, and \<open>journal_step\<close> is every
  interleaving of any number of requests, flushers, ticks and the stop signal.
\<close>

section \<open>State\<close>

record journal_config =
  jf_max_body :: int
  jf_buffer_entries :: nat
  jf_buffer_bytes :: int
  jf_flush_workers :: int
  jf_batch_size :: int
  jf_pod :: string

record queued_entry =
  qe_id :: string
  qe_ts :: int
  qe_pod :: string
  qe_payload :: bytes

text \<open>
  Where a flusher is: collecting a batch (before or after it saw the stop signal), writing one,
  giving its bytes back, or gone. \<open>flush_next\<close> is what it goes on with after the write.
\<close>

datatype flush_next = NextLoop | NextDrain | NextExit

datatype flusher =
    Collecting "queued_entry list" bool
  | Writing "queued_entry list" flush_next
  | Releasing "queued_entry list" flush_next
  | Gone

text \<open>
  The writer. \<open>jw_reserved\<close> are the entries between their reservation and their offer, one per
  request in flight; \<open>jw_recorded\<close> and \<open>jw_dropped\<close> are the entries the drop counter and the request
  path account for, and \<open>jw_store\<close> what the store was given.
\<close>

record journal_writer =
  jw_queue :: "queued_entry list"
  jw_bytes :: int
  jw_stop :: bool
  jw_flushers :: "flusher list"
  jw_reserved :: "queued_entry list"
  jw_recorded :: "queued_entry list"
  jw_dropped :: "queued_entry list"
  jw_store :: "journal_entry list"

definition payload_size :: "queued_entry \<Rightarrow> int" where
  "payload_size e = int (length (qe_payload e))"

definition new_writer :: "journal_writer" where
  "new_writer = \<lparr>jw_queue = [], jw_bytes = 0, jw_stop = False, jw_flushers = [], jw_reserved = [], jw_recorded = [],
     jw_dropped = [], jw_store = []\<rparr>"

definition start_writer :: "journal_config \<Rightarrow> journal_writer \<Rightarrow> journal_writer" where
  "start_writer cfg w =
     (let workers = (if jf_flush_workers cfg < 1 then 1 else jf_flush_workers cfg)
      in w\<lparr>jw_flushers := jw_flushers w @ replicate (nat workers) (Collecting [] False)\<rparr>)"

definition stop_writer :: "journal_writer \<Rightarrow> journal_writer" where
  "stop_writer w = w\<lparr>jw_stop := True\<rparr>"

section \<open>The request path\<close>

text \<open>\<^verbatim>\<open>enqueue\<close> up to the unlock: the byte cap.\<close>

definition enqueue_reserve :: "journal_config \<Rightarrow> queued_entry \<Rightarrow> journal_writer \<Rightarrow> journal_writer" where
  "enqueue_reserve cfg e w =
     (let size = payload_size e; w = w\<lparr>jw_recorded := e # jw_recorded w\<rparr>
      in if 0 < jf_buffer_bytes cfg \<and> jw_bytes w + size > jf_buffer_bytes cfg
         then w\<lparr>jw_dropped := e # jw_dropped w\<rparr>
         else w\<lparr>jw_bytes := jw_bytes w + size, jw_reserved := e # jw_reserved w\<rparr>)"

text \<open>The rest of it: the count cap, which gives the reservation back.\<close>

definition enqueue_offer :: "journal_config \<Rightarrow> queued_entry \<Rightarrow> journal_writer \<Rightarrow> journal_writer" where
  "enqueue_offer cfg e w =
     (let w = w\<lparr>jw_reserved := remove1 e (jw_reserved w)\<rparr>
      in if length (jw_queue w) < jf_buffer_entries cfg
         then w\<lparr>jw_queue := jw_queue w @ [e]\<rparr>
         else w\<lparr>jw_bytes := jw_bytes w - payload_size e, jw_dropped := e # jw_dropped w\<rparr>)"

section \<open>The flushers\<close>

definition set_flusher :: "nat \<Rightarrow> flusher \<Rightarrow> journal_writer \<Rightarrow> journal_writer" where
  "set_flusher i f w = w\<lparr>jw_flushers := (jw_flushers w)[i := f]\<rparr>"

text \<open>A flusher takes the head of the queue; a full batch is flushed.\<close>

definition flusher_take :: "journal_config \<Rightarrow> nat \<Rightarrow> queued_entry list \<Rightarrow> bool \<Rightarrow> journal_writer \<Rightarrow> journal_writer" where
  "flusher_take cfg i batch draining w =
     (case jw_queue w of
        [] \<Rightarrow> w
      | e # q \<Rightarrow>
          (let batch = batch @ [e]; w = w\<lparr>jw_queue := q\<rparr>
           in if jf_batch_size cfg \<le> int (length batch)
              then set_flusher i (Writing batch (if draining then NextDrain else NextLoop)) w
              else set_flusher i (Collecting batch draining) w))"

definition flusher_tick :: "nat \<Rightarrow> queued_entry list \<Rightarrow> journal_writer \<Rightarrow> journal_writer" where
  "flusher_tick i batch w = (if 0 < length batch then set_flusher i (Writing batch NextLoop) w else w)"

definition flusher_sees_stop :: "nat \<Rightarrow> queued_entry list \<Rightarrow> journal_writer \<Rightarrow> journal_writer" where
  "flusher_sees_stop i batch w = set_flusher i (Collecting batch True) w"

text \<open>The drain found the queue empty: the last flush, of a batch that may be empty.\<close>

definition flusher_drained :: "nat \<Rightarrow> queued_entry list \<Rightarrow> journal_writer \<Rightarrow> journal_writer" where
  "flusher_drained i batch w =
     (if length batch = 0 then set_flusher i Gone w else set_flusher i (Writing batch NextExit) w)"

definition to_journal_entry :: "queued_entry \<Rightarrow> journal_entry" where
  "to_journal_entry e = \<lparr>je_id = qe_id e, je_ts = qe_ts e, je_pod = qe_pod e, je_data = qe_payload e\<rparr>"

text \<open>The write of \<^verbatim>\<open>flush\<close>; \<open>ok\<close> says whether the store took the batch.\<close>

definition flush_write :: "nat \<Rightarrow> queued_entry list \<Rightarrow> flush_next \<Rightarrow> bool \<Rightarrow> journal_writer \<Rightarrow> journal_writer" where
  "flush_write i batch next ok w =
     set_flusher i (Releasing batch next)
       (if ok then w\<lparr>jw_store := jw_store w @ map to_journal_entry batch\<rparr>
        else w\<lparr>jw_dropped := batch @ jw_dropped w\<rparr>)"

definition after_flush :: "flush_next \<Rightarrow> flusher" where
  "after_flush next = (case next of NextLoop \<Rightarrow> Collecting [] False | NextDrain \<Rightarrow> Collecting [] True | NextExit \<Rightarrow> Gone)"

definition flush_release :: "nat \<Rightarrow> queued_entry list \<Rightarrow> flush_next \<Rightarrow> journal_writer \<Rightarrow> journal_writer" where
  "flush_release i batch next w =
     set_flusher i (after_flush next) (w\<lparr>jw_bytes := jw_bytes w - sum_list (map payload_size batch)\<rparr>)"

inductive journal_step :: "journal_config \<Rightarrow> journal_writer \<Rightarrow> journal_writer \<Rightarrow> bool" for cfg where
  reserve: "journal_step cfg w (enqueue_reserve cfg e w)"
| offer: "e \<in> set (jw_reserved w) \<Longrightarrow> journal_step cfg w (enqueue_offer cfg e w)"
| take: "i < length (jw_flushers w) \<Longrightarrow> jw_flushers w ! i = Collecting batch draining \<Longrightarrow> jw_queue w \<noteq> [] \<Longrightarrow>
     journal_step cfg w (flusher_take cfg i batch draining w)"
| tick: "i < length (jw_flushers w) \<Longrightarrow> jw_flushers w ! i = Collecting batch False \<Longrightarrow>
     journal_step cfg w (flusher_tick i batch w)"
| sees_stop: "i < length (jw_flushers w) \<Longrightarrow> jw_flushers w ! i = Collecting batch False \<Longrightarrow> jw_stop w \<Longrightarrow>
     journal_step cfg w (flusher_sees_stop i batch w)"
| drained: "i < length (jw_flushers w) \<Longrightarrow> jw_flushers w ! i = Collecting batch True \<Longrightarrow> jw_queue w = [] \<Longrightarrow>
     journal_step cfg w (flusher_drained i batch w)"
| flush: "i < length (jw_flushers w) \<Longrightarrow> jw_flushers w ! i = Writing batch next \<Longrightarrow>
     journal_step cfg w (flush_write i batch next ok w)"
| release: "i < length (jw_flushers w) \<Longrightarrow> jw_flushers w ! i = Releasing batch next \<Longrightarrow>
     journal_step cfg w (flush_release i batch next w)"
| stop: "journal_step cfg w (stop_writer w)"

section \<open>Nothing is lost, nothing is held twice\<close>

text \<open>The entries a flusher has taken and not yet handed on, and those whose bytes it still holds.\<close>

definition in_hand :: "flusher \<Rightarrow> queued_entry list" where
  "in_hand f = (case f of Collecting b _ \<Rightarrow> b | Writing b _ \<Rightarrow> b | _ \<Rightarrow> [])"

definition held :: "flusher \<Rightarrow> queued_entry list" where
  "held f = (case f of Collecting b _ \<Rightarrow> b | Writing b _ \<Rightarrow> b | Releasing b _ \<Rightarrow> b | Gone \<Rightarrow> [])"

definition bytes_of :: "queued_entry list \<Rightarrow> int" where
  "bytes_of es = sum_list (map payload_size es)"

definition bytes_held :: "journal_writer \<Rightarrow> int" where
  "bytes_held w = bytes_of (jw_reserved w) + bytes_of (jw_queue w) + (\<Sum>f \<leftarrow> jw_flushers w. bytes_of (held f))"

definition accounted :: "journal_writer \<Rightarrow> journal_entry multiset" where
  "accounted w =
     image_mset to_journal_entry (mset (jw_dropped w) + mset (jw_reserved w) + mset (jw_queue w) +
       (\<Sum>f \<leftarrow> jw_flushers w. mset (in_hand f))) + mset (jw_store w)"

definition journal_ok :: "journal_config \<Rightarrow> journal_writer \<Rightarrow> bool" where
  "journal_ok cfg w \<longleftrightarrow>
     jw_bytes w = bytes_held w \<and>
     (0 < jf_buffer_bytes cfg \<longrightarrow> jw_bytes w \<le> jf_buffer_bytes cfg) \<and>
     length (jw_queue w) \<le> jf_buffer_entries cfg \<and>
     accounted w = image_mset to_journal_entry (mset (jw_recorded w))"

lemma bytes_of_simps [simp]:
  "bytes_of [] = 0" "bytes_of (e # es) = payload_size e + bytes_of es" "bytes_of (xs @ ys) = bytes_of xs + bytes_of ys"
  by (simp_all add: bytes_of_def)

lemma bytes_of_nonneg: "0 \<le> bytes_of es"
  by (induction es) (simp_all add: payload_size_def)

lemma bytes_of_remove1: "e \<in> set es \<Longrightarrow> bytes_of (remove1 e es) = bytes_of es - payload_size e"
  by (induction es) auto

lemma sum_list_set_flusher:
  fixes g :: "flusher \<Rightarrow> 'b::cancel_comm_monoid_add"
  assumes "i < length fs"
  shows "sum_list (map g (fs[i := f])) + g (fs ! i) = sum_list (map g fs) + g f"
  using assms
proof (induction fs arbitrary: i)
  case (Cons x fs)
  show ?case
  proof (cases i)
    case 0
    then show ?thesis by (simp add: ac_simps)
  next
    case (Suc k)
    with Cons.IH [of k] Cons.prems show ?thesis by (simp add: add.assoc)
  qed
qed simp

text \<open>The two sums when one flusher changes.\<close>

lemma bytes_set_flusher:
  "i < length fs \<Longrightarrow>
   (\<Sum>f \<leftarrow> fs[i := g]. bytes_of (held f)) = (\<Sum>f \<leftarrow> fs. bytes_of (held f)) - bytes_of (held (fs ! i)) + bytes_of (held g)"
  using sum_list_set_flusher [of i fs "\<lambda>f. bytes_of (held f)" g] by simp

lemma hand_set_flusher:
  "i < length fs \<Longrightarrow>
   (\<Sum>f \<leftarrow> fs[i := g]. mset (in_hand f)) + mset (in_hand (fs ! i)) = (\<Sum>f \<leftarrow> fs. mset (in_hand f)) + mset (in_hand g)"
  by (rule sum_list_set_flusher)

lemma set_flusher_fields [simp]:
  "jw_queue (set_flusher i f w) = jw_queue w" "jw_bytes (set_flusher i f w) = jw_bytes w"
  "jw_reserved (set_flusher i f w) = jw_reserved w" "jw_recorded (set_flusher i f w) = jw_recorded w"
  "jw_dropped (set_flusher i f w) = jw_dropped w" "jw_store (set_flusher i f w) = jw_store w"
  "jw_flushers (set_flusher i f w) = (jw_flushers w)[i := f]" "jw_stop (set_flusher i f w) = jw_stop w"
  by (simp_all add: set_flusher_def)

text \<open>A flusher's step is checked on the one flusher it changes.\<close>

lemma journal_ok_flusher:
  assumes ok: "journal_ok cfg w" and i: "i < length (jw_flushers w)" and fs: "jw_flushers w' = (jw_flushers w)[i := f]"
    and same: "jw_reserved w' = jw_reserved w" "jw_recorded w' = jw_recorded w"
    and bytes: "jw_bytes w' + bytes_of (held (jw_flushers w ! i)) + bytes_of (jw_queue w) =
      jw_bytes w + bytes_of (held f) + bytes_of (jw_queue w')" "jw_bytes w' \<le> jw_bytes w"
    and queue: "length (jw_queue w') \<le> length (jw_queue w)"
    and hand: "image_mset to_journal_entry (mset (jw_dropped w') + mset (jw_queue w') + mset (in_hand f)) + mset (jw_store w') =
      image_mset to_journal_entry (mset (jw_dropped w) + mset (jw_queue w) + mset (in_hand (jw_flushers w ! i))) + mset (jw_store w)"
  shows "journal_ok cfg w'"
proof -
  have "jw_bytes w' = bytes_held w'"
    using ok bytes(1) bytes_set_flusher [OF i, of f] by (simp add: journal_ok_def bytes_held_def fs same)
  moreover have "accounted w' = accounted w"
  proof -
    let ?im = "image_mset to_journal_entry" and ?h = "\<Sum>f \<leftarrow> jw_flushers w. mset (in_hand f)"
    let ?h' = "\<Sum>f \<leftarrow> (jw_flushers w)[i := f]. mset (in_hand f)" and ?o = "mset (in_hand (jw_flushers w ! i))"
    have "accounted w' + ?im ?o = ?im (mset (jw_dropped w') + mset (jw_queue w')) + ?im (?h' + ?o) + ?im (mset (jw_reserved w)) + mset (jw_store w')"
      by (simp add: accounted_def fs same ac_simps)
    also have "?h' + ?o = ?h + mset (in_hand f)" by (rule hand_set_flusher [OF i])
    also have "?im (mset (jw_dropped w') + mset (jw_queue w')) + ?im (?h + mset (in_hand f)) + ?im (mset (jw_reserved w)) + mset (jw_store w') =
        (?im (mset (jw_dropped w') + mset (jw_queue w') + mset (in_hand f)) + mset (jw_store w')) + ?im (?h + mset (jw_reserved w))"
      by (simp add: ac_simps)
    also note hand
    also have "(?im (mset (jw_dropped w) + mset (jw_queue w) + ?o) + mset (jw_store w)) + ?im (?h + mset (jw_reserved w)) =
        accounted w + ?im ?o"
      by (simp add: accounted_def ac_simps)
    finally show ?thesis by simp
  qed
  ultimately show ?thesis
    using ok bytes(2) queue by (auto simp: journal_ok_def same)
qed

lemma journal_step_ok: "journal_step cfg w w' \<Longrightarrow> journal_ok cfg w \<Longrightarrow> journal_ok cfg w'"
proof (induction rule: journal_step.induct)
  case (reserve w e)
  then show ?case
    by (auto simp: journal_ok_def enqueue_reserve_def bytes_held_def accounted_def Let_def ac_simps)
next
  case (offer e w)
  define R where "R = remove1 e (jw_reserved w)"
  have m: "mset (jw_reserved w) = add_mset e (mset R)" using offer(1) by (simp add: R_def)
  have b: "bytes_of (jw_reserved w) = payload_size e + bytes_of R" using offer(1) by (simp add: R_def bytes_of_remove1)
  have pos: "0 \<le> payload_size e" by (simp add: payload_size_def)
  have ok: "jw_bytes w = bytes_held w" "0 < jf_buffer_bytes cfg \<longrightarrow> jw_bytes w \<le> jf_buffer_bytes cfg"
    "length (jw_queue w) \<le> jf_buffer_entries cfg" "accounted w = image_mset to_journal_entry (mset (jw_recorded w))"
    using offer(2) unfolding journal_ok_def by auto
  show ?case
  proof (cases "length (jw_queue w) < jf_buffer_entries cfg")
    case True
    let ?w = "w\<lparr>jw_reserved := R, jw_queue := jw_queue w @ [e]\<rparr>"
    have "bytes_held ?w = bytes_held w" "accounted ?w = accounted w"
      by (simp_all add: bytes_held_def accounted_def b m)
    then show ?thesis using True ok
      by (simp add: enqueue_offer_def Let_def journal_ok_def flip: R_def)
  next
    case False
    let ?w = "w\<lparr>jw_reserved := R, jw_bytes := jw_bytes w - payload_size e, jw_dropped := e # jw_dropped w\<rparr>"
    have "bytes_held ?w = bytes_held w - payload_size e" "accounted ?w = accounted w"
      by (simp_all add: bytes_held_def accounted_def b m)
    then show ?thesis using False ok pos
      by (auto simp: enqueue_offer_def Let_def journal_ok_def simp flip: R_def)
  qed
next
  case (take i w batch draining)
  then obtain e q where q: "jw_queue w = e # q" by (cases "jw_queue w") auto
  let ?f = "if jf_batch_size cfg \<le> int (length (batch @ [e]))
     then Writing (batch @ [e]) (if draining then NextDrain else NextLoop) else Collecting (batch @ [e]) draining"
  have w': "flusher_take cfg i batch draining w = set_flusher i ?f (w\<lparr>jw_queue := q\<rparr>)"
    by (simp add: flusher_take_def q Let_def)
  show ?case
    unfolding w' by (rule journal_ok_flusher [OF take(4,1), where f = ?f]) (simp_all add: q take(2) held_def in_hand_def)
next
  case (tick i w batch)
  show ?case
  proof (cases "batch = []")
    case False
    then have w': "flusher_tick i batch w = set_flusher i (Writing batch NextLoop) w" by (simp add: flusher_tick_def)
    show ?thesis
      unfolding w' by (rule journal_ok_flusher [OF tick(3,1), where f = "Writing batch NextLoop"])
        (simp_all add: tick(2) held_def in_hand_def)
  qed (use tick in \<open>simp add: flusher_tick_def\<close>)
next
  case (sees_stop i w batch)
  show ?case
    unfolding flusher_sees_stop_def
    by (rule journal_ok_flusher [OF sees_stop(4,1), where f = "Collecting batch True"])
      (simp_all add: sees_stop(2) held_def in_hand_def)
next
  case (drained i w batch)
  let ?f = "if batch = [] then Gone else Writing batch NextExit"
  have w': "flusher_drained i batch w = set_flusher i ?f w" by (simp add: flusher_drained_def)
  show ?case
    unfolding w' by (rule journal_ok_flusher [OF drained(4,1), where f = ?f])
      (simp_all add: drained(2) held_def in_hand_def)
next
  case (flush i w batch "next" ok)
  show ?case
    unfolding flush_write_def
    by (rule journal_ok_flusher [OF flush(3,1), where f = "Releasing batch next"])
      (simp_all add: flush(2) held_def in_hand_def)
next
  case (release i w batch "next")
  show ?case
    unfolding flush_release_def
    by (rule journal_ok_flusher [OF release(3,1), where f = "after_flush next"])
      (use bytes_of_nonneg [of batch] in \<open>cases "next"; simp add: release(2) held_def in_hand_def after_flush_def bytes_of_def\<close>)+
next
  case (stop w)
  then show ?case by (auto simp: journal_ok_def stop_writer_def bytes_held_def accounted_def)
qed

lemma journal_start_ok: "journal_ok cfg (start_writer cfg new_writer)"
proof -
  have "(\<Sum>f \<leftarrow> replicate n (Collecting [] False). bytes_of (held f)) = 0"
    "(\<Sum>f \<leftarrow> replicate n (Collecting [] False). mset (in_hand f)) = {#}" for n
    by (induction n) (simp_all add: held_def in_hand_def)
  then show ?thesis
    by (simp add: journal_ok_def start_writer_def new_writer_def bytes_held_def accounted_def Let_def)
qed

lemma journal_reachable_ok: "(journal_step cfg)\<^sup>*\<^sup>* (start_writer cfg new_writer) w \<Longrightarrow> journal_ok cfg w"
  by (induction rule: rtranclp_induct) (simp_all add: journal_start_ok journal_step_ok)

section \<open>Shutdown drains\<close>

text \<open>The flushers' own steps, and how many of them are left.\<close>

inductive flusher_step :: "journal_config \<Rightarrow> journal_writer \<Rightarrow> journal_writer \<Rightarrow> bool" for cfg where
  take: "i < length (jw_flushers w) \<Longrightarrow> jw_flushers w ! i = Collecting batch draining \<Longrightarrow> jw_queue w \<noteq> [] \<Longrightarrow>
     flusher_step cfg w (flusher_take cfg i batch draining w)"
| tick: "i < length (jw_flushers w) \<Longrightarrow> jw_flushers w ! i = Collecting batch False \<Longrightarrow> batch \<noteq> [] \<Longrightarrow>
     flusher_step cfg w (flusher_tick i batch w)"
| sees_stop: "i < length (jw_flushers w) \<Longrightarrow> jw_flushers w ! i = Collecting batch False \<Longrightarrow> jw_stop w \<Longrightarrow>
     flusher_step cfg w (flusher_sees_stop i batch w)"
| drained: "i < length (jw_flushers w) \<Longrightarrow> jw_flushers w ! i = Collecting batch True \<Longrightarrow> jw_queue w = [] \<Longrightarrow>
     flusher_step cfg w (flusher_drained i batch w)"
| flush: "i < length (jw_flushers w) \<Longrightarrow> jw_flushers w ! i = Writing batch next \<Longrightarrow>
     flusher_step cfg w (flush_write i batch next ok w)"
| release: "i < length (jw_flushers w) \<Longrightarrow> jw_flushers w ! i = Releasing batch next \<Longrightarrow>
     flusher_step cfg w (flush_release i batch next w)"

inductive_simps flusher_step_iff: "flusher_step cfg w w'"

fun next_weight :: "flush_next \<Rightarrow> nat" where
  "next_weight NextLoop = 4"
| "next_weight NextDrain = 3"
| "next_weight NextExit = 0"

fun flusher_weight :: "flusher \<Rightarrow> nat" where
  "flusher_weight (Collecting b d) = (if d then 3 else if b = [] then 4 else 7)"
| "flusher_weight (Writing b n) = 2 + next_weight n"
| "flusher_weight (Releasing b n) = 1 + next_weight n"
| "flusher_weight Gone = 0"

definition steps_left :: "journal_writer \<Rightarrow> nat" where
  "steps_left w = sum_list (map flusher_weight (jw_flushers w)) + 4 * length (jw_queue w)"

lemma steps_left_flusher:
  assumes "i < length (jw_flushers w)" and "jw_flushers w' = (jw_flushers w)[i := f]"
    and "flusher_weight f + 4 * length (jw_queue w') < flusher_weight (jw_flushers w ! i) + 4 * length (jw_queue w)"
  shows "steps_left w' < steps_left w"
  using sum_list_set_flusher [of i "jw_flushers w" flusher_weight f] assms by (simp add: steps_left_def)

lemma flusher_step_left: "flusher_step cfg w w' \<Longrightarrow> steps_left w' < steps_left w"
proof (induction rule: flusher_step.induct)
  case (take i w batch draining)
  then obtain e q where q: "jw_queue w = e # q" by (cases "jw_queue w") auto
  let ?f = "if jf_batch_size cfg \<le> int (length (batch @ [e]))
     then Writing (batch @ [e]) (if draining then NextDrain else NextLoop) else Collecting (batch @ [e]) draining"
  have w': "flusher_take cfg i batch draining w = set_flusher i ?f (w\<lparr>jw_queue := q\<rparr>)"
    by (simp add: flusher_take_def q Let_def)
  show ?case unfolding w' by (rule steps_left_flusher [OF take(1), where f = ?f]) (simp_all add: take(2) q)
next
  case (tick i w batch)
  then show ?case
    by (intro steps_left_flusher [OF tick(1), where f = "Writing batch NextLoop"]) (simp_all add: flusher_tick_def)
next
  case (sees_stop i w batch)
  then show ?case
    by (intro steps_left_flusher [OF sees_stop(1), where f = "Collecting batch True"]) (simp_all add: flusher_sees_stop_def)
next
  case (drained i w batch)
  then show ?case
    by (intro steps_left_flusher [OF drained(1), where f = "if batch = [] then Gone else Writing batch NextExit"])
      (simp_all add: flusher_drained_def)
next
  case (flush i w batch "next" ok)
  then show ?case
    by (intro steps_left_flusher [OF flush(1), where f = "Releasing batch next"]) (simp_all add: flush_write_def)
next
  case (release i w batch "next")
  then show ?case
    by (intro steps_left_flusher [OF release(1), where f = "after_flush next"])
      (cases "next"; simp add: flush_release_def after_flush_def)+
qed

lemma flusher_run_bounded: "(flusher_step cfg ^^ n) w w' \<Longrightarrow> n + steps_left w' \<le> steps_left w"
proof (induction n arbitrary: w')
  case (Suc n)
  then obtain v where "(flusher_step cfg ^^ n) w v" "flusher_step cfg v w'" by auto
  with Suc.IH [of v] flusher_step_left [of cfg v w'] show ?case by simp
qed simp

lemma flusher_is_journal: "flusher_step cfg w w' \<Longrightarrow> journal_step cfg w w'"
  by (induction rule: flusher_step.induct) (auto intro: journal_step.intros)

text \<open>A flusher that will look at the queue again.\<close>

definition returns_to_queue :: "flusher \<Rightarrow> bool" where
  "returns_to_queue f = (case f of Collecting _ _ \<Rightarrow> True | Writing _ n \<Rightarrow> n \<noteq> NextExit | Releasing _ n \<Rightarrow> n \<noteq> NextExit | Gone \<Rightarrow> False)"

definition draining :: "journal_writer \<Rightarrow> bool" where
  "draining w \<longleftrightarrow> jw_stop w \<and> jw_reserved w = [] \<and> (jw_queue w = [] \<or> list_ex returns_to_queue (jw_flushers w))"

lemma list_ex_update:
  "i < length xs \<Longrightarrow> list_ex P xs \<Longrightarrow> P y \<or> \<not> P (xs ! i) \<Longrightarrow> list_ex P (xs[i := y])"
  by (auto simp: list_ex_length nth_list_update)

lemma draining_flusher:
  assumes "draining w" and "i < length (jw_flushers w)" and "jw_flushers w' = (jw_flushers w)[i := f]"
    and "jw_stop w' = jw_stop w" and "jw_reserved w' = jw_reserved w"
    and "jw_queue w = [] \<longrightarrow> jw_queue w' = []" and "returns_to_queue f \<or> \<not> returns_to_queue (jw_flushers w ! i) \<or> jw_queue w' = []"
  shows "draining w'"
  using assms list_ex_update [of i "jw_flushers w" returns_to_queue f] by (auto simp: draining_def)

lemma flusher_step_draining: "flusher_step cfg w w' \<Longrightarrow> draining w \<Longrightarrow> draining w'"
proof (induction rule: flusher_step.induct)
  case (take i w batch draining)
  then obtain e q where q: "jw_queue w = e # q" by (cases "jw_queue w") auto
  let ?f = "if jf_batch_size cfg \<le> int (length (batch @ [e]))
     then Writing (batch @ [e]) (if draining then NextDrain else NextLoop) else Collecting (batch @ [e]) draining"
  have w': "flusher_take cfg i batch draining w = set_flusher i ?f (w\<lparr>jw_queue := q\<rparr>)"
    by (simp add: flusher_take_def q Let_def)
  show ?case unfolding w'
    by (rule draining_flusher [OF take(4,1), where f = ?f]) (simp_all add: q returns_to_queue_def)
next
  case (tick i w batch)
  then show ?case
    by (intro draining_flusher [OF tick(4,1), where f = "Writing batch NextLoop"]) (simp_all add: flusher_tick_def returns_to_queue_def)
next
  case (sees_stop i w batch)
  then show ?case
    by (intro draining_flusher [OF sees_stop(4,1), where f = "Collecting batch True"])
      (simp_all add: flusher_sees_stop_def returns_to_queue_def)
next
  case (drained i w batch)
  then show ?case
    by (intro draining_flusher [OF drained(4,1), where f = "if batch = [] then Gone else Writing batch NextExit"])
      (simp_all add: flusher_drained_def)
next
  case (flush i w batch "next" ok)
  then show ?case
    by (intro draining_flusher [OF flush(3,1), where f = "Releasing batch next"])
      (simp_all add: flush_write_def returns_to_queue_def)
next
  case (release i w batch "next")
  then show ?case
    by (intro draining_flusher [OF release(3,1), where f = "after_flush next"])
      (cases "next"; simp add: flush_release_def after_flush_def returns_to_queue_def)+
qed

text \<open>While the stop signal is out a flusher can always move, until it is gone.\<close>

lemma flusher_progress:
  assumes "draining w" and "\<not> (\<exists>w'. flusher_step cfg w w')"
  shows "jw_queue w = [] \<and> (\<forall>f \<in> set (jw_flushers w). f = Gone)"
proof -
  have gone: "f = Gone" if "f \<in> set (jw_flushers w)" for f
  proof -
    from that obtain i where i: "i < length (jw_flushers w)" "jw_flushers w ! i = f" by (metis in_set_conv_nth)
    show ?thesis
    proof (cases f)
      case (Collecting b d)
      show ?thesis
      proof (cases "d \<and> jw_queue w = []")
        case True
        then have "flusher_step cfg w (flusher_drained i b w)" using i Collecting by (intro flusher_step.drained) simp_all
        then show ?thesis using assms(2) by blast
      next
        case False
        show ?thesis
        proof (cases d)
          case True
          then have "flusher_step cfg w (flusher_take cfg i b d w)" using i Collecting False by (intro flusher_step.take) simp_all
          then show ?thesis using assms(2) by blast
        next
          case False
          then have "flusher_step cfg w (flusher_sees_stop i b w)"
            using i Collecting assms(1) by (intro flusher_step.sees_stop) (simp_all add: draining_def)
          then show ?thesis using assms(2) by blast
        qed
      qed
    next
      case (Writing b n)
      then have "flusher_step cfg w (flush_write i b n True w)" using i by (intro flusher_step.flush) simp_all
      then show ?thesis using assms(2) by blast
    next
      case (Releasing b n)
      then have "flusher_step cfg w (flush_release i b n w)" using i by (intro flusher_step.release) simp_all
      then show ?thesis using assms(2) by blast
    qed
  qed
  have "\<not> returns_to_queue f" if "f \<in> set (jw_flushers w)" for f
    using gone [OF that] by (simp add: returns_to_queue_def)
  then have "\<not> list_ex returns_to_queue (jw_flushers w)" by (auto simp: list_ex_iff)
  with gone assms(1) show ?thesis by (auto simp: draining_def)
qed

lemma flusher_run_ok:
  "(flusher_step cfg ^^ n) w w' \<Longrightarrow> journal_ok cfg w \<Longrightarrow> draining w \<Longrightarrow> journal_ok cfg w' \<and> draining w'"
proof (induction n arbitrary: w')
  case (Suc n)
  then obtain v where "(flusher_step cfg ^^ n) w v" "flusher_step cfg v w'" by auto
  with Suc show ?case using flusher_step_draining journal_step_ok flusher_is_journal by blast
qed simp

lemma all_gone:
  assumes "journal_ok cfg w" and "draining w" and "jw_queue w = []" and "\<forall>f \<in> set (jw_flushers w). f = Gone"
  shows "jw_bytes w = 0 \<and> image_mset to_journal_entry (mset (jw_recorded w)) =
     image_mset to_journal_entry (mset (jw_dropped w)) + mset (jw_store w)"
proof -
  have "(\<Sum>f \<leftarrow> fs. bytes_of (held f)) = 0 \<and> (\<Sum>f \<leftarrow> fs. mset (in_hand f)) = {#}" if "\<forall>f \<in> set fs. f = Gone" for fs
    using that by (induction fs) (simp_all add: held_def in_hand_def)
  from this [OF assms(4)] assms(1-3) show ?thesis
    by (simp add: journal_ok_def bytes_held_def accounted_def draining_def)
qed

section \<open>Building an entry\<close>

text \<open>
  What is read of the served request: the values of \<^verbatim>\<open>URL.RequestURI\<close>, \<^verbatim>\<open>Cookies\<close> and \<^verbatim>\<open>URL.Query\<close>
  are \<^verbatim>\<open>net/http\<close>'s. A map is an association list, in the order it is ranged over.
\<close>

record served_request =
  sv_method :: string
  sv_request_uri :: string
  sv_tls :: bool
  sv_host :: string
  sv_remote_addr :: string
  sv_header :: "(string \<times> string list) list"
  sv_cookies :: "(string \<times> string) list"
  sv_query :: "(string \<times> string list) list"

definition cap_body :: "bytes \<Rightarrow> int \<Rightarrow> bytes \<times> bool" where
  "cap_body body limit =
     (if limit \<le> 0 \<or> int (length body) \<le> limit then (body, False) else (take (nat limit) body, True))"

definition absolute_url :: "served_request \<Rightarrow> string" where
  "absolute_url r = scheme_of (sv_tls r) @ ''://'' @ sv_host r @ sv_request_uri r"

definition client_ip :: "string \<Rightarrow> string" where
  "client_ip addr =
     (case last_index_byte addr (CHR '':'') of
        None \<Rightarrow> addr
      | Some i \<Rightarrow> if contains_str (drop i addr) '']'' then addr else take i addr)"

definition header_map :: "(string \<times> string list) list \<Rightarrow> json" where
  "header_map h =
     JObject (foldl (\<lambda>out (n, vs). AList.update n (case vs of [v] \<Rightarrow> JString v | _ \<Rightarrow> JArray (map JString vs)) out) [] h)"

definition cookie_map :: "(string \<times> string) list \<Rightarrow> json" where
  "cookie_map cookies = JObject (foldl (\<lambda>out (n, v). AList.update n (JString v) out) [] cookies)"

definition query_map :: "(string \<times> string list) list \<Rightarrow> json" where
  "query_map q =
     JObject (foldl (\<lambda>out (n, vs). AList.update n
       (JObject [(''key'', JString n), (''values'', JArray (map JString vs))]) out) [] q)"

text \<open>
  \<^verbatim>\<open>NewEntry\<close>: the identifier, the time and its RFC 3339 text are inputs, as is \<^verbatim>\<open>json.Marshal\<close>; the
  matched stub is its id and name.
\<close>

definition request_event :: "journal_config \<Rightarrow> served_request \<Rightarrow> bytes \<Rightarrow> int \<Rightarrow> string \<Rightarrow> (string \<times> json) list" where
  "request_event cfg r body millis rfc3339 =
     (case cap_body body (jf_max_body cfg) of
        (recorded, truncated) \<Rightarrow>
          [(''method'', JString (sv_method r)), (''url'', JString (sv_request_uri r)),
           (''absoluteUrl'', JString (absolute_url r)), (''clientIp'', JString (client_ip (sv_remote_addr r))),
           (''headers'', header_map (sv_header r)), (''cookies'', cookie_map (sv_cookies r)),
           (''queryParams'', query_map (sv_query r)), (''body'', JString recorded),
           (''loggedDate'', JNumber (show_int millis)), (''loggedDateString'', JString rfc3339)] @
          (if truncated then [(''bodyTruncated'', JBool True)] else []))"

definition new_entry ::
    "journal_config \<Rightarrow> (json \<Rightarrow> string option) \<Rightarrow> string \<Rightarrow> time \<Rightarrow> string \<Rightarrow> served_request \<Rightarrow> bytes \<Rightarrow>
     (string \<times> string) option \<Rightarrow> int \<Rightarrow> string \<Rightarrow> queued_entry option" where
  "new_entry cfg marshal kid now rfc3339 r body matched status trace_id =
     (let millis = now div 1000000;
          event = [(''id'', JString kid), (''request'', JObject (request_event cfg r body millis rfc3339)),
                   (''wasMatched'', JBool (matched \<noteq> None)),
                   (''responseDefinition'', JObject [(''status'', JNumber (show_int status))])] @
                  (case matched of None \<Rightarrow> []
                   | Some (i, n) \<Rightarrow> [(''stubMapping'', JObject [(''id'', JString i), (''name'', JString n)])]) @
                  (if trace_id \<noteq> [] then [(''traceId'', JString trace_id)] else [])
      in case marshal (JObject event) of
           None \<Rightarrow> None
         | Some payload \<Rightarrow> Some \<lparr>qe_id = kid, qe_ts = millis, qe_pod = jf_pod cfg, qe_payload = payload\<rparr>)"

text \<open>\<^verbatim>\<open>Record\<close> up to its first unlock: nothing for an entry that could not be built.\<close>

definition record_entry :: "journal_config \<Rightarrow> queued_entry option \<Rightarrow> journal_writer \<Rightarrow> journal_writer" where
  "record_entry cfg entry w = (case entry of None \<Rightarrow> w | Some e \<Rightarrow> enqueue_reserve cfg e w)"

lemma client_ip_port:
  "CHR '']'' \<notin> set port \<Longrightarrow> CHR '':'' \<notin> set port \<Longrightarrow> client_ip (host @ '':'' @ port) = host"
  "CHR '']'' \<in> set (drop i addr) \<Longrightarrow> last_index_byte addr (CHR '':'') = Some i \<Longrightarrow> client_ip addr = addr"
proof -
  assume p: "CHR '']'' \<notin> set port" "CHR '':'' \<notin> set port"
  have "\<not> contains_str ('':'' @ port) '']''"
    using p(1) by (auto simp: contains_str_iff Cons_eq_append_conv append_eq_append_conv2)
  then show "client_ip (host @ '':'' @ port) = host"
    using last_index_byte_append [OF p(2), of host] by (simp add: client_ip_def)
next
  assume b: "CHR '']'' \<in> set (drop i addr)" "last_index_byte addr (CHR '':'') = Some i"
  then obtain x y where "drop i addr = x @ [CHR '']''] @ y" by (metis append_Cons append_Nil split_list)
  then have "contains_str (drop i addr) '']''" unfolding contains_str_iff by blast
  then show "client_ip addr = addr" using b(2) by (simp add: client_ip_def)
qed

section \<open>Properties\<close>

text \<open>
  C22. In every interleaving of requests and flushers the byte counter is the size of exactly the
  entries still held, it never exceeds its cap, the queue never exceeds its own, and every recorded
  entry is at each moment in exactly one place: reserved, queued, in a flusher's hands, dropped
  and counted, or written.
\<close>

theorem journal_bounded_and_accounted:
  assumes "(journal_step cfg)\<^sup>*\<^sup>* (start_writer cfg new_writer) w"
  shows "jw_bytes w = bytes_held w \<and>
     (0 < jf_buffer_bytes cfg \<longrightarrow> jw_bytes w \<le> jf_buffer_bytes cfg) \<and>
     length (jw_queue w) \<le> jf_buffer_entries cfg \<and>
     accounted w = image_mset to_journal_entry (mset (jw_recorded w))"
  using journal_reachable_ok [OF assms] unfolding journal_ok_def .

definition sample_config :: journal_config where
  "sample_config = \<lparr>jf_max_body = 0, jf_buffer_entries = 1, jf_buffer_bytes = 10, jf_flush_workers = 1, jf_batch_size = 2, jf_pod = []\<rparr>"

definition sample_entry :: queued_entry where
  "sample_entry = \<lparr>qe_id = ''a'', qe_ts = 1, qe_pod = [], qe_payload = ''{}''\<rparr>"

theorem journal_bounded_and_accounted_witness:
  "bytes_held (enqueue_reserve sample_config sample_entry (start_writer sample_config new_writer)) = 2"
proof -
  let ?w = "enqueue_reserve sample_config sample_entry (start_writer sample_config new_writer)"
  have "(journal_step sample_config)\<^sup>*\<^sup>* (start_writer sample_config new_writer) ?w"
    by (intro r_into_rtranclp journal_step.reserve)
  from journal_bounded_and_accounted [OF this] have "jw_bytes ?w = bytes_held ?w" by blast
  moreover have "jw_bytes ?w = 2"
    by (simp add: enqueue_reserve_def sample_config_def sample_entry_def start_writer_def new_writer_def payload_size_def Let_def)
  ultimately show ?thesis by simp
qed

text \<open>
  C23. Shutdown drains: once the stop signal is out and no request is in flight, the flushers make
  at most \<open>steps_left\<close> more steps, and when none is left every flusher is gone, the queue is empty,
  the byte counter is zero and every recorded entry was written or is counted as dropped.
\<close>

theorem shutdown_drains:
  assumes "journal_ok cfg w" and "draining w" and "(flusher_step cfg ^^ n) w w'"
  shows "n \<le> steps_left w \<and>
     ((\<nexists>w''. flusher_step cfg w' w'') \<longrightarrow>
        jw_queue w' = [] \<and> (\<forall>f \<in> set (jw_flushers w'). f = Gone) \<and> jw_bytes w' = 0 \<and>
        image_mset to_journal_entry (mset (jw_recorded w')) =
          image_mset to_journal_entry (mset (jw_dropped w')) + mset (jw_store w'))"
  using flusher_run_bounded [OF assms(3)] flusher_run_ok [OF assms(3,1,2)] flusher_progress [of w' cfg] all_gone [of cfg w']
  by auto

theorem shutdown_drains_witness:
  "\<exists>w'. (flusher_step sample_config ^^ 2) (stop_writer (start_writer sample_config new_writer)) w' \<and>
     jw_bytes w' = 0 \<and> (\<forall>f \<in> set (jw_flushers w'). f = Gone)"
proof -
  let ?w = "stop_writer (start_writer sample_config new_writer)"
  let ?w1 = "flusher_sees_stop 0 [] ?w"
  let ?w2 = "flusher_drained 0 [] ?w1"
  have fs: "jw_flushers ?w = [Collecting [] False]" "jw_queue ?w = []" "jw_stop ?w" "jw_reserved ?w = []"
    by (simp_all add: stop_writer_def start_writer_def new_writer_def sample_config_def Let_def)
  have fs1: "jw_flushers ?w1 = [Collecting [] True]" "jw_queue ?w1 = []" by (simp_all add: flusher_sees_stop_def fs)
  have fs2: "jw_flushers ?w2 = [Gone]" by (simp add: flusher_drained_def fs1)
  have "flusher_step sample_config ?w ?w1" by (rule flusher_step.sees_stop) (simp_all add: fs)
  moreover have "flusher_step sample_config ?w1 ?w2" by (rule flusher_step.drained) (simp_all add: fs1)
  ultimately have run: "(flusher_step sample_config ^^ 2) ?w ?w2" by (auto simp: numeral_2_eq_2)
  have ok: "journal_ok sample_config ?w" by (rule journal_step_ok [OF journal_step.stop journal_start_ok])
  have d: "draining ?w" by (simp add: draining_def fs)
  have "\<nexists>w''. flusher_step sample_config ?w2 w''" by (simp add: flusher_step_iff fs2)
  with shutdown_drains [OF ok d run] show ?thesis using run by blast
qed

end
