(* ===== verification/Builder.thy ===== *)
theory Builder
  imports Snapshot_Select Store
begin

text \<open>
  \<^verbatim>\<open>internal/match/builder.go\<close>, \<^verbatim>\<open>cache.go\<close>, \<^verbatim>\<open>splice.go\<close> and \<^verbatim>\<open>poller.go\<close>: how the served snapshot follows
  the store. A rebuild loads everything, compiles what changed and swaps the result in; a splice
  edits the served snapshot after a local write; the poller rebuilds when the store's counter has
  moved. The stub compiler and the settings compiler are parameters of the environment.
\<close>

section \<open>Environment and state\<close>

datatype quarantine = QuarantineDecode | QuarantineSchema | QuarantineStub

record ('t, 'g) build_env =
  be_valid :: "bytes \<Rightarrow> bool"
  be_sha :: "bytes \<Rightarrow> bytes"
  be_compile :: "bytes \<Rightarrow> u64 \<Rightarrow> string list + 't compiled_stub"
  be_settings :: "bytes \<Rightarrow> string list + 'g"
  be_settings_zero :: "'g \<Rightarrow> bool"

record 's build_store =
  sb_load_all :: "('s, stored_stub list \<times> stored_file list \<times> u64) store_op"
  sb_get_settings :: "('s, stored_settings) store_op"
  sb_get_file :: "string \<Rightarrow> ('s, stored_file) store_op"
  sb_epoch :: "('s, u64) store_op"

record 't cache_entry =
  ce_hash :: bytes
  ce_stub :: "'t compiled_stub"

record 't compile_cache =
  cc_entries :: "(string \<times> 't cache_entry) list"
  cc_hits :: nat
  cc_misses :: nat

text \<open>The builder's cache and the engine's snapshot pointer; the rebuild mutex makes each operation one step.\<close>

record ('t, 'g) builder =
  br_cache :: "'t compile_cache"
  br_snapshot :: "('t, 'g) snapshot"

section \<open>The compile cache\<close>

definition new_cache :: "'t compile_cache" where
  "new_cache = \<lparr>cc_entries = [], cc_hits = 0, cc_misses = 0\<rparr>"

definition new_builder :: "('t, 'g) builder" where
  "new_builder = \<lparr>br_cache = new_cache, br_snapshot = empty_snapshot\<rparr>"

definition cache_get ::
    "(bytes \<Rightarrow> bytes) \<Rightarrow> string \<Rightarrow> bytes \<Rightarrow> 't compile_cache \<Rightarrow> 't compiled_stub option \<times> 't compile_cache" where
  "cache_get sha i doc c =
     (case map_of (cc_entries c) i of
        None \<Rightarrow> (None, c\<lparr>cc_misses := Suc (cc_misses c)\<rparr>)
      | Some e \<Rightarrow>
          if ce_hash e \<noteq> sha doc then (None, c\<lparr>cc_misses := Suc (cc_misses c)\<rparr>)
          else (Some (ce_stub e), c\<lparr>cc_hits := Suc (cc_hits c)\<rparr>))"

definition cache_put :: "(bytes \<Rightarrow> bytes) \<Rightarrow> string \<Rightarrow> bytes \<Rightarrow> 't compiled_stub \<Rightarrow> 't compile_cache \<Rightarrow> 't compile_cache" where
  "cache_put sha i doc cs c =
     c\<lparr>cc_entries := AList.update i \<lparr>ce_hash = sha doc, ce_stub = cs\<rparr> (cc_entries c)\<rparr>"

definition cache_retain :: "string list \<Rightarrow> 't compile_cache \<Rightarrow> 't compile_cache" where
  "cache_retain live c = c\<lparr>cc_entries := filter (\<lambda>(i, e). i \<in> set live) (cc_entries c)\<rparr>"

definition cache_stats :: "'t compile_cache \<Rightarrow> (nat \<times> nat) \<times> 't compile_cache" where
  "cache_stats c = ((cc_hits c, cc_misses c), c\<lparr>cc_hits := 0, cc_misses := 0\<rparr>)"

definition cache_size :: "'t compile_cache \<Rightarrow> nat" where
  "cache_size c = length (cc_entries c)"

section \<open>Compiling a document\<close>

definition resolve_body_file :: "(string \<rightharpoonup> bytes) \<Rightarrow> 't compiled_stub \<Rightarrow> 't compiled_stub" where
  "resolve_body_file files cs =
     (let name = cr_body_file_name (cs_response cs)
      in if name = [] then cs
         else case files name of
                None \<Rightarrow> cs\<lparr>cs_response := (cs_response cs)\<lparr>cr_body_file_missing := True\<rparr>\<rparr>
              | Some data \<Rightarrow> cs\<lparr>cs_response := (cs_response cs)\<lparr>cr_body_file_missing := False, cr_body := data\<rparr>\<rparr>)"

definition compile_doc ::
    "('t, 'g) build_env \<Rightarrow> (string \<rightharpoonup> bytes) \<Rightarrow> stored_stub \<Rightarrow> 't compile_cache \<Rightarrow>
     (quarantine + 't compiled_stub) \<times> 't compile_cache" where
  "compile_doc env files doc c =
     (if ss_schema_version doc > schema_version then (Inl QuarantineSchema, c)
      else if length (ss_mapping doc) = 0 \<or> \<not> be_valid env (ss_mapping doc) then (Inl QuarantineDecode, c)
      else case cache_get (be_sha env) (ss_id doc) (ss_mapping doc) c of
             (Some cached, c) \<Rightarrow>
               if cr_body_file_name (cs_response cached) \<noteq> [] then (Inr (resolve_body_file files cached), c)
               else (Inr cached, c)
           | (None, c) \<Rightarrow>
               (case be_compile env (ss_mapping doc) (ss_seq doc) of
                  Inl errs \<Rightarrow> (Inl QuarantineStub, c)
                | Inr cs \<Rightarrow>
                    (let cs = (if cs_id cs = [] then cs\<lparr>cs_id := ss_id doc\<rparr> else cs);
                         cs = cs\<lparr>cs_persistent := ss_persistent doc\<rparr>;
                         c = cache_put (be_sha env) (ss_id doc) (ss_mapping doc) cs c
                     in if cr_body_file_name (cs_response cs) \<noteq> [] then (Inr (resolve_body_file files cs), c)
                        else (Inr cs, c))))"

fun compile_docs ::
    "('t, 'g) build_env \<Rightarrow> (string \<rightharpoonup> bytes) \<Rightarrow> stored_stub list \<Rightarrow> 't compile_cache \<Rightarrow>
     't compiled_stub list \<times> quarantine list \<times> 't compile_cache" where
  "compile_docs env files [] c = ([], [], c)"
| "compile_docs env files (doc # docs) c =
     (case compile_doc env files doc c of
        (r, c) \<Rightarrow>
          (case compile_docs env files docs c of
             (css, qs, c) \<Rightarrow> (case r of Inl q \<Rightarrow> (css, q # qs, c) | Inr cs \<Rightarrow> (cs # css, qs, c))))"

definition load_settings :: "('t, 'g) build_env \<Rightarrow> 's build_store \<Rightarrow> ('s, 'g option) store_op" where
  "load_settings env st s =
     (case sb_get_settings st s of
        (Inl e, s) \<Rightarrow> if is_not_found e then (Inr None, s) else (Inl e, s)
      | (Inr doc, s) \<Rightarrow>
          if st_schema_version doc > schema_version then (Inr None, s)
          else case be_settings env (st_settings doc) of
                 Inl errs \<Rightarrow> (Inr None, s)
               | Inr g \<Rightarrow> if be_settings_zero env g then (Inr None, s) else (Inr (Some g), s))"

section \<open>Rebuild, splice and poll\<close>

definition files_by_name :: "stored_file list \<Rightarrow> string \<rightharpoonup> bytes" where
  "files_by_name files = foldl (\<lambda>m f. m(sf_name f \<mapsto> sf_data f)) Map.empty files"

text \<open>\<^verbatim>\<open>Rebuild\<close>: the error it returns, the reasons of the quarantined documents, the builder.\<close>

definition rebuild ::
    "('t, 'g) build_env \<Rightarrow> 's build_store \<Rightarrow> ('t, 'g) builder \<Rightarrow> 's \<Rightarrow>
     (store_error option \<times> quarantine list \<times> ('t, 'g) builder) \<times> 's" where
  "rebuild env st b s =
     (case sb_load_all st s of
        (Inl e, s) \<Rightarrow> ((Some e, [], b), s)
      | (Inr (stored, files, epoch), s) \<Rightarrow>
          (case load_settings env st s of
             (Inl e, s) \<Rightarrow> ((Some e, [], b), s)
           | (Inr settings, s) \<Rightarrow>
               (case compile_docs env (files_by_name files) stored (br_cache b) of
                  (compiled, qs, c) \<Rightarrow>
                    ((None, qs,
                      \<lparr>br_cache = snd (cache_stats (cache_retain (map ss_id stored) c)),
                       br_snapshot = (build_snapshot compiled epoch)\<lparr>sn_settings := settings\<rparr>\<rparr>), s))))"

definition splice_body_file :: "'s build_store \<Rightarrow> 't compiled_stub \<Rightarrow> 's \<Rightarrow> 't compiled_stub \<times> 's" where
  "splice_body_file st cs s =
     (case sb_get_file st (cr_body_file_name (cs_response cs)) s of
        (Inr file, s) \<Rightarrow> (resolve_body_file [sf_name file \<mapsto> sf_data file] cs, s)
      | (Inl e, s) \<Rightarrow> (resolve_body_file Map.empty cs, s))"

fun splice_ordered :: "'t compiled_stub \<Rightarrow> 't compiled_stub list \<Rightarrow> 't compiled_stub list" where
  "splice_ordered cs [] = []"
| "splice_ordered cs (x # xs) = (if cs_id x = cs_id cs then cs else x) # splice_ordered cs xs"

definition splice_stub ::
    "'s build_store \<Rightarrow> 't compiled_stub \<Rightarrow> ('t, 'g) builder \<Rightarrow> 's \<Rightarrow> ('t, 'g) builder \<times> 's" where
  "splice_stub st cs b s =
     (let (cs, s) = (if cr_body_file_name (cs_response cs) \<noteq> [] then splice_body_file st cs s else (cs, s));
          current = br_snapshot b;
          replaced = list_ex (\<lambda>x. cs_id x = cs_id cs) (sn_ordered current);
          ordered = splice_ordered cs (sn_ordered current) @ (if replaced then [] else [cs])
      in (b\<lparr>br_snapshot := (build_snapshot ordered (sn_epoch current))\<lparr>sn_settings := sn_settings current\<rparr>\<rparr>, s))"

definition splice_delete :: "string \<Rightarrow> ('t, 'g) builder \<Rightarrow> ('t, 'g) builder" where
  "splice_delete i b =
     (let current = br_snapshot b;
          ordered = filter (\<lambda>x. cs_id x \<noteq> i) (sn_ordered current)
      in if length ordered = length (sn_ordered current) then b
         else b\<lparr>br_snapshot := (build_snapshot ordered (sn_epoch current))\<lparr>sn_settings := sn_settings current\<rparr>\<rparr>)"

definition poll_once ::
    "('t, 'g) build_env \<Rightarrow> 's build_store \<Rightarrow> ('t, 'g) builder \<Rightarrow> 's \<Rightarrow> ('t, 'g) builder \<times> 's" where
  "poll_once env st b s =
     (case sb_epoch st s of
        (Inl e, s) \<Rightarrow> (b, s)
      | (Inr epoch, s) \<Rightarrow>
          if epoch = sn_epoch (br_snapshot b) then (b, s)
          else case rebuild env st b s of ((err, qs, b), s) \<Rightarrow> (b, s))"

definition resync :: "('t, 'g) build_env \<Rightarrow> 's build_store \<Rightarrow> ('t, 'g) builder \<Rightarrow> 's \<Rightarrow> ('t, 'g) builder \<times> 's" where
  "resync env st b s = (case rebuild env st b s of ((err, qs, b), s) \<Rightarrow> (b, s))"

section \<open>The cache changes nothing but the work\<close>

text \<open>Compiling with no cache.\<close>

definition fresh_stub :: "('t, 'g) build_env \<Rightarrow> stored_stub \<Rightarrow> quarantine + 't compiled_stub" where
  "fresh_stub env doc =
     (if ss_schema_version doc > schema_version then Inl QuarantineSchema
      else if length (ss_mapping doc) = 0 \<or> \<not> be_valid env (ss_mapping doc) then Inl QuarantineDecode
      else case be_compile env (ss_mapping doc) (ss_seq doc) of
             Inl errs \<Rightarrow> Inl QuarantineStub
           | Inr cs \<Rightarrow> Inr ((if cs_id cs = [] then cs\<lparr>cs_id := ss_id doc\<rparr> else cs)\<lparr>cs_persistent := ss_persistent doc\<rparr>))"

definition compile_fresh :: "('t, 'g) build_env \<Rightarrow> (string \<rightharpoonup> bytes) \<Rightarrow> stored_stub \<Rightarrow> quarantine + 't compiled_stub" where
  "compile_fresh env files doc = map_sum id (resolve_body_file files) (fresh_stub env doc)"

text \<open>The entry under the document's id was made from this document, or from other bytes.\<close>

definition cache_current :: "('t, 'g) build_env \<Rightarrow> 't compile_cache \<Rightarrow> stored_stub \<Rightarrow> bool" where
  "cache_current env c doc \<longleftrightarrow>
     (\<forall>e. map_of (cc_entries c) (ss_id doc) = Some e \<longrightarrow> ce_hash e = be_sha env (ss_mapping doc) \<longrightarrow>
        fresh_stub env doc = Inr (ce_stub e) \<or> \<not> (ss_schema_version doc \<le> schema_version \<and>
          length (ss_mapping doc) \<noteq> 0 \<and> be_valid env (ss_mapping doc)))"

lemma resolve_no_file: "cr_body_file_name (cs_response cs) = [] \<Longrightarrow> resolve_body_file files cs = cs"
  by (simp add: resolve_body_file_def)

lemma compile_doc_fresh:
  assumes "cache_current env c doc"
  shows "fst (compile_doc env files doc c) = compile_fresh env files doc"
proof (cases "ss_schema_version doc > schema_version \<or> length (ss_mapping doc) = 0 \<or> \<not> be_valid env (ss_mapping doc)")
  case True
  then show ?thesis by (auto simp: compile_doc_def compile_fresh_def fresh_stub_def)
next
  case False
  then have ok: "ss_schema_version doc \<le> schema_version" "ss_mapping doc \<noteq> []" "be_valid env (ss_mapping doc)" by auto
  show ?thesis
  proof (cases "\<exists>e. map_of (cc_entries c) (ss_id doc) = Some e \<and> ce_hash e = be_sha env (ss_mapping doc)")
    case True
    then obtain e where e: "map_of (cc_entries c) (ss_id doc) = Some e" "ce_hash e = be_sha env (ss_mapping doc)" by blast
    then have f: "fresh_stub env doc = Inr (ce_stub e)" using assms ok by (auto simp: cache_current_def)
    have "fst (compile_doc env files doc c) = Inr (resolve_body_file files (ce_stub e))"
      using ok e by (auto simp: compile_doc_def cache_get_def resolve_no_file)
    then show ?thesis by (simp add: compile_fresh_def f)
  next
    case False
    then have miss: "cache_get (be_sha env) (ss_id doc) (ss_mapping doc) c = (None, c\<lparr>cc_misses := Suc (cc_misses c)\<rparr>)"
      by (auto simp: cache_get_def split: option.splits)
    show ?thesis
    proof (cases "be_compile env (ss_mapping doc) (ss_seq doc)")
      case (Inl errs)
      then show ?thesis using ok miss by (simp add: compile_doc_def compile_fresh_def fresh_stub_def)
    next
      case (Inr cs)
      then show ?thesis using ok miss by (simp add: compile_doc_def compile_fresh_def fresh_stub_def Let_def resolve_no_file)
    qed
  qed
qed

lemma compile_doc_other:
  "i \<noteq> ss_id doc \<Longrightarrow> map_of (cc_entries (snd (compile_doc env files doc c))) i = map_of (cc_entries c) i"
  by (auto simp: compile_doc_def cache_get_def cache_put_def update_conv' Let_def
      split: option.splits sum.splits prod.splits)

lemma cache_current_other:
  "cache_current env c d \<Longrightarrow> ss_id d \<noteq> ss_id doc \<Longrightarrow> cache_current env (snd (compile_doc env files doc c)) d"
  by (simp add: cache_current_def compile_doc_other)

lemma compile_doc_current:
  assumes "cache_current env c doc"
  shows "cache_current env (snd (compile_doc env files doc c)) doc"
proof (cases "ss_schema_version doc > schema_version \<or> length (ss_mapping doc) = 0 \<or> \<not> be_valid env (ss_mapping doc)")
  case True
  then show ?thesis by (auto simp: cache_current_def)
next
  case False
  then have ok: "ss_schema_version doc \<le> schema_version" "ss_mapping doc \<noteq> []" "be_valid env (ss_mapping doc)" by auto
  show ?thesis
  proof (cases "\<exists>e. map_of (cc_entries c) (ss_id doc) = Some e \<and> ce_hash e = be_sha env (ss_mapping doc)")
    case True
    then obtain e where e: "map_of (cc_entries c) (ss_id doc) = Some e" "ce_hash e = be_sha env (ss_mapping doc)" by blast
    then have "cc_entries (snd (compile_doc env files doc c)) = cc_entries c"
      using ok by (simp add: compile_doc_def cache_get_def)
    then show ?thesis using assms by (simp add: cache_current_def)
  next
    case False
    then have miss: "cache_get (be_sha env) (ss_id doc) (ss_mapping doc) c = (None, c\<lparr>cc_misses := Suc (cc_misses c)\<rparr>)"
      by (auto simp: cache_get_def split: option.splits)
    show ?thesis
    proof (cases "be_compile env (ss_mapping doc) (ss_seq doc)")
      case (Inl errs)
      then show ?thesis using ok miss assms by (simp add: compile_doc_def cache_current_def)
    next
      case (Inr cs)
      then show ?thesis using ok miss
        by (auto simp: compile_doc_def cache_current_def cache_put_def Let_def update_conv' fresh_stub_def)
    qed
  qed
qed

lemma compile_docs_fresh:
  assumes "distinct (map ss_id docs)" and "\<forall>d \<in> set docs. cache_current env c d"
  shows "fst (compile_docs env files docs c) = rights (map (compile_fresh env files) docs)"
    and "fst (snd (compile_docs env files docs c)) = lefts (map (compile_fresh env files) docs)"
    and "\<forall>d \<in> set docs. cache_current env (snd (snd (compile_docs env files docs c))) d"
proof -
  have "fst (compile_docs env files docs c) = rights (map (compile_fresh env files) docs) \<and>
    fst (snd (compile_docs env files docs c)) = lefts (map (compile_fresh env files) docs) \<and>
    (\<forall>d \<in> set docs \<union> old. cache_current env (snd (snd (compile_docs env files docs c))) d)"
    if "\<forall>d \<in> old. cache_current env c d \<and> ss_id d \<notin> ss_id ` set docs" for old
    using assms that
  proof (induction docs arbitrary: c old)
    case (Cons doc docs)
    obtain r c1 where d: "compile_doc env files doc c = (r, c1)" by fastforce
    have r: "r = compile_fresh env files doc" using compile_doc_fresh [of env c doc files] Cons.prems(2) d by simp
    have c1: "cache_current env c1 x" if "x \<in> insert doc (set docs \<union> old)" for x
      using that Cons.prems compile_doc_current [of env c doc files] cache_current_other [of env c x doc files] d
      by (auto simp: image_iff)
    obtain css qs c2 where ds: "compile_docs env files docs c1 = (css, qs, c2)" by (metis prod_cases3)
    have "\<forall>x \<in> insert doc old. cache_current env c1 x \<and> ss_id x \<notin> ss_id ` set docs"
      using c1 Cons.prems(1,3) by (auto simp: image_iff)
    from Cons.IH [of c1 "insert doc old", OF _ _ this] c1 Cons.prems(1) ds
    have "css = rights (map (compile_fresh env files) docs)" "qs = lefts (map (compile_fresh env files) docs)"
      "\<forall>d \<in> set docs \<union> insert doc old. cache_current env c2 d" by auto
    then show ?case using d ds r [symmetric] by (cases r) auto
  qed simp
  from this [of "{}"] show
    "fst (compile_docs env files docs c) = rights (map (compile_fresh env files) docs)"
    "fst (snd (compile_docs env files docs c)) = lefts (map (compile_fresh env files) docs)"
    "\<forall>d \<in> set docs. cache_current env (snd (snd (compile_docs env files docs c))) d" by simp_all
qed

lemma map_of_filter_keys: "i \<in> K \<Longrightarrow> map_of (filter (\<lambda>(i, e). i \<in> K) al) i = map_of al i"
  by (induction al) auto

lemma rebuild_fresh:
  assumes "sb_load_all st s = (Inr (stored, files, epoch), s1)" and "load_settings env st s1 = (Inr settings, s2)"
    and "distinct (map ss_id stored)" and "\<forall>d \<in> set stored. cache_current env (br_cache b) d"
  shows "\<exists>c. rebuild env st b s =
     ((None, lefts (map (compile_fresh env (files_by_name files)) stored),
       \<lparr>br_cache = c, br_snapshot =
          (build_snapshot (rights (map (compile_fresh env (files_by_name files)) stored)) epoch)\<lparr>sn_settings := settings\<rparr>\<rparr>), s2) \<and>
     (\<forall>d \<in> set stored. cache_current env c d)"
proof -
  obtain css qs c where ds: "compile_docs env (files_by_name files) stored (br_cache b) = (css, qs, c)" by (metis prod_cases3)
  note fresh = compile_docs_fresh [OF assms(3,4), of "files_by_name files", unfolded ds, simplified]
  have "cache_current env (snd (cache_stats (cache_retain (map ss_id stored) c))) d" if "d \<in> set stored" for d
  proof -
    have "map_of (cc_entries (snd (cache_stats (cache_retain (map ss_id stored) c)))) (ss_id d) = map_of (cc_entries c) (ss_id d)"
      using that by (simp add: cache_stats_def cache_retain_def map_of_filter_keys)
    moreover have "cache_current env c d" using fresh(3) that by blast
    ultimately show ?thesis unfolding cache_current_def by simp
  qed
  then show ?thesis using assms(1,2) ds fresh(1,2) by (simp add: rebuild_def)
qed

text \<open>A rebuild that cannot read the store leaves everything as it is.\<close>

lemma rebuild_error_keeps: "rebuild env st b s = ((Some e, qs, b'), s') \<Longrightarrow> b' = b \<and> qs = []"
  by (auto simp: rebuild_def split: sum.splits prod.splits)

text \<open>
  A mapping deleted and registered again under the same id with the same bytes between two
  rebuilds keeps its old compilation, and with it its old sequence: it is served in the order of
  its first registration.
\<close>

lemma stale_sequence:
  assumes "map_of (cc_entries c) (ss_id doc) = Some e" and "ce_hash e = be_sha env (ss_mapping doc)"
    and "ss_schema_version doc \<le> schema_version" and "ss_mapping doc \<noteq> []" and "be_valid env (ss_mapping doc)"
    and "cr_body_file_name (cs_response (ce_stub e)) = []" and "cs_seq (ce_stub e) \<noteq> ss_seq doc"
  shows "\<exists>cs. fst (compile_doc env files doc c) = Inr cs \<and> cs_seq cs \<noteq> ss_seq doc"
  using assms by (simp add: compile_doc_def cache_get_def)

section \<open>What the cache holds\<close>

text \<open>
  Every entry is the fresh compilation of some document a reload delivered under that id. \<open>D\<close> is
  the set of documents the reloads have delivered.
\<close>

definition cache_made :: "('t, 'g) build_env \<Rightarrow> stored_stub set \<Rightarrow> 't compile_cache \<Rightarrow> bool" where
  "cache_made env D c \<longleftrightarrow>
     (\<forall>i e. map_of (cc_entries c) i = Some e \<longrightarrow>
        (\<exists>d \<in> D. ss_id d = i \<and> ce_hash e = be_sha env (ss_mapping d) \<and> fresh_stub env d = Inr (ce_stub e)))"

text \<open>
  A digest under an id stands for one registration: no two documents share id and digest and differ
  in their bytes, their sequence or their persistence. It fails when SHA-256 collides, and when a
  mapping is deleted and registered again with the same bytes, the case of \<open>stale_sequence\<close>.
\<close>

definition one_registration :: "('t, 'g) build_env \<Rightarrow> stored_stub set \<Rightarrow> bool" where
  "one_registration env D \<longleftrightarrow>
     (\<forall>d \<in> D. \<forall>d' \<in> D. ss_id d = ss_id d' \<longrightarrow> be_sha env (ss_mapping d) = be_sha env (ss_mapping d') \<longrightarrow>
        ss_mapping d = ss_mapping d' \<and> ss_seq d = ss_seq d' \<and> ss_persistent d = ss_persistent d')"

lemma cache_made_current:
  assumes "cache_made env D c" and "one_registration env D" and "doc \<in> D"
  shows "cache_current env c doc"
  unfolding cache_current_def
proof (intro allI impI)
  fix e
  assume e: "map_of (cc_entries c) (ss_id doc) = Some e" "ce_hash e = be_sha env (ss_mapping doc)"
  then obtain d where d: "d \<in> D" "ss_id d = ss_id doc" "be_sha env (ss_mapping d) = be_sha env (ss_mapping doc)"
    "fresh_stub env d = Inr (ce_stub e)"
    using assms(1) unfolding cache_made_def by metis
  then have "ss_mapping d = ss_mapping doc \<and> ss_seq d = ss_seq doc \<and> ss_persistent d = ss_persistent doc"
    using assms(2,3) unfolding one_registration_def by blast
  then show "fresh_stub env doc = Inr (ce_stub e) \<or> \<not> (ss_schema_version doc \<le> schema_version \<and>
      length (ss_mapping doc) \<noteq> 0 \<and> be_valid env (ss_mapping doc))"
    using d(2,4) by (auto simp: fresh_stub_def split: if_splits sum.splits)
qed

lemma cache_made_new: "cache_made env D new_cache"
  by (simp add: cache_made_def new_cache_def)

lemma cache_made_mono: "cache_made env D c \<Longrightarrow> D \<subseteq> D' \<Longrightarrow> cache_made env D' c"
  unfolding cache_made_def by blast

lemma compile_doc_entry:
  "map_of (cc_entries (snd (compile_doc env files doc c))) i = Some e \<Longrightarrow>
   map_of (cc_entries c) i = Some e \<or>
   i = ss_id doc \<and> ce_hash e = be_sha env (ss_mapping doc) \<and> fresh_stub env doc = Inr (ce_stub e)"
  by (auto simp: compile_doc_def cache_get_def cache_put_def update_conv' fresh_stub_def Let_def
      split: option.splits sum.splits prod.splits if_splits)

lemma cache_made_compile: "cache_made env D c \<Longrightarrow> doc \<in> D \<Longrightarrow> cache_made env D (snd (compile_doc env files doc c))"
  using compile_doc_entry [of env files doc c] unfolding cache_made_def by blast

lemma cache_made_compiles:
  "cache_made env D c \<Longrightarrow> set docs \<subseteq> D \<Longrightarrow> cache_made env D (snd (snd (compile_docs env files docs c)))"
proof (induction docs arbitrary: c)
  case (Cons doc docs)
  obtain r c1 where d: "compile_doc env files doc c = (r, c1)" by fastforce
  obtain css qs c2 where ds: "compile_docs env files docs c1 = (css, qs, c2)" by (metis prod_cases3)
  have "cache_made env D c1" using cache_made_compile [of env D c doc files] Cons.prems d by simp
  then have "cache_made env D c2" using Cons.IH [of c1] Cons.prems(2) ds by simp
  then show ?case by (cases r) (simp_all add: d ds)
qed simp

lemma cache_made_trimmed:
  fixes c :: "'t compile_cache"
  shows "cache_made env D c \<Longrightarrow> cache_made env D (snd (cache_stats (cache_retain live c)))"
proof -
  assume "cache_made env D c"
  moreover have "map_of (filter (\<lambda>(i, e). i \<in> set live) al) i = (if i \<in> set live then map_of al i else None)"
    for i and al :: "(string \<times> 't cache_entry) list"
    by (induction al) auto
  ultimately show ?thesis by (auto simp: cache_made_def cache_stats_def cache_retain_def split: if_splits)
qed

lemma rebuild_cache_made:
  assumes "cache_made env D (br_cache b)"
    and "\<And>stored files epoch. fst (sb_load_all st s) = Inr (stored, files, epoch) \<Longrightarrow> set stored \<subseteq> D"
  shows "cache_made env D (br_cache (snd (snd (fst (rebuild env st b s)))))"
proof (cases "sb_load_all st s")
  case (Pair r s1)
  show ?thesis
  proof (cases r)
    case (Inl e)
    then show ?thesis using assms(1) Pair by (simp add: rebuild_def)
  next
    case (Inr load)
    obtain stored files epoch where l: "load = (stored, files, epoch)" by (metis prod_cases3)
    obtain css qs c where ds: "compile_docs env (files_by_name files) stored (br_cache b) = (css, qs, c)" by (metis prod_cases3)
    have "cache_made env D c"
      using cache_made_compiles [OF assms(1), of stored "files_by_name files"] assms(2) [of stored files epoch] Pair Inr l ds by simp
    then show ?thesis using assms(1) Pair Inr l ds cache_made_trimmed
      by (auto simp: rebuild_def split: sum.splits prod.splits)
  qed
qed

text \<open>
  What happens to a builder: rebuilds, from whatever state of the store and whether or not its
  reads succeed, splices and deletions. \<open>D\<close> holds the documents of every reload.
\<close>

inductive builder_step ::
    "('t, 'g) build_env \<Rightarrow> 's build_store \<Rightarrow> stored_stub set \<Rightarrow> ('t, 'g) builder \<Rightarrow> ('t, 'g) builder \<Rightarrow> bool"
    for env st D where
  rebuilt: "(\<And>stored files epoch. fst (sb_load_all st s) = Inr (stored, files, epoch) \<Longrightarrow> set stored \<subseteq> D) \<Longrightarrow>
     builder_step env st D b (snd (snd (fst (rebuild env st b s))))"
| spliced: "builder_step env st D b (fst (splice_stub st cs b s))"
| deleted: "builder_step env st D b (splice_delete i b)"

lemma splice_cache: "br_cache (fst (splice_stub st cs b s)) = br_cache b" "br_cache (splice_delete i b) = br_cache b"
  by (simp_all add: splice_stub_def splice_delete_def Let_def split: prod.splits)

lemma builder_step_made: "builder_step env st D b b' \<Longrightarrow> cache_made env D (br_cache b) \<Longrightarrow> cache_made env D (br_cache b')"
  by (induction rule: builder_step.induct) (simp_all add: rebuild_cache_made splice_cache)

lemma builder_reachable_made: "(builder_step env st D)\<^sup>*\<^sup>* new_builder b \<Longrightarrow> cache_made env D (br_cache b)"
  by (induction rule: rtranclp_induct) (simp_all add: new_builder_def cache_made_new builder_step_made)

lemma reachable_rebuild:
  assumes "(builder_step env st D)\<^sup>*\<^sup>* new_builder b" and "one_registration env D"
    and "sb_load_all st s = (Inr (stored, files, epoch), s1)" and "set stored \<subseteq> D" and "distinct (map ss_id stored)"
    and "load_settings env st s1 = (Inr settings, s2)"
  shows "\<exists>c. rebuild env st b s =
     ((None, lefts (map (compile_fresh env (files_by_name files)) stored),
       \<lparr>br_cache = c, br_snapshot =
          (build_snapshot (rights (map (compile_fresh env (files_by_name files)) stored)) epoch)\<lparr>sn_settings := settings\<rparr>\<rparr>), s2)"
  using rebuild_fresh [OF assms(3,6,5)] cache_made_current [OF builder_reachable_made [OF assms(1)] assms(2)] assms(4) by blast

section \<open>A splice is what the rebuild will be\<close>

lemma sort_selection_perm:
  assumes "mset xs = mset ys" and "inj_on selection_key (set xs)"
  shows "sort_selection_order xs = sort_selection_order ys"
  unfolding sort_selection_order_key by (rule sort_key_perm_unique [OF assms])

lemma mset_splice:
  assumes "distinct (map cs_id xs)"
  shows "mset (splice_ordered cs xs @ (if list_ex (\<lambda>x. cs_id x = cs_id cs) xs then [] else [cs])) =
     add_mset cs (mset (filter (\<lambda>x. cs_id x \<noteq> cs_id cs) xs))"
proof -
  have none: "splice_ordered cs xs = xs" if "\<not> list_ex (\<lambda>x. cs_id x = cs_id cs) xs" for xs
    using that by (induction xs) auto
  have "mset (splice_ordered cs xs) = add_mset cs (mset (filter (\<lambda>x. cs_id x \<noteq> cs_id cs) xs))"
    if "list_ex (\<lambda>x. cs_id x = cs_id cs) xs"
    using assms that
  proof (induction xs)
    case (Cons x xs)
    show ?case
    proof (cases "cs_id x = cs_id cs")
      case True
      then have "\<forall>y \<in> set xs. cs_id y \<noteq> cs_id cs" using Cons.prems(1) by (auto simp: image_iff)
      then have "\<not> list_ex (\<lambda>x. cs_id x = cs_id cs) xs" "filter (\<lambda>x. cs_id x \<noteq> cs_id cs) xs = xs"
        by (auto simp: list_ex_iff filter_id_conv)
      then show ?thesis using True none by simp
    qed (use Cons in simp)
  qed simp
  moreover have "mset (filter (\<lambda>x. cs_id x \<noteq> cs_id cs) xs) = mset xs" if "\<not> list_ex (\<lambda>x. cs_id x = cs_id cs) xs"
    using that by (intro arg_cong [where f = mset]) (auto simp: list_ex_iff filter_id_conv)
  ultimately show ?thesis using none [of xs] by (cases "list_ex (\<lambda>x. cs_id x = cs_id cs) xs") (simp_all del: mset_filter)
qed

lemma rights_filter_ids:
  assumes "\<And>d cs. d \<in> set docs \<Longrightarrow> f d = Inr cs \<Longrightarrow> cs_id cs = ss_id d"
  shows "filter (\<lambda>x. cs_id x \<noteq> i) (rights (map f docs)) = rights (map f (filter (\<lambda>d. ss_id d \<noteq> i) docs))"
  using assms
proof (induction docs)
  case (Cons d docs)
  have IH: "filter (\<lambda>x. cs_id x \<noteq> i) (rights (map f docs)) = rights (map f (filter (\<lambda>d. ss_id d \<noteq> i) docs))"
    using Cons by simp
  show ?case
  proof (cases "f d")
    case (Inr cs)
    then have "cs_id cs = ss_id d" using Cons.prems by simp
    then show ?thesis using IH Inr by simp
  qed (use IH in simp)
qed simp

lemma distinct_rights_ids:
  assumes "\<And>d cs. d \<in> set docs \<Longrightarrow> f d = Inr cs \<Longrightarrow> cs_id cs = ss_id d" and "distinct (map ss_id docs)"
  shows "distinct (map cs_id (rights (map f docs)))"
  using assms
proof (induction docs)
  case (Cons d docs)
  have IH: "distinct (map cs_id (rights (map f docs)))" using Cons by simp
  show ?case
  proof (cases "f d")
    case (Inr cs)
    then have "cs_id cs = ss_id d" using Cons.prems(1) by simp
    moreover have "cs_id y \<in> ss_id ` set docs" if "y \<in> set (rights (map f docs))" for y
      using that Cons.prems(1) by (force simp: in_rights)
    ultimately show ?thesis using Inr IH Cons.prems(2) by (auto simp: image_iff) metis
  qed (use IH in simp)
qed simp

lemma mset_rights: "mset xs = mset ys \<Longrightarrow> mset (rights (map f xs)) = mset (rights (map f ys))"
proof -
  assume "mset xs = mset ys"
  moreover have "mset (rights (map f xs)) = sum_mset (image_mset (\<lambda>x. case f x of Inl _ \<Rightarrow> {#} | Inr y \<Rightarrow> {#y#}) (mset xs))" for xs
    by (induction xs) (auto split: sum.splits)
  ultimately show ?thesis by simp
qed

text \<open>How the driver answers for a body file.\<close>

definition serves_files :: "'s build_store \<Rightarrow> 's \<Rightarrow> (string \<rightharpoonup> bytes) \<Rightarrow> bool" where
  "serves_files st s files \<longleftrightarrow>
     (\<forall>n. sb_get_file st n s =
        (case files n of None \<Rightarrow> Inl ErrNotFound | Some d \<Rightarrow> Inr \<lparr>sf_name = n, sf_data = d\<rparr>, s))"

lemma splice_body_file_resolves:
  assumes "serves_files st s files"
  shows "splice_body_file st cs s = (resolve_body_file files cs, s)"
proof -
  let ?n = "cr_body_file_name (cs_response cs)"
  have "sb_get_file st ?n s = (case files ?n of None \<Rightarrow> Inl ErrNotFound | Some d \<Rightarrow> Inr \<lparr>sf_name = ?n, sf_data = d\<rparr>, s)"
    using assms unfolding serves_files_def by blast
  then show ?thesis by (cases "files ?n") (simp_all add: splice_body_file_def resolve_body_file_def Let_def)
qed

lemma splice_is_rebuild:
  fixes env :: "('t, 'g) build_env" and b :: "('t, 'g) builder"
  assumes ids: "\<And>d cs. d \<in> set (x # docs) \<Longrightarrow> compile_fresh env files d = Inr cs \<Longrightarrow> cs_id cs = ss_id d"
    and x: "fresh_stub env x = Inr cs" and files: "serves_files st s files"
    and docs: "distinct (map ss_id docs)"
    and current: "sn_ordered (br_snapshot b) = sort_selection_order (rights (map (compile_fresh env files) docs))"
    and docs': "mset docs' = add_mset x (mset (filter (\<lambda>d. ss_id d \<noteq> ss_id x) docs))"
    and keys: "inj_on selection_key (set (rights (map (compile_fresh env files) docs')))"
  shows "br_snapshot (fst (splice_stub st cs b s)) =
     (build_snapshot (rights (map (compile_fresh env files) docs')) (sn_epoch (br_snapshot b)))
       \<lparr>sn_settings := sn_settings (br_snapshot b)\<rparr>"
proof -
  let ?f = "compile_fresh env files" and ?cur = "br_snapshot b"
  let ?cs = "resolve_body_file files cs"
  have fx: "?f x = Inr ?cs" by (simp add: compile_fresh_def x)
  then have idx: "cs_id ?cs = ss_id x" using ids by simp
  have res: "(if cr_body_file_name (cs_response cs) \<noteq> [] then splice_body_file st cs s else (cs, s)) = (?cs, s)"
    using splice_body_file_resolves [OF files, of cs] by (simp add: resolve_no_file)
  let ?old = "sort_selection_order (rights (map ?f docs))"
  let ?new = "splice_ordered ?cs ?old @ (if list_ex (\<lambda>x. cs_id x = cs_id ?cs) ?old then [] else [?cs])"
  have mold: "mset ?old = mset (rights (map ?f docs))" by (simp add: sort_selection_order_def)
  have "distinct (map cs_id (rights (map ?f docs)))" by (rule distinct_rights_ids) (use ids docs in auto)
  then have dist: "distinct (map cs_id ?old)" by (simp add: sort_selection_order_def)
  have "mset ?new = add_mset ?cs (mset (filter (\<lambda>x. cs_id x \<noteq> cs_id ?cs) ?old))" by (rule mset_splice [OF dist])
  also have "mset (filter (\<lambda>x. cs_id x \<noteq> cs_id ?cs) ?old) = mset (filter (\<lambda>x. cs_id x \<noteq> ss_id x') (rights (map ?f docs)))"
    if "x' = x" for x'
    using mold that idx by (metis mset_filter)
  also have "filter (\<lambda>y. cs_id y \<noteq> ss_id x) (rights (map ?f docs)) = rights (map ?f (filter (\<lambda>d. ss_id d \<noteq> ss_id x) docs))"
    by (rule rights_filter_ids) (use ids in auto)
  also have "add_mset ?cs (mset (rights (map ?f (filter (\<lambda>d. ss_id d \<noteq> ss_id x) docs)))) =
      mset (rights (map ?f (x # filter (\<lambda>d. ss_id d \<noteq> ss_id x) docs)))"
    by (simp add: fx)
  also have "\<dots> = mset (rights (map ?f docs'))" by (rule mset_rights) (simp add: docs')
  finally have m: "mset ?new = mset (rights (map ?f docs'))" by simp
  have "build_snapshot ?new (sn_epoch ?cur) = (build_snapshot (rights (map ?f docs')) (sn_epoch ?cur) :: ('t, 'g) snapshot)"
    unfolding build_snapshot_def
    by (subst sort_selection_perm [OF m]) (use keys mset_eq_setD [OF m] in simp_all)
  then show ?thesis by (simp add: splice_stub_def res current Let_def)
qed

end
