(* ===== verification/Convergence.thy ===== *)
theory Convergence
  imports Builder Memory_Facts
begin

text \<open>
  The served snapshot and the store together. Writers change the store and then bump its counter;
  the replica polls the counter and rebuilds, and splices its own writes into what it serves. The
  invariant is that a replica whose snapshot carries the store's counter serves the store's content
  whenever no write is between its change and its bump, unless a splice or an expiry has come since
  the rebuild: neither moves the counter, and only the resync repairs it.
\<close>

section \<open>The replica and its store\<close>

definition mem_build :: "mem_store build_store" where
  "mem_build = \<lparr>sb_load_all = mem_load_all, sb_get_settings = mem_get_settings, sb_get_file = mem_get_file, sb_epoch = mem_get_epoch\<rparr>"

definition loaded_stubs :: "mem_store \<Rightarrow> stored_stub list" where
  "loaded_stubs s = sort_stable (\<lambda>a b. ss_seq a < ss_seq b) (map (\<lambda>(i, e). me_stub e) (mem_stubs (mem_expire s)))"

definition loaded_files :: "mem_store \<Rightarrow> stored_file list" where
  "loaded_files s = sort_stable (\<lambda>a b. string_less (sf_name a) (sf_name b)) (map (\<lambda>(n, d). \<lparr>sf_name = n, sf_data = d\<rparr>) (mem_files s))"

definition loaded_settings :: "('t, 'g) build_env \<Rightarrow> mem_store \<Rightarrow> 'g option" where
  "loaded_settings env s = (case fst (load_settings env mem_build s) of Inl e \<Rightarrow> None | Inr g \<Rightarrow> g)"

text \<open>The snapshot the store's content asks for, compiled with no cache.\<close>

definition snapshot_of :: "('t, 'g) build_env \<Rightarrow> mem_store \<Rightarrow> ('t, 'g) snapshot" where
  "snapshot_of env s =
     (build_snapshot (rights (map (compile_fresh env (files_by_name (loaded_files s))) (loaded_stubs s))) (mem_epoch s))
       \<lparr>sn_settings := loaded_settings env s\<rparr>"

text \<open>
  One replica, the store it shares with the others, the number of writes between their change and
  their bump, and whether the replica has gone astray: whether since its last rebuild a splice has
  reached a snapshot that carries the store's counter, or a mapping's lifetime has run out under
  one. Neither moves the counter, so no poll can tell.
\<close>

record ('t, 'g) fleet =
  fl_builder :: "('t, 'g) builder"
  fl_store :: mem_store
  fl_pending :: nat
  fl_astray :: bool

definition fleet_start :: "int \<Rightarrow> time \<Rightarrow> ('t, 'g) fleet" where
  "fleet_start ttl now = \<lparr>fl_builder = new_builder, fl_store = mem_new ttl now, fl_pending = 0, fl_astray = False\<rparr>"

definition unmoved :: "('t, 'g) fleet \<Rightarrow> bool" where
  "unmoved c \<longleftrightarrow> mem_epoch (fl_store c) = sn_epoch (br_snapshot (fl_builder c))"

text \<open>
  What can happen, in any order: a write by whichever replica, which is any operation of the driver
  that leaves clock and counter alone; an operation that touches no mapping, file or setting; the
  bump that ends a write; the passing of time; a splice or a deletion in this replica's snapshot;
  a poll; a resync. The reads of one rebuild are a single step.
\<close>

inductive fleet_step :: "('t, 'g) build_env \<Rightarrow> raw_codec \<Rightarrow> ('t, 'g) fleet \<Rightarrow> ('t, 'g) fleet \<Rightarrow> bool" for env jc where
  change: "mem_step jc (fl_store c) s \<Longrightarrow> mem_epoch s = mem_epoch (fl_store c) \<Longrightarrow> mem_now s = mem_now (fl_store c) \<Longrightarrow>
     fleet_step env jc c (c\<lparr>fl_store := s, fl_pending := Suc (fl_pending c)\<rparr>)"
| other: "mem_step jc (fl_store c) s \<Longrightarrow> mem_epoch s = mem_epoch (fl_store c) \<Longrightarrow> mem_now s = mem_now (fl_store c) \<Longrightarrow>
     loaded_stubs s = loaded_stubs (fl_store c) \<Longrightarrow> mem_files s = mem_files (fl_store c) \<Longrightarrow>
     mem_settings s = mem_settings (fl_store c) \<Longrightarrow> fleet_step env jc c (c\<lparr>fl_store := s\<rparr>)"
| bump: "fl_pending c = Suc k \<Longrightarrow>
     fleet_step env jc c (c\<lparr>fl_store := snd (mem_bump_epoch (fl_store c)), fl_pending := k\<rparr>)"
| tick: "mem_now (fl_store c) \<le> now \<Longrightarrow>
     fleet_step env jc c (c\<lparr>fl_store := mem_set_clock now (fl_store c),
       fl_astray := fl_astray c \<or> unmoved c \<and> loaded_stubs (mem_set_clock now (fl_store c)) \<noteq> loaded_stubs (fl_store c)\<rparr>)"
| splice: "fleet_step env jc c (c\<lparr>fl_builder := fst (splice_stub mem_build cs (fl_builder c) (fl_store c)),
       fl_astray := fl_astray c \<or> unmoved c\<rparr>)"
| unsplice: "fleet_step env jc c (c\<lparr>fl_builder := splice_delete i (fl_builder c), fl_astray := fl_astray c \<or> unmoved c\<rparr>)"
| poll: "fleet_step env jc c (c\<lparr>fl_builder := fst (poll_once env mem_build (fl_builder c) (fl_store c)),
       fl_store := snd (poll_once env mem_build (fl_builder c) (fl_store c)), fl_astray := fl_astray c \<and> unmoved c\<rparr>)"
| resync: "fleet_step env jc c (c\<lparr>fl_builder := fst (resync env mem_build (fl_builder c) (fl_store c)),
       fl_store := snd (resync env mem_build (fl_builder c) (fl_store c)), fl_astray := False\<rparr>)"

text \<open>A step after which the store holds documents of \<open>D\<close> only.\<close>

definition fleet_within ::
    "('t, 'g) build_env \<Rightarrow> raw_codec \<Rightarrow> stored_stub set \<Rightarrow> ('t, 'g) fleet \<Rightarrow> ('t, 'g) fleet \<Rightarrow> bool" where
  "fleet_within env jc D c c' \<longleftrightarrow> fleet_step env jc c c' \<and> set (loaded_stubs (fl_store c')) \<subseteq> D"

definition fleet_ok :: "('t, 'g) build_env \<Rightarrow> stored_stub set \<Rightarrow> nat \<Rightarrow> ('t, 'g) fleet \<Rightarrow> bool" where
  "fleet_ok env D n c \<longleftrightarrow>
     mem_ok (fl_store c) \<and> cache_made env D (br_cache (fl_builder c)) \<and> set (loaded_stubs (fl_store c)) \<subseteq> D \<and>
     unat (sn_epoch (br_snapshot (fl_builder c))) \<le> unat (mem_epoch (fl_store c)) \<and> unat (mem_epoch (fl_store c)) \<le> n \<and>
     (fl_pending c = 0 \<and> unmoved c \<and> \<not> fl_astray c \<longrightarrow> br_snapshot (fl_builder c) = snapshot_of env (fl_store c))"

section \<open>What a rebuild installs\<close>

lemma mem_expire_idem: "mem_expire (mem_expire s) = mem_expire s"
proof -
  have e: "mem_expired (s\<lparr>mem_stubs := es\<rparr>) = mem_expired s" for es by (rule mem_expired_cong) simp
  have "filter (\<lambda>(i, e). \<not> mem_expired s e) (filter (\<lambda>(i, e). \<not> mem_expired s e) al) = filter (\<lambda>(i, e). \<not> mem_expired s e) al" for al
    by (induction al) auto
  then show ?thesis by (simp add: mem_expire_def e del: filter_filter)
qed

lemma loaded_expire:
  "loaded_stubs (mem_expire s) = loaded_stubs s" "loaded_files (mem_expire s) = loaded_files s"
  "loaded_settings env (mem_expire s) = loaded_settings env s" "snapshot_of env (mem_expire s) = snapshot_of env s"
proof -
  show 1: "loaded_stubs (mem_expire s) = loaded_stubs s" "loaded_files (mem_expire s) = loaded_files s"
    by (simp_all add: loaded_stubs_def loaded_files_def mem_expire_idem mem_expire_fields)
  have "mem_settings (mem_expire s) = mem_settings s" by (simp add: mem_expire_def)
  then show 2: "loaded_settings env (mem_expire s) = loaded_settings env s"
    by (simp add: loaded_settings_def load_settings_def mem_build_def mem_get_settings_def split: option.splits sum.splits)
  show "snapshot_of env (mem_expire s) = snapshot_of env s"
    by (simp add: snapshot_of_def 1 2 mem_expire_fields)
qed

lemma mem_load_settings: "load_settings env mem_build s = (Inr (loaded_settings env s), s)"
  by (auto simp: load_settings_def loaded_settings_def mem_build_def mem_get_settings_def is_not_found_def
      split: option.splits sum.splits)

lemma mem_load: "mem_load_all s = (Inr (loaded_stubs s, loaded_files s, mem_epoch s), mem_expire s)"
  by (simp add: mem_load_all_def loaded_stubs_def loaded_files_def mem_expire_fields Let_def)

lemma loaded_ids: "mem_ok s \<Longrightarrow> distinct (map ss_id (loaded_stubs s))"
proof -
  assume "mem_ok s"
  then have ok: "mem_ok (mem_expire s)" by (rule mem_ok_expire)
  then have "map ss_id (map (\<lambda>(i, e). me_stub e) (mem_stubs (mem_expire s))) = map fst (mem_stubs (mem_expire s))"
    by (auto simp: mem_ok_def)
  then have "distinct (map ss_id (map (\<lambda>(i, e). me_stub e) (mem_stubs (mem_expire s))))"
    using ok by (metis mem_ok_def)
  then show ?thesis by (simp add: loaded_stubs_def)
qed

lemma snapshot_of_cong:
  "loaded_stubs s' = loaded_stubs s \<Longrightarrow> mem_files s' = mem_files s \<Longrightarrow> mem_settings s' = mem_settings s \<Longrightarrow>
   mem_epoch s' = mem_epoch s \<Longrightarrow> snapshot_of env s' = snapshot_of env s"
proof -
  assume *: "loaded_stubs s' = loaded_stubs s" "mem_files s' = mem_files s" "mem_settings s' = mem_settings s"
    "mem_epoch s' = mem_epoch s"
  have "loaded_settings env s' = loaded_settings env s"
    using *(3) by (simp add: loaded_settings_def load_settings_def mem_build_def mem_get_settings_def
        split: option.splits sum.splits)
  then show ?thesis using * by (simp add: snapshot_of_def loaded_files_def mem_expire_fields)
qed

lemma mem_rebuild:
  assumes "mem_ok s" and "cache_made env D (br_cache b)" and "one_registration env D" and "set (loaded_stubs s) \<subseteq> D"
  shows "\<exists>c qs. rebuild env mem_build b s = ((None, qs, \<lparr>br_cache = c, br_snapshot = snapshot_of env s\<rparr>), mem_expire s) \<and>
     cache_made env D c"
proof -
  have l: "sb_load_all mem_build s = (Inr (loaded_stubs s, loaded_files s, mem_epoch s), mem_expire s)"
    by (simp add: mem_build_def mem_load)
  have "\<forall>d \<in> set (loaded_stubs s). cache_current env (br_cache b) d"
    using cache_made_current [OF assms(2,3)] assms(4) by blast
  from rebuild_fresh [OF l mem_load_settings loaded_ids [OF assms(1)] this] obtain c qs where
    r: "rebuild env mem_build b s = ((None, qs, \<lparr>br_cache = c, br_snapshot = snapshot_of env s\<rparr>), mem_expire s)"
    unfolding snapshot_of_def loaded_expire by blast
  have "set (loaded_stubs s) \<subseteq> D \<Longrightarrow> cache_made env D c"
    using rebuild_cache_made [OF assms(2), of mem_build s] r l by simp
  then show ?thesis using r assms(4) by blast
qed

lemma build_snapshot_carry:
  fixes xs :: "'a compiled_stub list" and g g' :: "'b option"
  shows "(build_snapshot xs e)\<lparr>sn_settings := g\<rparr> =
     ((build_snapshot xs e')\<lparr>sn_settings := g'\<rparr>)\<lparr>sn_epoch := e, sn_settings := g\<rparr>"
proof -
  have one: "index_stub k c (s\<lparr>sn_epoch := e\<rparr>) = (index_stub k c s)\<lparr>sn_epoch := e\<rparr>"
    for k and c :: "'a compiled_stub" and s :: "('a, 'b) snapshot"
    by (cases s; cases "cs_url_kind c"; cases "cs_scenario c") (simp_all add: index_stub_def Let_def)
  have "index_stubs k xs (s\<lparr>sn_epoch := e\<rparr>) = (index_stubs k xs s)\<lparr>sn_epoch := e\<rparr>" for k xs and s :: "('a, 'b) snapshot"
    by (induction k xs s rule: index_stubs.induct) (simp_all add: one)
  from this [of 0 "sort_selection_order xs" "empty_snapshot\<lparr>sn_epoch := e', sn_ordered := sort_selection_order xs\<rparr>"]
  moreover have "empty_snapshot\<lparr>sn_epoch := e', sn_ordered := sort_selection_order xs\<rparr>\<lparr>sn_epoch := e\<rparr> =
      (empty_snapshot\<lparr>sn_epoch := e, sn_ordered := sort_selection_order xs\<rparr> :: ('a, 'b) snapshot)" by simp
  ultimately have "index_stubs 0 (sort_selection_order xs) (empty_snapshot\<lparr>sn_epoch := e, sn_ordered := sort_selection_order xs\<rparr>) =
      (index_stubs 0 (sort_selection_order xs) (empty_snapshot\<lparr>sn_epoch := e', sn_ordered := sort_selection_order xs\<rparr>)
        \<lparr>sn_epoch := e\<rparr> :: ('a, 'b) snapshot)" by (simp only:)
  then show ?thesis by (simp add: build_snapshot_def Let_def)
qed

lemma snapshot_of_epoch: "sn_epoch (snapshot_of env s) = mem_epoch s"
  by (simp add: snapshot_of_def build_snapshot_def Let_def index_stubs_fields)

lemma resync_exact:
  assumes "mem_ok s" and "cache_made env D (br_cache b)" and "one_registration env D" and "set (loaded_stubs s) \<subseteq> D"
  shows "br_snapshot (fst (resync env mem_build b s)) = snapshot_of env s"
    and "cache_made env D (br_cache (fst (resync env mem_build b s)))" and "snd (resync env mem_build b s) = mem_expire s"
  using mem_rebuild [OF assms] by (auto simp: resync_def)

lemma poll_cases:
  "poll_once env mem_build b s =
     (if mem_epoch s = sn_epoch (br_snapshot b) then (b, s) else resync env mem_build b s)"
  by (simp add: poll_once_def resync_def mem_build_def mem_get_epoch_def)

lemma bump_data:
  "loaded_stubs (snd (mem_bump_epoch s)) = loaded_stubs s" "mem_epoch (snd (mem_bump_epoch s)) = mem_epoch s + 1"
proof -
  have "mem_expired (s\<lparr>mem_epoch := mem_epoch s + 1\<rparr>) = mem_expired s" by (rule mem_expired_cong) simp
  then show "loaded_stubs (snd (mem_bump_epoch s)) = loaded_stubs s" "mem_epoch (snd (mem_bump_epoch s)) = mem_epoch s + 1"
    by (simp_all add: mem_bump_epoch_def loaded_stubs_def mem_expire_def Let_def)
qed

lemma bump_grows:
  fixes e :: u64
  assumes "unat e \<le> n" and "Suc n < 2 ^ 64"
  shows "unat (e + 1) = Suc (unat e)"
  using assms by (intro cas_seq_step) simp

section \<open>The invariant of the fleet\<close>

lemma splice_epoch:
  "sn_epoch (br_snapshot (fst (splice_stub st cs b s))) = sn_epoch (br_snapshot b)"
  "sn_epoch (br_snapshot (splice_delete i b)) = sn_epoch (br_snapshot b)"
  by (simp_all add: splice_stub_def splice_delete_def build_snapshot_def Let_def index_stubs_fields split: prod.splits)

lemma fleet_resync_ok:
  assumes "fleet_ok env D n c" and "one_registration env D"
  shows "fleet_ok env D m (c\<lparr>fl_builder := fst (resync env mem_build (fl_builder c) (fl_store c)),
       fl_store := snd (resync env mem_build (fl_builder c) (fl_store c)), fl_astray := a\<rparr>) \<longleftrightarrow> unat (mem_epoch (fl_store c)) \<le> m"
proof -
  have ok: "mem_ok (fl_store c)" "cache_made env D (br_cache (fl_builder c))" "set (loaded_stubs (fl_store c)) \<subseteq> D"
    using assms(1) by (simp_all add: fleet_ok_def)
  note r = resync_exact [OF ok(1,2) assms(2) ok(3)]
  show ?thesis
    using ok by (auto simp: fleet_ok_def r loaded_expire snapshot_of_epoch mem_expire_fields mem_ok_expire)
qed

lemma fleet_step_ok:
  assumes "fleet_step env jc c c'" and "fleet_ok env D n c" and "set (loaded_stubs (fl_store c')) \<subseteq> D"
    and "one_registration env D" and "Suc n < 2 ^ 64"
  shows "fleet_ok env D (Suc n) c'"
  using assms
proof (induction rule: fleet_step.induct)
  case (change c s)
  then show ?case using mem_step_ok [OF change(1)] by (simp add: fleet_ok_def unmoved_def)
next
  case (other c s)
  then show ?case using mem_step_ok [OF other(1)] snapshot_of_cong [OF other(4-6,2), of env]
    by (simp add: fleet_ok_def unmoved_def)
next
  case (bump c k)
  have "unat (mem_epoch (fl_store c) + 1) = Suc (unat (mem_epoch (fl_store c)))"
    using bump(2,5) by (intro bump_grows [of _ n]) (simp_all add: fleet_ok_def)
  moreover from this have "mem_epoch (fl_store c) + 1 \<noteq> sn_epoch (br_snapshot (fl_builder c))"
    using bump(2) by (auto simp: fleet_ok_def)
  ultimately show ?case using bump mem_ok_counters [of "fl_store c"]
    by (simp add: fleet_ok_def unmoved_def bump_data)
next
  case (tick c now)
  have "mem_files (mem_set_clock now (fl_store c)) = mem_files (fl_store c)"
    "mem_settings (mem_set_clock now (fl_store c)) = mem_settings (fl_store c)"
    "mem_epoch (mem_set_clock now (fl_store c)) = mem_epoch (fl_store c)" by (simp_all add: mem_set_clock_def)
  then show ?case
    using tick mem_ok_set_clock [of "fl_store c" now] snapshot_of_cong [of "mem_set_clock now (fl_store c)" "fl_store c" env]
    by (auto simp: fleet_ok_def unmoved_def)
next
  case (splice c cs)
  then show ?case by (auto simp: fleet_ok_def unmoved_def splice_epoch splice_cache)
next
  case (unsplice c i)
  then show ?case by (auto simp: fleet_ok_def unmoved_def splice_epoch splice_cache)
next
  case (poll c)
  have e: "unat (mem_epoch (fl_store c)) \<le> Suc n" using poll(1) by (simp add: fleet_ok_def)
  show ?case
  proof (cases "unmoved c")
    case True
    then show ?thesis using poll(1) by (simp add: poll_cases unmoved_def fleet_ok_def)
  next
    case False
    then show ?thesis
      using fleet_resync_ok [OF poll(1) poll(3), of "Suc n" False] e by (simp add: poll_cases unmoved_def)
  qed
next
  case (resync c)
  then show ?case using fleet_resync_ok [OF resync(1) resync(3), of "Suc n" False] by (simp add: fleet_ok_def)
qed

lemma fleet_start_ok: "fleet_ok env D 0 (fleet_start ttl now)"
proof -
  have l: "loaded_stubs (mem_new ttl now) = []"
    by (simp add: loaded_stubs_def mem_expire_def mem_new_def sort_stable_def)
  have g: "loaded_settings env (mem_new ttl now) = None" "mem_epoch (mem_new ttl now) = 0"
    by (simp_all add: loaded_settings_def load_settings_def mem_build_def mem_get_settings_def mem_new_def is_not_found_def)
  have "snapshot_of env (mem_new ttl now) = empty_snapshot"
    by (simp add: snapshot_of_def l g sort_stable_def build_snapshot_def sort_selection_order_def empty_snapshot_def)
  then show ?thesis
    by (simp add: fleet_ok_def fleet_start_def mem_ok_new l new_builder_def cache_made_new)
      (simp add: empty_snapshot_def mem_new_def)
qed

lemma fleet_reachable_ok:
  "(fleet_within env jc D ^^ n) (fleet_start ttl now) c \<Longrightarrow> n < 2 ^ 64 \<Longrightarrow> one_registration env D \<Longrightarrow> fleet_ok env D n c"
proof (induction n arbitrary: c)
  case 0
  then have "c = fleet_start ttl now" by simp
  then show ?case by (simp add: fleet_start_ok)
next
  case (Suc n)
  then obtain c1 where c1: "(fleet_within env jc D ^^ n) (fleet_start ttl now) c1" "fleet_within env jc D c1 c" by auto
  then have "fleet_ok env D n c1" using Suc by simp
  then show ?case using c1(2) Suc.prems(2,3) by (auto simp: fleet_within_def intro: fleet_step_ok)
qed

section \<open>A splice that comes late\<close>

text \<open>
  A splice installs its stub under the counter the snapshot carries, whatever that is by then. When
  a rebuild has run between the write's bump and the splice, and has seen a later deletion of the
  same mapping by another replica, the spliced stub is served and no poll removes it: the counter
  has not moved. Only the resync does.
\<close>

lemma late_splice_survives_polls:
  assumes "sn_epoch (br_snapshot b) = mem_epoch s" and "splice_stub mem_build cs b s = (b', s')"
  shows "poll_once env mem_build b' s' = (b', s') \<and> (\<exists>x \<in> set (sn_ordered (br_snapshot b')). cs_id x = cs_id cs)"
proof -
  let ?cs = "if cr_body_file_name (cs_response cs) \<noteq> [] then fst (splice_body_file mem_build cs s) else cs"
  have get: "mem_get_file n s = (fst (mem_get_file n s), s)" for n by (simp add: mem_get_file_def split: option.splits)
  have s: "splice_body_file mem_build cs s = (fst (splice_body_file mem_build cs s), s)"
    using get [of "cr_body_file_name (cs_response cs)"]
    by (auto simp: splice_body_file_def mem_build_def split: prod.splits sum.splits)
  have id: "cs_id ?cs = cs_id cs"
    by (auto simp: splice_body_file_def resolve_body_file_def Let_def split: prod.splits sum.splits option.splits)
  let ?cur = "br_snapshot b"
  let ?new = "splice_ordered ?cs (sn_ordered ?cur) @ (if list_ex (\<lambda>x. cs_id x = cs_id ?cs) (sn_ordered ?cur) then [] else [?cs])"
  have b': "b' = b\<lparr>br_snapshot := (build_snapshot ?new (sn_epoch ?cur))\<lparr>sn_settings := sn_settings ?cur\<rparr>\<rparr>" "s' = s"
    using assms(2) s by (auto simp: splice_stub_def Let_def split: if_splits prod.splits)
  have "?cs \<in> set ?new"
  proof -
    have "list_ex (\<lambda>x. cs_id x = cs_id c) xs \<Longrightarrow> c \<in> set (splice_ordered c xs)" for c :: "'a compiled_stub" and xs
      by (induction xs) auto
    then show ?thesis by auto
  qed
  moreover have "sn_ordered (br_snapshot b') = sort_selection_order ?new" by (simp add: b' build_snapshot_ordered)
  ultimately have "?cs \<in> set (sn_ordered (br_snapshot b'))" by (simp add: sort_selection_order_key)
  moreover have "sn_epoch (br_snapshot b') = mem_epoch s"
    using assms(1) by (simp add: b' build_snapshot_def Let_def index_stubs_fields)
  ultimately show ?thesis using id b'(2) by (auto simp: poll_cases)
qed

text \<open>A mapping whose lifetime runs out is served until the resync, however many polls come before.\<close>

lemma expiry_survives_polls:
  assumes "sn_epoch (br_snapshot b) = mem_epoch s"
  shows "poll_once env mem_build b (mem_set_clock now s) = (b, mem_set_clock now s)"
  using assms by (simp add: poll_cases mem_set_clock_def)

section \<open>Properties\<close>

text \<open>
  C24. Convergence. Take any run of fewer than 2^64 events: writes by any replica, their bumps, time
  passing, splices and deletions in this replica's snapshot, polls and resyncs, in any order. At
  its end, if no write is between its change and its bump, a resync makes the replica serve exactly
  the snapshot the store's content asks for, compiled afresh; and one poll does, unless the
  snapshot already carries the store's counter and a splice or an expiry has come after the rebuild
  that installed it. What the run must not do is bring a document under an id and a digest it has
  had before with other bytes, another sequence or another persistence. Each exception is real:
  \<open>late_splice_survives_polls\<close>, \<open>expiry_survives_polls\<close> and \<open>stale_sequence\<close>.
\<close>

theorem one_poll_converges:
  assumes "(fleet_within env jc D ^^ n) (fleet_start ttl now) c" and "n < 2 ^ 64" and "one_registration env D"
    and "fl_pending c = 0"
  shows "br_snapshot (fst (resync env mem_build (fl_builder c) (fl_store c))) = snapshot_of env (fl_store c) \<and>
    (mem_epoch (fl_store c) \<noteq> sn_epoch (br_snapshot (fl_builder c)) \<or> \<not> fl_astray c \<longrightarrow>
       br_snapshot (fst (poll_once env mem_build (fl_builder c) (fl_store c))) = snapshot_of env (fl_store c))"
proof -
  have ok: "fleet_ok env D n c" by (rule fleet_reachable_ok [OF assms(1-3)])
  then have "mem_ok (fl_store c)" "cache_made env D (br_cache (fl_builder c))" "set (loaded_stubs (fl_store c)) \<subseteq> D"
    by (simp_all add: fleet_ok_def)
  from resync_exact(1) [OF this(1,2) assms(3) this(3)] ok assms(4) show ?thesis
    by (auto simp: poll_cases fleet_ok_def unmoved_def)
qed

definition sample_env :: "(unit, unit) build_env" where
  "sample_env = \<lparr>be_valid = (\<lambda>_. True), be_sha = id, be_compile = (\<lambda>m q. Inr ((catch_all_stub q)\<lparr>cs_id := m\<rparr>)),
     be_settings = (\<lambda>_. Inr ()), be_settings_zero = (\<lambda>_. True)\<rparr>"

definition sample_stored :: stored_stub where
  "sample_stored = \<lparr>ss_id = ''a'', ss_schema_version = 1, ss_seq = 1, ss_persistent = True, ss_created_at = 0, ss_mapping = ''a''\<rparr>"

definition sample_written :: mem_store where
  "sample_written = snd (mem_put_stub sample_stored (mem_new 0 0))"

definition sample_store :: mem_store where
  "sample_store = snd (mem_bump_epoch sample_written)"

lemma sample_stored_id: "ss_id sample_stored = ''a''"
  by (simp add: sample_stored_def)

lemma sample_loaded:
  "loaded_stubs sample_store = [sample_stored]" "loaded_files sample_store = []" "loaded_stubs sample_written = [sample_stored]"
  by (simp_all add: loaded_stubs_def loaded_files_def sample_store_def sample_written_def mem_bump_epoch_def mem_put_stub_def
      sample_stored_def mem_new_def mem_expire_def sort_stable_def Let_def)

lemma sample_fresh:
  "fresh_stub sample_env sample_stored = Inr ((catch_all_stub 1)\<lparr>cs_id := ''a'', cs_persistent := True\<rparr>)"
  "compile_fresh sample_env f sample_stored = Inr ((catch_all_stub 1)\<lparr>cs_id := ''a'', cs_persistent := True\<rparr>)"
  by (simp_all add: compile_fresh_def fresh_stub_def sample_env_def sample_stored_def schema_version_def resolve_body_file_def
      catch_all_stub_def)

lemma sample_one: "one_registration sample_env {sample_stored}"
  by (simp add: one_registration_def)

text \<open>A replica that has served the empty store, and the write another replica made since.\<close>

definition sample_fleet :: "(unit, unit) fleet" where
  "sample_fleet = (fleet_start 0 0)\<lparr>fl_store := sample_store\<rparr>"

lemma sample_fleet_run: "(fleet_within sample_env jc {sample_stored} ^^ 2) (fleet_start 0 0) sample_fleet"
proof -
  let ?c = "fleet_start 0 0 :: (unit, unit) fleet"
  let ?c1 = "?c\<lparr>fl_store := sample_written, fl_pending := Suc (fl_pending ?c)\<rparr>"
  have "fleet_step sample_env jc ?c ?c1"
    unfolding sample_written_def
    by (rule fleet_step.change)
      (simp_all add: fleet_start_def mem_step.put_stub, simp_all add: mem_put_stub_def sample_stored_def mem_new_def)
  then have 1: "fleet_within sample_env jc {sample_stored} ?c ?c1" by (simp add: fleet_within_def sample_loaded)
  have "fleet_step sample_env jc ?c1 (?c1\<lparr>fl_store := snd (mem_bump_epoch (fl_store ?c1)), fl_pending := 0\<rparr>)"
    by (rule fleet_step.bump) (simp add: fleet_start_def)
  moreover have "?c1\<lparr>fl_store := snd (mem_bump_epoch (fl_store ?c1)), fl_pending := 0\<rparr> = sample_fleet"
    by (simp add: sample_fleet_def sample_store_def fleet_start_def)
  ultimately have "fleet_within sample_env jc {sample_stored} ?c1 sample_fleet"
    by (simp add: fleet_within_def sample_fleet_def sample_loaded)
  with 1 show ?thesis by (auto simp: numeral_2_eq_2)
qed

theorem one_poll_converges_witness:
  "map cs_id (sn_ordered (br_snapshot (fst (poll_once sample_env mem_build new_builder sample_store)))) = [''a'']"
proof -
  have "br_snapshot (fst (poll_once sample_env mem_build (fl_builder sample_fleet) (fl_store sample_fleet))) =
      snapshot_of sample_env (fl_store sample_fleet)"
    using one_poll_converges [OF sample_fleet_run _ sample_one] by (simp add: sample_fleet_def fleet_start_def)
  then show ?thesis
    by (simp add: sample_fleet_def fleet_start_def snapshot_of_def sample_loaded sample_fresh build_snapshot_ordered)
      (simp add: sort_selection_order_key)
qed

text \<open>
  C26. A rebuild reuses compilations and still installs what compiling every document afresh would:
  after any sequence of rebuilds, failed ones too, splices and deletions, a rebuild whose reads
  succeed serves the fresh compilations of the documents it loaded and quarantines those that have
  none. The reloads must not bring two documents under one id and digest that differ in bytes,
  sequence or persistence; \<open>stale_sequence\<close> shows what happens otherwise.
\<close>

theorem rebuild_is_fresh_compilation:
  assumes "(builder_step env st D)\<^sup>*\<^sup>* new_builder b" and "one_registration env D"
    and "sb_load_all st s = (Inr (stored, files, epoch), s1)" and "set stored \<subseteq> D" and "distinct (map ss_id stored)"
    and "load_settings env st s1 = (Inr settings, s2)"
  shows "\<exists>c. rebuild env st b s =
     ((None, lefts (map (compile_fresh env (files_by_name files)) stored),
       \<lparr>br_cache = c, br_snapshot =
          (build_snapshot (rights (map (compile_fresh env (files_by_name files)) stored)) epoch)\<lparr>sn_settings := settings\<rparr>\<rparr>), s2)"
  by (rule reachable_rebuild [OF assms])

definition sample_builder :: "(unit, unit) builder" where
  "sample_builder = snd (snd (fst (rebuild sample_env mem_build new_builder sample_store)))"

lemma sample_load: "sb_load_all mem_build sample_store = (Inr ([sample_stored], [], 1), sample_store)"
proof -
  have "mem_expire sample_store = sample_store" "mem_epoch sample_store = 1"
    by (simp_all add: sample_store_def sample_written_def mem_expire_def mem_bump_epoch_def mem_put_stub_def mem_new_def
        sample_stored_def Let_def)
  then show ?thesis by (simp add: mem_build_def mem_load sample_loaded)
qed

lemma sample_settings: "load_settings sample_env mem_build sample_store = (Inr None, sample_store)"
  by (simp add: load_settings_def mem_build_def mem_get_settings_def sample_store_def sample_written_def mem_bump_epoch_def
      mem_put_stub_def mem_new_def is_not_found_def sample_stored_def Let_def)

lemma sample_builder_reached: "(builder_step sample_env mem_build {sample_stored})\<^sup>*\<^sup>* new_builder sample_builder"
  unfolding sample_builder_def by (intro r_into_rtranclp builder_step.rebuilt) (simp add: sample_load)

text \<open>The second rebuild finds the mapping in the cache and serves its fresh compilation.\<close>

theorem rebuild_is_fresh_compilation_witness:
  "fst (cache_get id ''a'' ''a'' (br_cache sample_builder)) = Some ((catch_all_stub 1)\<lparr>cs_id := ''a'', cs_persistent := True\<rparr>) \<and>
   sn_ordered (br_snapshot (snd (snd (fst (rebuild sample_env mem_build sample_builder sample_store))))) =
     [(catch_all_stub 1)\<lparr>cs_id := ''a'', cs_persistent := True\<rparr>]"
proof
  have "\<exists>c. rebuild sample_env mem_build sample_builder sample_store =
     ((None, lefts (map (compile_fresh sample_env (files_by_name [])) [sample_stored]),
       \<lparr>br_cache = c, br_snapshot =
          (build_snapshot (rights (map (compile_fresh sample_env (files_by_name [])) [sample_stored])) 1)
            \<lparr>sn_settings := None\<rparr>\<rparr>), sample_store)"
    by (rule rebuild_is_fresh_compilation [OF sample_builder_reached sample_one sample_load _ _ sample_settings]) simp_all
  then show "sn_ordered (br_snapshot (snd (snd (fst (rebuild sample_env mem_build sample_builder sample_store))))) =
     [(catch_all_stub 1)\<lparr>cs_id := ''a'', cs_persistent := True\<rparr>]"
    by (auto simp: sample_fresh build_snapshot_ordered sort_selection_order_key)
  have "compile_doc sample_env (files_by_name []) sample_stored new_cache =
      (Inr ((catch_all_stub 1)\<lparr>cs_id := ''a'', cs_persistent := True\<rparr>),
       cache_put id ''a'' ''a'' ((catch_all_stub 1)\<lparr>cs_id := ''a'', cs_persistent := True\<rparr>) (new_cache\<lparr>cc_misses := 1\<rparr>))"
    by (simp add: compile_doc_def sample_env_def sample_stored_def schema_version_def cache_get_def new_cache_def catch_all_stub_def Let_def)
  then show "fst (cache_get id ''a'' ''a'' (br_cache sample_builder)) = Some ((catch_all_stub 1)\<lparr>cs_id := ''a'', cs_persistent := True\<rparr>)"
    by (simp add: sample_builder_def rebuild_def sample_load sample_settings new_builder_def sample_stored_id cache_put_def
        cache_retain_def cache_stats_def new_cache_def cache_get_def)
qed

text \<open>
  C25. A splice serves what the rebuild will serve. When the served stubs are those of the store
  before a write, the snapshot after splicing the written mapping is the snapshot the next rebuild,
  through its cache, installs from the store after the write, but for the counter and the settings:
  those a splice carries over from the snapshot it edits. The stubs have the ids of their documents
  and distinct places in the selection order, and the builder has seen one registration per id and
  digest.
\<close>

theorem splice_matches_rebuild:
  fixes env :: "('t, 'g) build_env" and b :: "('t, 'g) builder" and files :: "stored_file list"
  defines "f \<equiv> compile_fresh env (files_by_name files)"
  assumes "(builder_step env st D)\<^sup>*\<^sup>* new_builder b" and "one_registration env D"
    and "sb_load_all st s = (Inr (docs', files, epoch), s1)" and "set docs' \<subseteq> D"
    and "load_settings env st s1 = (Inr settings, s2)" and "serves_files st s (files_by_name files)"
    and "sn_ordered (br_snapshot b) = sort_selection_order (rights (map f docs))" and "distinct (map ss_id docs)"
    and "mset docs' = add_mset x (mset (filter (\<lambda>d. ss_id d \<noteq> ss_id x) docs))" and "fresh_stub env x = Inr cs"
    and "\<And>d cs. d \<in> set (x # docs) \<Longrightarrow> f d = Inr cs \<Longrightarrow> cs_id cs = ss_id d"
    and "inj_on selection_key (set (rights (map f docs')))"
  shows "\<exists>qs b'. rebuild env st (fst (splice_stub st cs b s)) s = ((None, qs, b'), s2) \<and>
     br_snapshot (fst (splice_stub st cs b s)) =
       (br_snapshot b')\<lparr>sn_epoch := sn_epoch (br_snapshot b), sn_settings := sn_settings (br_snapshot b)\<rparr>"
proof -
  let ?b = "fst (splice_stub st cs b s)"
  have "mset (map ss_id docs') = add_mset (ss_id x) (mset (map ss_id (filter (\<lambda>d. ss_id d \<noteq> ss_id x) docs)))"
    using assms(10) by simp
  moreover have "distinct (ss_id x # map ss_id (filter (\<lambda>d. ss_id d \<noteq> ss_id x) docs))"
    using assms(9) by (auto simp: distinct_map_filter)
  ultimately have dist: "distinct (map ss_id docs')" by (metis mset.simps(2) mset_eq_imp_distinct_iff)
  have "builder_step env st D b ?b" by (rule builder_step.spliced)
  with assms(2) have "(builder_step env st D)\<^sup>*\<^sup>* new_builder ?b" by (rule rtranclp.rtrancl_into_rtrancl)
  from reachable_rebuild [OF this assms(3-5) dist assms(6)] obtain c where
    r: "rebuild env st ?b s = ((None, lefts (map f docs'), \<lparr>br_cache = c, br_snapshot =
          (build_snapshot (rights (map f docs')) epoch)\<lparr>sn_settings := settings\<rparr>\<rparr>), s2)" unfolding f_def by blast
  have "br_snapshot ?b = (build_snapshot (rights (map f docs')) (sn_epoch (br_snapshot b)))
       \<lparr>sn_settings := sn_settings (br_snapshot b)\<rparr>"
    unfolding f_def
    by (rule splice_is_rebuild [OF _ assms(11,7,9)]) (use assms(8,10,12,13) in \<open>simp_all add: f_def\<close>)
  also have "\<dots> = ((build_snapshot (rights (map f docs')) epoch)\<lparr>sn_settings := settings\<rparr>)
       \<lparr>sn_epoch := sn_epoch (br_snapshot b), sn_settings := sn_settings (br_snapshot b)\<rparr>"
    by (rule build_snapshot_carry)
  finally show ?thesis using r by simp
qed

theorem splice_matches_rebuild_witness:
  "map cs_id (sn_ordered (br_snapshot (fst (splice_stub mem_build ((catch_all_stub 1)\<lparr>cs_id := ''a'', cs_persistent := True\<rparr>)
     (new_builder :: (unit, unit) builder) sample_store)))) = [''a''] \<and>
   sn_epoch (br_snapshot (fst (splice_stub mem_build ((catch_all_stub 1)\<lparr>cs_id := ''a'', cs_persistent := True\<rparr>)
     (new_builder :: (unit, unit) builder) sample_store))) = 0"
proof -
  let ?cs = "(catch_all_stub 1)\<lparr>cs_id := ''a'', cs_persistent := True\<rparr>"
  let ?b = "fst (splice_stub mem_build ?cs (new_builder :: (unit, unit) builder) sample_store)"
  have "\<exists>qs b'. rebuild sample_env mem_build ?b sample_store = ((None, qs, b'), sample_store) \<and>
     br_snapshot ?b = (br_snapshot b')\<lparr>sn_epoch := sn_epoch (br_snapshot (new_builder :: (unit, unit) builder)),
       sn_settings := sn_settings (br_snapshot (new_builder :: (unit, unit) builder))\<rparr>"
  proof (rule splice_matches_rebuild [OF rtranclp.rtrancl_refl sample_one sample_load _ sample_settings, where docs = "[]" and x = sample_stored])
    show "serves_files mem_build sample_store (files_by_name [])"
      by (simp add: serves_files_def mem_build_def mem_get_file_def sample_store_def sample_written_def mem_bump_epoch_def
          mem_put_stub_def mem_new_def files_by_name_def Let_def sample_stored_def)
    show "cs_id cs = ss_id d" if "d \<in> set [sample_stored]" "compile_fresh sample_env (files_by_name []) d = Inr cs" for d cs
      using that sample_fresh(2) by (auto simp: sample_stored_id)
  qed (simp_all add: sample_fresh new_builder_def empty_snapshot_def sort_selection_order_def sort_stable_def)
  then obtain qs b' where b': "rebuild sample_env mem_build ?b sample_store = ((None, qs, b'), sample_store)"
    "br_snapshot ?b = (br_snapshot b')\<lparr>sn_epoch := 0, sn_settings := None\<rparr>"
    by (auto simp: new_builder_def empty_snapshot_def)
  have "(builder_step sample_env mem_build {sample_stored})\<^sup>*\<^sup>* new_builder ?b"
    by (intro r_into_rtranclp builder_step.spliced)
  from reachable_rebuild [OF this sample_one sample_load _ _ sample_settings]
  have "sn_ordered (br_snapshot b') = [?cs]"
    using b'(1) by (auto simp: sample_fresh build_snapshot_ordered sort_selection_order_key)
  then show ?thesis by (simp add: b'(2))
qed

text \<open>
  C27. Which failures abandon a rebuild, and what an abandoned rebuild does. It returns an error
  exactly when loading the documents or reading the settings fails, and then that error; settings
  that do not exist are no failure and serve without settings, and no document can fail a rebuild.
  A rebuild that returns an error has kept the served snapshot and the cache.
\<close>

theorem failed_rebuild_keeps_serving:
  "case rebuild env st b s of ((err, qs, b'), s') \<Rightarrow>
     (err \<noteq> None \<longrightarrow> b' = b \<and> qs = []) \<and>
     err = (case sb_load_all st s of
              (Inl e, _) \<Rightarrow> Some e
            | (Inr _, s1) \<Rightarrow>
                (case sb_get_settings st s1 of
                   (Inl e, _) \<Rightarrow> if e = ErrNotFound then None else Some e
                 | (Inr _, _) \<Rightarrow> None)) \<and>
     (\<forall>load s1 s2. sb_load_all st s = (Inr load, s1) \<longrightarrow> sb_get_settings st s1 = (Inl ErrNotFound, s2) \<longrightarrow>
        sn_settings (br_snapshot b') = None)"
  by (auto simp: rebuild_def load_settings_def is_not_found_def split: sum.splits prod.splits if_splits)

theorem failed_rebuild_keeps_serving_witness:
  "case rebuild sample_env (mem_build\<lparr>sb_get_settings := (\<lambda>s. (Inl (ErrUnavailable []), s))\<rparr>) new_builder sample_store of
     ((err, qs, b'), s') \<Rightarrow> err = Some (ErrUnavailable []) \<and> b' = new_builder"
proof -
  let ?st = "mem_build\<lparr>sb_get_settings := (\<lambda>s. (Inl (ErrUnavailable []), s))\<rparr>"
  have "sb_load_all ?st sample_store = (Inr ([sample_stored], [], 1), sample_store)" using sample_load by simp
  then show ?thesis
    using failed_rebuild_keeps_serving [where env = sample_env and b = new_builder and s = sample_store and st = ?st]
    by (auto split: prod.splits)
qed

end
