(* ===== verification/Error_Catalog.thy ===== *)
theory Error_Catalog
  imports Mock_Prelude
begin

text \<open>
  \<^verbatim>\<open>internal/wmcompat/errors.go\<close>: the error codes of the admin API, the HTTP status and title of
  each, and the list that collects every problem of one document before answering.
\<close>

section \<open>The catalog\<close>

definition code_malformed :: int where "code_malformed = 10"
definition code_unsupported_feature :: int where "code_unsupported_feature = 1000"
definition code_unsupported_endpoint :: int where "code_unsupported_endpoint = 1001"
definition code_template :: int where "code_template = 1002"
definition code_regex :: int where "code_regex = 1003"
definition code_unknown_transformer :: int where "code_unknown_transformer = 1004"
definition code_unknown_setting :: int where "code_unknown_setting = 1005"
definition code_invalid_schema :: int where "code_invalid_schema = 1006"
definition code_journal_disabled :: int where "code_journal_disabled = 1010"
definition code_store_unavailable :: int where "code_store_unavailable = 1020"
definition code_scenario_unavailable :: int where "code_scenario_unavailable = 1021"
definition code_body_file_missing :: int where "code_body_file_missing = 1022"
definition code_body_too_large :: int where "code_body_too_large = 1030"
definition code_scenario_invalid :: int where "code_scenario_invalid = 1031"
definition code_duplicate_stub_id :: int where "code_duplicate_stub_id = 109"

definition catalog :: "(int \<times> int \<times> string) list" where
  "catalog =
     [(code_malformed, 422, ''Malformed request''),
      (code_unsupported_feature, 422, ''Unsupported feature''),
      (code_unsupported_endpoint, 404, ''Unsupported endpoint''),
      (code_template, 422, ''Template error''),
      (code_regex, 422, ''Invalid regular expression''),
      (code_unknown_transformer, 422, ''Unknown transformer''),
      (code_unknown_setting, 422, ''Unknown setting''),
      (code_invalid_schema, 422, ''Invalid JSON Schema''),
      (code_journal_disabled, 500, ''Journal disabled''),
      (code_store_unavailable, 503, ''Store unavailable''),
      (code_scenario_unavailable, 500, ''Scenario state unavailable''),
      (code_body_file_missing, 500, ''Body file not found''),
      (code_body_too_large, 413, ''Request body too large''),
      (code_scenario_invalid, 400, ''Invalid scenario''),
      (code_duplicate_stub_id, 422, ''Duplicate stub mapping ID'')]"

definition status_for :: "int \<Rightarrow> int" where
  "status_for code = (case map_of catalog code of Some (status, title) \<Rightarrow> status | None \<Rightarrow> 500)"

definition title_for :: "int \<Rightarrow> string" where
  "title_for code = (case map_of catalog code of Some (status, title) \<Rightarrow> title | None \<Rightarrow> ''Error'')"

lemmas code_defs =
  code_malformed_def code_unsupported_feature_def code_unsupported_endpoint_def code_template_def
  code_regex_def code_unknown_transformer_def code_unknown_setting_def code_invalid_schema_def
  code_journal_disabled_def code_store_unavailable_def code_scenario_unavailable_def
  code_body_file_missing_def code_body_too_large_def code_scenario_invalid_def code_duplicate_stub_id_def

section \<open>Errors and their lists\<close>

record wm_error =
  we_code :: int
  we_source :: "string option"
  we_title :: string
  we_detail :: string

definition new_error :: "int \<Rightarrow> string \<Rightarrow> wm_error" where
  "new_error code detail = \<lparr>we_code = code, we_source = None, we_title = title_for code, we_detail = detail\<rparr>"

definition new_field_error :: "int \<Rightarrow> string \<Rightarrow> string \<Rightarrow> wm_error" where
  "new_field_error code pointer detail =
     \<lparr>we_code = code, we_source = Some pointer, we_title = title_for code, we_detail = detail\<rparr>"

text \<open>The dash in the two refusals is U+2014, three bytes of UTF-8.\<close>

definition not_supported :: string where
  "not_supported =
     '' is not supported in mockulus v1 '' @ [CHR 0xE2, CHR 0x80, CHR 0x94] @ '' see ROADMAP.md''"

definition unsupported_feature :: "string \<Rightarrow> string \<Rightarrow> wm_error" where
  "unsupported_feature pointer feature =
     new_field_error code_unsupported_feature pointer (feature @ not_supported)"

definition unsupported_endpoint :: "string \<Rightarrow> wm_error" where
  "unsupported_endpoint path = new_error code_unsupported_endpoint (path @ not_supported)"

type_synonym error_list = "wm_error list"

definition addf :: "int \<Rightarrow> string \<Rightarrow> string \<Rightarrow> error_list \<Rightarrow> error_list" where
  "addf code pointer detail errs = errs @ [new_field_error code pointer detail]"

definition add_unsupported :: "string \<Rightarrow> string \<Rightarrow> error_list \<Rightarrow> error_list" where
  "add_unsupported pointer feature errs = errs @ [unsupported_feature pointer feature]"

text \<open>\<^verbatim>\<open>ErrorList.Status\<close>: the loop over the entries, the first of which always decides.\<close>

fun worst_status :: "bool \<Rightarrow> int \<Rightarrow> error_list \<Rightarrow> int" where
  "worst_status first status [] = status"
| "worst_status first status (e # es) =
     worst_status False (let s = status_for (we_code e) in if first \<or> status < s then s else status) es"

definition list_status :: "error_list \<Rightarrow> int" where
  "list_status errs = worst_status True 422 errs"

text \<open>The error envelope as \<^verbatim>\<open>json.Marshal\<close> writes it, over the encoder's string quoting.\<close>

definition error_json :: "(string \<Rightarrow> string) \<Rightarrow> wm_error \<Rightarrow> string" where
  "error_json quote e =
     ''{'' @ quote ''code'' @ '':'' @ show_int (we_code e) @
     (case we_source e of None \<Rightarrow> []
      | Some p \<Rightarrow> '','' @ quote ''source'' @ '':{'' @ quote ''pointer'' @ '':'' @ quote p @ ''}'') @
     '','' @ quote ''title'' @ '':'' @ quote (we_title e) @
     (if we_detail e = [] then [] else '','' @ quote ''detail'' @ '':'' @ quote (we_detail e)) @ ''}''"

definition error_body :: "(string \<Rightarrow> string) \<Rightarrow> error_list \<Rightarrow> string" where
  "error_body quote errs =
     ''{'' @ quote ''errors'' @ '':['' @ join_str '','' (map (error_json quote) errs) @ '']}''"

lemma worst_status_max:
  "worst_status False s es = Max (insert s ((\<lambda>e. status_for (we_code e)) ` set es))"
proof (induction es arbitrary: s)
  case (Cons e es)
  have "Max (insert (max s (status_for (we_code e))) ((\<lambda>e. status_for (we_code e)) ` set es)) =
        Max (insert s (insert (status_for (we_code e)) ((\<lambda>e. status_for (we_code e)) ` set es)))"
    by (cases "es = []") (simp_all add: Max_insert max.assoc)
  then show ?case using Cons by (auto simp: Let_def max_def split: if_splits)
qed simp

lemma list_status_max:
  "errs \<noteq> [] \<Longrightarrow> list_status errs = Max ((\<lambda>e. status_for (we_code e)) ` set errs)"
  by (cases errs) (simp_all add: list_status_def worst_status_max Let_def)

lemma status_for_catalogued: "status_for code \<in> {400, 404, 413, 422, 500, 503}"
  by (auto simp: status_for_def catalog_def)

lemma list_status_range: "list_status errs \<in> {400, 404, 413, 422, 500, 503}"
proof (cases "errs = []")
  case False
  then have "list_status errs \<in> (\<lambda>e. status_for (we_code e)) ` set errs"
    unfolding list_status_max [OF False] by (intro Max_in) auto
  then obtain e :: wm_error where "list_status errs = status_for (we_code e)" by blast
  then show ?thesis by (metis status_for_catalogued)
qed (simp add: list_status_def)

lemma addf_nonempty [simp]: "addf c p d errs \<noteq> []" "add_unsupported p f errs \<noteq> []"
  by (simp_all add: addf_def add_unsupported_def)

end
