(* ===== verification/Response.thy ===== *)
theory Response
  imports Snapshot Error_Catalog "HOL-Library.AList"
begin

text \<open>
  \<^verbatim>\<open>internal/response\<close>: what goes back on the wire for a served stub. The ordinary path hands a
  status, headers and body writes to \<^verbatim>\<open>net/http\<close>; a stub with its own reason phrase takes the
  connection and writes the bytes of the response itself; a fault breaks the response. The last
  section reads the hand-written bytes back the way an HTTP client does.
\<close>

section \<open>Settings and what a response needs\<close>

text \<open>\<^verbatim>\<open>stub.Settings\<close>, the compiled global delay.\<close>

record settings =
  st_fixed_delay :: int
  st_delay :: delay_distribution

definition settings_is_zero :: "settings \<Rightarrow> bool" where
  "settings_is_zero s \<longleftrightarrow> st_fixed_delay s = 0 \<and> dd_kind (st_delay s) = DelayNone"

text \<open>
  \<^verbatim>\<open>http.Header\<close>: names in canonical spelling, each with its values; a nil value list keeps the
  name and writes nothing. The list order stands for an iteration order of the Go map.
\<close>

type_synonym header = "(string \<times> string list) list"

fun put_value :: "string \<Rightarrow> string \<Rightarrow> header \<Rightarrow> header" where
  "put_value k v [] = [(k, [v])]"
| "put_value k v ((k', vs) # h) = (if k' = k then (k, vs @ [v]) # h else (k', vs) # put_value k v h)"

definition add_header :: "header \<Rightarrow> string \<times> string \<Rightarrow> header" where
  "add_header h nv = put_value (canonical_header_key (fst nv)) (snd nv) h"

definition set_header :: "string \<Rightarrow> string list \<Rightarrow> header \<Rightarrow> header" where
  "set_header k vs h = AList.update k vs h"

definition declared :: "header \<Rightarrow> string \<Rightarrow> bool" where
  "declared h k \<longleftrightarrow> map_of h k \<noteq> None"

text \<open>
  What \<^verbatim>\<open>Write\<close> takes from its surroundings: whether the connection can be taken over, the
  clock, the random draws, the iteration order of the header map, whether the peer is still there
  at the i-th write of a dribble, the header-name check of \<^verbatim>\<open>httpguts\<close> and the string quoting of
  the JSON encoder. \<open>su_sample\<close> is \<^verbatim>\<open>exp(log(median) + sigma * N)\<close>, without a value when
  that is an infinity or no number.
\<close>

datatype hijack = NoHijacker | HijackFails | Hijacks bool

record surroundings =
  su_hijack :: hijack
  su_date :: string
  su_int64n :: "int \<Rightarrow> int"
  su_sample :: "int \<Rightarrow> rat \<Rightarrow> rat option"
  su_order :: "header \<Rightarrow> header"
  su_alive :: "nat \<Rightarrow> bool"
  su_junk :: "bytes option"
  su_valid_name :: "string \<Rightarrow> bool"
  su_unicode :: unicode
  su_quote :: "string \<Rightarrow> string"

text \<open>
  What can be seen from outside, in order: pauses, the write deadline, the status and headers
  handed to \<^verbatim>\<open>net/http\<close>, body bytes written through it, flushes, and on a taken connection the
  raw bytes, the reset option and the close. \<open>Aborted\<close> is the panic that resets the stream.
\<close>

datatype wire_event =
    Paused int
  | Deadline int
  | Head int header
  | Piece bytes
  | Flushed
  | Raw bytes
  | Linger0
  | Closed
  | Aborted

section \<open>Delays\<close>

definition max_int64 :: int where "max_int64 = 2 ^ 63 - 1"

definition draw_delay :: "surroundings \<Rightarrow> delay_distribution \<Rightarrow> int" where
  "draw_delay su d =
     (case dd_kind d of
        DelayUniform \<Rightarrow>
          (let span = wrap64 (dd_upper d - dd_lower d)
           in if span \<le> 0 then dd_lower d else wrap64 (dd_lower d + su_int64n su (wrap64 (span + 1))))
      | DelayLogNormal \<Rightarrow>
          (if dd_median d \<le> 0 then 0
           else case su_sample su (dd_median d) (dd_sigma d) of
                  None \<Rightarrow> 0
                | Some x \<Rightarrow> if x \<le> 0 then 0 else if 2 ^ 63 < x then max_int64 else wrap64 \<lfloor>x\<rfloor>)
      | DelayNone \<Rightarrow> 0)"

definition compose_delay :: "surroundings \<Rightarrow> 't compiled_response \<Rightarrow> settings option \<Rightarrow> int" where
  "compose_delay su resp global =
     (let (fixed, dist) =
            (case global of
               None \<Rightarrow> (cr_fixed_delay resp, cr_delay resp)
             | Some g \<Rightarrow> (if cr_fixed_delay_set resp then cr_fixed_delay resp else st_fixed_delay g,
                          if dd_kind (cr_delay resp) = DelayNone then st_delay g else cr_delay resp))
      in wrap64 (fixed + draw_delay su dist))"

definition await_delay :: "int \<Rightarrow> wire_event list" where
  "await_delay d = (if 0 < d then [Paused d] else [])"

definition set_deadline :: "'t compiled_response \<Rightarrow> int \<Rightarrow> wire_event list" where
  "set_deadline resp slack =
     (if slack \<le> 0 then []
      else [Deadline (case cr_dribble resp of None \<Rightarrow> slack | Some d \<Rightarrow> wrap64 (slack + cd_total d))])"

section \<open>Rendering\<close>

fun render_headers :: "('t \<Rightarrow> string + string) \<Rightarrow> (string \<times> string) list \<Rightarrow> (nat \<times> 't) list \<Rightarrow>
    string + (string \<times> string) list" where
  "render_headers rn hs [] = Inr hs"
| "render_headers rn hs ((i, t) # ts) =
     (case rn t of Inl e \<Rightarrow> Inl e | Inr v \<Rightarrow> render_headers rn (hs[i := (fst (hs ! i), v)]) ts)"

definition render :: "('t \<Rightarrow> string + string) \<Rightarrow> 't compiled_response \<Rightarrow> string + bytes \<times> (string \<times> string) list" where
  "render rn resp =
     (case (case cr_body_template resp of None \<Rightarrow> Inr (cr_body resp) | Some t \<Rightarrow> rn t) of
        Inl e \<Rightarrow> Inl e
      | Inr body \<Rightarrow>
          (case render_headers rn (cr_headers resp) (cr_header_templates resp) of
             Inl e \<Rightarrow> Inl e
           | Inr hs \<Rightarrow> Inr (body, hs)))"

definition clamp_to_declared_length :: "header \<Rightarrow> bytes \<Rightarrow> bytes" where
  "clamp_to_declared_length h body =
     (let declared = (case map_of h ''Content-Length'' of Some (v # vs) \<Rightarrow> v | _ \<Rightarrow> [])
      in if declared = [] then body
         else case atoi declared of
                None \<Rightarrow> body
              | Some n \<Rightarrow> if n < 0 then body else if int (length body) \<le> n then body else take (nat n) body)"

section \<open>Dribbling\<close>

text \<open>Go divides towards zero.\<close>

definition go_div :: "int \<Rightarrow> int \<Rightarrow> int" where
  "go_div a b = sgn a * sgn b * (\<bar>a\<bar> div \<bar>b\<bar>)"

definition dribble_plan :: "chunked_dribble \<Rightarrow> nat \<Rightarrow> nat \<times> nat \<times> int" where
  "dribble_plan d n =
     (let chunks = (if int n < cd_chunks d then int n else cd_chunks d);
          chunks = nat (if chunks < 1 then 1 else chunks)
      in (chunks, n div chunks, go_div (cd_total d) (int chunks)))"

definition dribble_piece :: "nat \<Rightarrow> nat \<Rightarrow> bytes \<Rightarrow> nat \<Rightarrow> bytes" where
  "dribble_piece chunks width body i =
     (let start = i * width;
          stop = (if i = chunks - 1 then length body else start + width)
      in take (stop - start) (drop start body))"

definition dribble_gap :: "int \<Rightarrow> wire_event list" where
  "dribble_gap gap = (if 0 < gap then [Paused gap] else [])"

fun dribble_writes :: "surroundings \<Rightarrow> int \<Rightarrow> wire_event list \<Rightarrow> (nat \<Rightarrow> bytes) \<Rightarrow> nat list \<Rightarrow> wire_event list" where
  "dribble_writes su gap first piece [] = []"
| "dribble_writes su gap first piece (i # is) =
     dribble_gap gap @ first @ Piece (piece i) #
     (if su_alive su i then Flushed # dribble_writes su gap [] piece is else [])"

definition dribble :: "surroundings \<Rightarrow> 't compiled_response \<Rightarrow> chunked_dribble \<Rightarrow> header \<Rightarrow> bytes \<Rightarrow> wire_event list" where
  "dribble su resp d h body =
     (let (chunks, width, gap) = dribble_plan d (length body)
      in dribble_writes su gap [Head (cr_status resp) h] (dribble_piece chunks width body) [0..<chunks])"

section \<open>Faults\<close>

definition fault_connection_reset :: string where "fault_connection_reset = ''CONNECTION_RESET_BY_PEER''"
definition fault_empty_response :: string where "fault_empty_response = ''EMPTY_RESPONSE''"
definition fault_malformed_chunk :: string where "fault_malformed_chunk = ''MALFORMED_RESPONSE_CHUNK''"
definition fault_random_then_close :: string where "fault_random_then_close = ''RANDOM_DATA_THEN_CLOSE''"

definition crlf :: string where "crlf = [CHR 0x0D, CHR 0x0A]"

definition inject_fault :: "surroundings \<Rightarrow> string \<Rightarrow> wire_event list" where
  "inject_fault su fault =
     (case su_hijack su of
        NoHijacker \<Rightarrow> [Aborted]
      | HijackFails \<Rightarrow> [Aborted]
      | Hijacks tcp \<Rightarrow>
          (if fault = fault_connection_reset then (if tcp then [Linger0] else [])
           else if fault = fault_empty_response then []
           else if fault = fault_malformed_chunk
             then [Raw (''HTTP/1.1 200 OK'' @ crlf @ ''Transfer-Encoding: chunked'' @ crlf @ crlf),
                   Raw (''lskdu018973t09sylgasjkfg1][]'' @ [CHR 0x27] @ ''./.sdlv''), Flushed]
           else if fault = fault_random_then_close
             then (case su_junk su of None \<Rightarrow> [] | Some junk \<Rightarrow> [Raw junk, Flushed])
           else []) @ [Closed])"

section \<open>A reason phrase of the stub's own\<close>

definition sanitize_header_value :: "string \<Rightarrow> string" where
  "sanitize_header_value v =
     (let spaced = map (\<lambda>c. if c = CHR 0x0D \<or> c = CHR 0x0A then CHR '' '' else c) v;
          blank = (\<lambda>c. c \<in> {CHR '' '', CHR 0x09, CHR 0x0A, CHR 0x0D})
      in rev (dropWhile blank (rev (dropWhile blank spaced))))"

fun chunked_framing :: "unicode \<Rightarrow> string list \<Rightarrow> bool \<times> bool" where
  "chunked_framing u [] = (False, False)"
| "chunked_framing u (v # vs) =
     (if list_ex (\<lambda>v. equal_fold u v ''chunked'') (v # vs) then (True, False) else (True, True))"

text \<open>\<^verbatim>\<open>strconv.FormatInt(n, 16)\<close>.\<close>

definition lower_hex_digit :: "nat \<Rightarrow> char" where
  "lower_hex_digit n = (if n < 10 then char_of (48 + n) else char_of (87 + n))"

fun show_hex :: "nat \<Rightarrow> string" where
  "show_hex n = (if n < 16 then [lower_hex_digit n] else show_hex (n div 16) @ [lower_hex_digit (n mod 16)])"

declare show_hex.simps [simp del]

definition write_chunk :: "bytes \<Rightarrow> bytes" where
  "write_chunk b = show_hex (length b) @ crlf @ b @ crlf"

definition last_chunk :: bytes where
  "last_chunk = ''0'' @ crlf @ crlf"

definition write_chunked :: "bytes \<Rightarrow> bytes" where
  "write_chunked body = (if body = [] then [] else write_chunk body) @ last_chunk"

definition bodyless :: "int \<Rightarrow> bool" where
  "bodyless status \<longleftrightarrow> status < 200 \<or> status = 204 \<or> status = 304"

definition field_lines :: "surroundings \<Rightarrow> bool \<Rightarrow> string \<times> string list \<Rightarrow> string list" where
  "field_lines su chunked e =
     (let (name, vs) = e in
      if name = ''Connection'' then []
      else if name = ''Content-Length'' \<and> chunked then []
      else if \<not> su_valid_name su name then []
      else map (\<lambda>v. name @ '': '' @ sanitize_header_value v) vs)"

definition header_lines :: "surroundings \<Rightarrow> 't compiled_response \<Rightarrow> header \<Rightarrow> bytes \<Rightarrow> string list" where
  "header_lines su resp h body =
     (let (chunked, declare_chunked) =
            chunked_framing (su_unicode su) (case map_of h ''Transfer-Encoding'' of None \<Rightarrow> [] | Some vs \<Rightarrow> vs)
      in [''Connection: close''] @
         (if declared h ''Date'' then [] else [''Date: '' @ su_date su]) @
         (if \<not> declared h ''Content-Length'' \<and> \<not> bodyless (cr_status resp) \<and> \<not> chunked
          then [''Content-Length: '' @ show_int (int (length body))] else []) @
         concat (map (field_lines su chunked) (su_order su h)) @
         (if declare_chunked \<and> \<not> bodyless (cr_status resp) then [''Transfer-Encoding: chunked''] else []))"

definition status_line :: "'t compiled_response \<Rightarrow> string" where
  "status_line resp = ''HTTP/1.1 '' @ show_int (cr_status resp) @ '' '' @ cr_status_message resp"

definition write_lines :: "string list \<Rightarrow> bytes" where
  "write_lines ls = concat (map (\<lambda>l. l @ crlf) ls) @ crlf"

fun dribble_raw :: "surroundings \<Rightarrow> int \<Rightarrow> bool \<Rightarrow> (nat \<Rightarrow> bytes) \<Rightarrow> nat list \<Rightarrow> wire_event list" where
  "dribble_raw su gap chunked piece [] = (if chunked then [Raw last_chunk, Flushed] else [])"
| "dribble_raw su gap chunked piece (i # is) =
     dribble_gap gap @ Raw (if chunked then write_chunk (piece i) else piece i) # Flushed #
     (if su_alive su i then dribble_raw su gap chunked piece is else [])"

definition dribble_to :: "surroundings \<Rightarrow> chunked_dribble \<Rightarrow> bytes \<Rightarrow> bool \<Rightarrow> wire_event list" where
  "dribble_to su d body chunked =
     (let (chunks, width, gap) = dribble_plan d (length body)
      in dribble_raw su gap chunked (dribble_piece chunks width body) [0..<chunks])"

definition write_with_reason ::
    "surroundings \<Rightarrow> string \<Rightarrow> 't compiled_response \<Rightarrow> header \<Rightarrow> bytes \<Rightarrow> int \<Rightarrow> wire_event list option" where
  "write_with_reason su meth resp h body slack =
     (case su_hijack su of
        NoHijacker \<Rightarrow> None
      | HijackFails \<Rightarrow> None
      | Hijacks tcp \<Rightarrow>
          (let chunked = fst (chunked_framing (su_unicode su)
                 (case map_of h ''Transfer-Encoding'' of None \<Rightarrow> [] | Some vs \<Rightarrow> vs));
               head = Raw (write_lines (status_line resp # header_lines su resp h body))
           in Some (set_deadline resp slack @ head #
                (if bodyless (cr_status resp) \<or> meth = ''HEAD'' then [Flushed]
                 else case (cr_dribble resp, body) of
                        (Some d, _ # _) \<Rightarrow> dribble_to su d body chunked
                      | _ \<Rightarrow>
                          (if chunked then [Raw (write_chunked body)] else if body \<noteq> [] then [Raw body] else [])
                          @ [Flushed]) @ [Closed])))"

section \<open>Writing a response\<close>

text \<open>
  \<^verbatim>\<open>Write\<close>: the status reported to the metrics, none when the stream was aborted by a panic, and
  the events. \<open>h0\<close> is the header map the handler starts with.
\<close>

definition write_error :: "surroundings \<Rightarrow> header \<Rightarrow> wm_error \<Rightarrow> wire_event list" where
  "write_error su h0 e =
     [Head (status_for (we_code e)) (set_header ''Content-Type'' [''application/json''] h0),
      Piece (error_body (su_quote su) [e])]"

definition response_header :: "header \<Rightarrow> (string \<times> string) list \<Rightarrow> header" where
  "response_header h0 hs =
     (let h = foldl add_header h0 hs
      in if declared h ''Content-Type'' then h else set_header ''Content-Type'' [] h)"

definition write_rendered ::
    "surroundings \<Rightarrow> string \<Rightarrow> 't compiled_response \<Rightarrow> int \<Rightarrow> header \<Rightarrow> bytes \<Rightarrow> int option \<times> wire_event list" where
  "write_rendered su meth resp slack h body =
     (let body = clamp_to_declared_length h body;
          ordinary = (case (cr_dribble resp, body) of
                        (Some d, _ # _) \<Rightarrow> dribble su resp d h body
                      | _ \<Rightarrow> Head (cr_status resp) h # (if body \<noteq> [] then [Piece body] else []))
      in (Some (cr_status resp),
          if cr_has_status_message resp
          then (case write_with_reason su meth resp h body slack of Some es \<Rightarrow> es | None \<Rightarrow> ordinary)
          else ordinary))"

definition write_response ::
    "surroundings \<Rightarrow> string \<Rightarrow> 't compiled_response \<Rightarrow> int \<Rightarrow> settings option \<Rightarrow> ('t \<Rightarrow> string + string) option \<Rightarrow>
     header \<Rightarrow> int option \<times> wire_event list" where
  "write_response su meth resp slack global renderer h0 =
     (let delay = await_delay (compose_delay su resp global)
      in if cr_fault resp \<noteq> []
         then (let es = inject_fault su (cr_fault resp)
               in (if Aborted \<in> set es then None else Some 0, delay @ es))
         else if cr_body_file_missing resp
         then (Some (status_for code_body_file_missing),
               delay @ write_error su h0 (new_error code_body_file_missing
                 (''the stub'' @ [CHR 0x27] @ ''s bodyFileName '' @ cr_body_file_name resp @ '' has no corresponding file'')))
         else (case (if cr_templated resp then renderer else None) of
                 None \<Rightarrow>
                   (let (st, es) = write_rendered su meth resp slack (response_header h0 (cr_headers resp)) (cr_body resp)
                    in (st, delay @ set_deadline resp slack @ es))
               | Some rn \<Rightarrow>
                   (case render rn resp of
                      Inl err \<Rightarrow>
                        (Some 500, delay @ set_deadline resp slack @
                           [Head 500 (set_header ''Content-Type'' [''text/plain''] h0),
                            Piece (''Template render error: '' @ err)])
                    | Inr (body, hs) \<Rightarrow>
                        (let (st, es) = write_rendered su meth resp slack (response_header h0 hs) body
                         in (st, delay @ set_deadline resp slack @ es)))))"

end
