(* ===== verification/Response_Wire.thy ===== *)
theory Response_Wire
  imports Response Json_Number
begin

text \<open>
  What a client makes of the responses \<^verbatim>\<open>internal/response\<close> writes by hand. A reader of HTTP/1.1
  responses is defined here independently of the writer; reading the written bytes gives back the
  status, the phrase, the headers of the stub and the body, so no value of a stub can end a line,
  add a header or break the framing.
\<close>

section \<open>A reader of responses\<close>

fun take_line :: "string \<Rightarrow> (string \<times> string) option" where
  "take_line (c # d # s) =
     (if c = CHR 0x0D \<and> d = CHR 0x0A then Some ([], s)
      else map_option (\<lambda>(l, r). (c # l, r)) (take_line (d # s)))"
| "take_line s = None"

lemma take_line_shorter: "take_line s = Some (l, r) \<Longrightarrow> length r < length s"
  by (induction s arbitrary: l r rule: take_line.induct) (fastforce split: if_splits)+

function read_lines :: "string \<Rightarrow> (string list \<times> string) option" where
  "read_lines s =
     (case take_line s of
        None \<Rightarrow> None
      | Some (l, r) \<Rightarrow>
          if l = [] then Some ([], r) else map_option (\<lambda>(ls, r). (l # ls, r)) (read_lines r))"
  by pat_completeness auto

termination by (relation "measure length") (auto dest: take_line_shorter)

declare read_lines.simps [simp del]

definition trim_blanks :: "string \<Rightarrow> string" where
  "trim_blanks v =
     (let blank = (\<lambda>c. c = CHR '' '' \<or> c = CHR 0x09)
      in rev (dropWhile blank (rev (dropWhile blank v))))"

definition read_field :: "string \<Rightarrow> (string \<times> string) option" where
  "read_field l = (let (n, v, found) = cut_at l (CHR '':'') in if found then Some (n, trim_blanks v) else None)"

definition read_fields :: "string list \<Rightarrow> (string \<times> string) list option" where
  "read_fields ls =
     (if list_all (\<lambda>l. read_field l \<noteq> None) ls then Some (map (\<lambda>l. the (read_field l)) ls) else None)"

definition field_values :: "string \<Rightarrow> (string \<times> string) list \<Rightarrow> string list" where
  "field_values k fs = map snd (filter (\<lambda>f. canonical_header_key (fst f) = k) fs)"

fun read_hex :: "nat \<Rightarrow> string \<Rightarrow> nat option" where
  "read_hex n [] = Some n"
| "read_hex n (c # s) = (case hex_value c of None \<Rightarrow> None | Some d \<Rightarrow> read_hex (16 * n + d) s)"

function read_chunks :: "string \<Rightarrow> bytes option" where
  "read_chunks s =
     (case take_line s of
        None \<Rightarrow> None
      | Some (l, r) \<Rightarrow>
          (case (if l = [] then None else read_hex 0 l) of
             None \<Rightarrow> None
           | Some n \<Rightarrow>
               if n = 0 then (if take 2 r = crlf then Some [] else None)
               else if take 2 (drop n r) = crlf
               then map_option (\<lambda>b. take n r @ b) (read_chunks (drop (n + 2) r)) else None))"
  by pat_completeness auto

termination by (relation "measure length") (auto dest: take_line_shorter simp: less_imp_diff_less)

declare read_chunks.simps [simp del]

text \<open>
  The body by its framing: transfer codings, the last of which alone is \<open>chunked\<close>; else one
  \<^verbatim>\<open>Content-Length\<close>; else everything until the close.
\<close>

definition read_body :: "unicode \<Rightarrow> (string \<times> string) list \<Rightarrow> bytes \<Rightarrow> bytes option" where
  "read_body u fs rest =
     (let codings = map trim_blanks (concat (map (\<lambda>v. split v (CHR '','')) (field_values ''Transfer-Encoding'' fs)))
      in if codings \<noteq> []
         then (if equal_fold u (last codings) ''chunked'' \<and> \<not> list_ex (\<lambda>v. equal_fold u v ''chunked'') (butlast codings)
               then read_chunks rest else None)
         else (case field_values ''Content-Length'' fs of
                 [] \<Rightarrow> Some rest
               | [v] \<Rightarrow> (case atoi v of Some n \<Rightarrow> if 0 \<le> n \<and> n \<le> int (length rest) then Some (take (nat n) rest) else None
                        | None \<Rightarrow> None)
               | _ \<Rightarrow> None))"

definition read_status_line :: "string \<Rightarrow> (int \<times> string) option" where
  "read_status_line l =
     (let (version, r, found) = cut_at l (CHR '' '');
          (code, phrase, found2) = cut_at r (CHR '' '')
      in if version = ''HTTP/1.1'' \<and> found \<and> found2 then map_option (\<lambda>n. (n, phrase)) (atoi code) else None)"

definition read_response ::
    "unicode \<Rightarrow> string \<Rightarrow> bytes \<Rightarrow> (int \<times> string \<times> (string \<times> string) list \<times> bytes) option" where
  "read_response u meth bytes =
     (case read_lines bytes of
        Some (l # ls, rest) \<Rightarrow>
          (case (read_status_line l, read_fields ls) of
             (Some (status, phrase), Some fs) \<Rightarrow>
               (if meth = ''HEAD'' \<or> bodyless status then Some (status, phrase, fs, [])
                else map_option (\<lambda>b. (status, phrase, fs, b)) (read_body u fs rest))
           | _ \<Rightarrow> None)
      | _ \<Rightarrow> None)"

fun raw_bytes :: "wire_event list \<Rightarrow> bytes" where
  "raw_bytes [] = []"
| "raw_bytes (Raw b # es) = b @ raw_bytes es"
| "raw_bytes (_ # es) = raw_bytes es"

lemma raw_bytes_append [simp]: "raw_bytes (es @ fs) = raw_bytes es @ raw_bytes fs"
  by (induction es rule: raw_bytes.induct) simp_all

section \<open>Lines\<close>

definition one_line :: "string \<Rightarrow> bool" where
  "one_line s \<longleftrightarrow> CHR 0x0D \<notin> set s \<and> CHR 0x0A \<notin> set s"

lemma one_line_append [simp]: "one_line (s @ t) \<longleftrightarrow> one_line s \<and> one_line t"
  by (auto simp: one_line_def)

lemma one_line_simps [simp]:
  "one_line []" "one_line (c # s) \<longleftrightarrow> c \<noteq> CHR 0x0D \<and> c \<noteq> CHR 0x0A \<and> one_line s"
  by (auto simp: one_line_def)

lemma take_line_crlf: "one_line l \<Longrightarrow> take_line (l @ crlf @ r) = Some (l, r)"
proof (induction l)
  case Nil
  then show ?case by (simp add: crlf_def)
next
  case (Cons c l)
  then show ?case by (cases l) (auto simp: crlf_def)
qed

lemma read_lines_write:
  assumes "\<forall>l\<in>set ls. one_line l \<and> l \<noteq> []"
  shows "read_lines (write_lines ls @ r) = Some (ls, r)"
  using assms
proof (induction ls)
  case Nil
  have "take_line (crlf @ r) = Some ([], r)" using take_line_crlf [of "[]" r] by simp
  then show ?case by (simp add: read_lines.simps [of "crlf @ r"] write_lines_def)
next
  case (Cons l ls)
  have "write_lines (l # ls) @ r = l @ crlf @ (write_lines ls @ r)" by (simp add: write_lines_def)
  then show ?case
    using Cons take_line_crlf [of l "write_lines ls @ r"]
    by (simp add: read_lines.simps [of "l @ crlf @ (write_lines ls @ r)"])
qed

lemma cut_at_append: "c \<notin> set a \<Longrightarrow> cut_at (a @ c # b) c = (a, b, True)"
  by (induction a) auto

section \<open>Chunks\<close>

lemma hex_value_lower: "n < 16 \<Longrightarrow> hex_value (lower_hex_digit n) = Some n"
  by (auto simp: hex_value_def lower_hex_digit_def is_digit_def)

lemma read_hex_append: "read_hex n (s @ t) = (case read_hex n s of None \<Rightarrow> None | Some m \<Rightarrow> read_hex m t)"
  by (induction n s rule: read_hex.induct) (auto split: option.splits)

lemma read_hex_show: "read_hex 0 (show_hex n) = Some n"
proof (induction n rule: show_hex.induct)
  case (1 n)
  then show ?case
    by (cases "n < 16") (simp_all add: show_hex.simps [of n] read_hex_append hex_value_lower)
qed

lemma show_hex_nonempty: "show_hex n \<noteq> []"
  by (simp add: show_hex.simps [of n])

lemma one_line_show_hex: "one_line (show_hex n)"
proof (induction n rule: show_hex.induct)
  case (1 n)
  have "one_line [lower_hex_digit k]" if "k < 16" for k
    using hex_value_lower [OF that] by (auto simp: hex_value_def is_digit_def)
  then show ?case using 1 by (cases "n < 16") (simp_all add: show_hex.simps [of n])
qed

lemma read_chunks_chunk:
  "b \<noteq> [] \<Longrightarrow> read_chunks (write_chunk b @ r) = map_option (\<lambda>x. b @ x) (read_chunks r)"
  using take_line_crlf [OF one_line_show_hex, of "length b" "b @ crlf @ r"]
  by (simp add: write_chunk_def read_chunks.simps [of "show_hex _ @ _"] show_hex_nonempty read_hex_show)
     (simp add: crlf_def)

lemma read_chunks_last: "read_chunks (last_chunk @ r) = Some []"
  using take_line_crlf [of "''0''" "crlf @ r"]
  by (simp add: last_chunk_def read_chunks.simps [of "CHR ''0'' # _"] hex_value_def is_digit_def digit_value_def)
     (simp add: crlf_def)

lemma read_chunks_list:
  "\<forall>b\<in>set bs. b \<noteq> [] \<Longrightarrow> read_chunks (concat (map write_chunk bs) @ last_chunk) = Some (concat bs)"
proof (induction bs)
  case Nil
  then show ?case using read_chunks_last [of "[]"] by simp
qed (simp add: read_chunks_chunk)

lemma read_write_chunked: "read_chunks (write_chunked body) = Some body"
  using read_chunks_list [of "if body = [] then [] else [body]"] by (cases body) (auto simp: write_chunked_def)


section \<open>Dribbled bodies\<close>

lemma dribble_prefix:
  assumes "k < chunks" and "width = length body div chunks"
  shows "concat (map (dribble_piece chunks width body) [0..<k]) = take (k * width) body"
  using assms(1)
proof (induction k)
  case (Suc k)
  have "k \<noteq> chunks - Suc 0" using Suc.prems by simp
  then have "dribble_piece chunks width body k = take width (drop (k * width) body)"
    by (simp add: dribble_piece_def Let_def)
  then show ?case using Suc by (simp only: mult_Suc add.commute [of width] take_add) simp
qed simp

lemma dribble_all:
  assumes "0 < chunks" and "width = length body div chunks"
  shows "concat (map (dribble_piece chunks width body) [0..<chunks]) = body"
proof -
  obtain k where k: "chunks = Suc k" using assms(1) by (cases chunks) auto
  have "dribble_piece chunks width body k = drop (k * width) body" by (simp add: dribble_piece_def Let_def k)
  then show ?thesis using dribble_prefix [of k chunks width body] assms(2) by (simp add: k)
qed

lemma dribble_nonempty:
  assumes "i < chunks" and "chunks \<le> length body"
  shows "dribble_piece chunks (length body div chunks) body i \<noteq> []"
proof -
  have w: "0 < length body div chunks" using assms by (simp add: div_greater_zero_iff)
  have "i * (length body div chunks) < chunks * (length body div chunks)" using assms(1) w by simp
  also have "\<dots> \<le> length body" by (metis div_times_less_eq_dividend mult.commute)
  finally show ?thesis using w by (auto simp: dribble_piece_def Let_def)
qed

lemma dribble_plan_bounds:
  assumes "dribble_plan d n = (chunks, width, gap)"
  shows "0 < chunks" and "width = n div chunks" and "0 < n \<Longrightarrow> chunks \<le> n"
  using assms by (auto simp: dribble_plan_def Let_def split: if_splits)

lemma dribble_pieces:
  assumes "dribble_plan d (length body) = (chunks, width, gap)" and "body \<noteq> []"
  shows "concat (map (dribble_piece chunks width body) [0..<chunks]) = body"
    and "\<forall>b\<in>set (map (dribble_piece chunks width body) [0..<chunks]). b \<noteq> []"
  using dribble_plan_bounds [OF assms(1)] dribble_all dribble_nonempty assms(2) by auto

lemma raw_dribble_raw:
  assumes "\<forall>i. su_alive su i"
  shows "raw_bytes (dribble_raw su gap chunked piece is) =
    (if chunked then concat (map write_chunk (map piece is)) @ last_chunk else concat (map piece is))"
  using assms by (induction su gap chunked piece "is" rule: dribble_raw.induct) (auto simp: dribble_gap_def)

text \<open>Both ways of sending the body are read back whole.\<close>

definition body_bytes :: "surroundings \<Rightarrow> 't compiled_response \<Rightarrow> bytes \<Rightarrow> bool \<Rightarrow> bytes" where
  "body_bytes su resp body chunked =
     raw_bytes (case (cr_dribble resp, body) of
                  (Some d, _ # _) \<Rightarrow> dribble_to su d body chunked
                | _ \<Rightarrow> (if chunked then [Raw (write_chunked body)] else if body \<noteq> [] then [Raw body] else []) @ [Flushed])"

lemma body_bytes_plain: "\<forall>i. su_alive su i \<Longrightarrow> body_bytes su resp body False = body"
  using dribble_pieces(1) [where body = body]
  by (auto simp: body_bytes_def dribble_to_def raw_dribble_raw split: option.splits list.splits prod.splits)

lemma body_bytes_chunked: "\<forall>i. su_alive su i \<Longrightarrow> read_chunks (body_bytes su resp body True) = Some body"
proof (cases "cr_dribble resp = None \<or> body = []")
  case False
  then obtain d b bs where d: "cr_dribble resp = Some d" "body = b # bs" by (cases body) auto
  obtain chunks width gap where p: "dribble_plan d (length body) = (chunks, width, gap)" by (metis prod_cases3)
  assume "\<forall>i. su_alive su i"
  then have "body_bytes su resp body True =
      concat (map write_chunk (map (dribble_piece chunks width body) [0..<chunks])) @ last_chunk"
    using d p by (simp add: body_bytes_def dribble_to_def raw_dribble_raw)
  then show ?thesis
    using read_chunks_list [OF dribble_pieces(2) [OF p]] dribble_pieces(1) [OF p] d(2) by simp
qed (auto simp: body_bytes_def read_write_chunked split: option.splits list.splits)


section \<open>Header values\<close>

lemma dropWhile_ends:
  assumes "r = rev (dropWhile P (rev (dropWhile P s)))" and "r \<noteq> []"
  shows "\<not> P (hd r)" and "\<not> P (last r)"
proof -
  let ?t = "dropWhile P s" and ?u = "dropWhile P (rev (dropWhile P s))"
  have u: "?u \<noteq> []" using assms by simp
  show "\<not> P (last r)" using hd_dropWhile [OF u] u assms(1) by (simp add: last_rev)
  have t: "?t \<noteq> []" using u by (metis dropWhile.simps(1) rev.simps(1))
  have "last ?u = last (takeWhile P (rev ?t) @ ?u)" by (rule last_appendR [symmetric, OF u])
  also have "\<dots> = last (rev ?t)" by (simp only: takeWhile_dropWhile_id)
  also have "\<dots> = hd ?t" using t by (simp add: last_rev)
  finally show "\<not> P (hd r)" using hd_dropWhile [OF t] assms(1) u by (simp add: hd_rev)
qed

lemma trim_blanks_bare:
  assumes "r \<noteq> [] \<Longrightarrow> hd r \<notin> {CHR '' '', CHR 0x09}" and "r \<noteq> [] \<Longrightarrow> last r \<notin> {CHR '' '', CHR 0x09}"
  shows "trim_blanks r = r" and "trim_blanks (CHR '' '' # r) = r"
proof -
  have "dropWhile (\<lambda>c. c = CHR '' '' \<or> c = CHR 0x09) r = r" using assms(1) by (cases r) auto
  moreover have "dropWhile (\<lambda>c. c = CHR '' '' \<or> c = CHR 0x09) (rev r) = rev r"
    using assms(2) by (cases r rule: rev_cases) auto
  ultimately show "trim_blanks r = r" "trim_blanks (CHR '' '' # r) = r" by (simp_all add: trim_blanks_def)
qed

lemma sanitize_ends:
  assumes "sanitize_header_value v \<noteq> []"
  shows "hd (sanitize_header_value v) \<notin> {CHR '' '', CHR 0x09}"
    and "last (sanitize_header_value v) \<notin> {CHR '' '', CHR 0x09}"
  using dropWhile_ends [OF sanitize_header_value_def [unfolded Let_def] assms] by auto

lemma trim_sanitized [simp]:
  "trim_blanks (CHR '' '' # sanitize_header_value v) = sanitize_header_value v"
  "trim_blanks (sanitize_header_value v) = sanitize_header_value v"
  using trim_blanks_bare [of "sanitize_header_value v"] sanitize_ends [of v] by blast+

lemma one_line_sanitize [simp]: "one_line (sanitize_header_value v)"
proof -
  let ?m = "map (\<lambda>c. if c = CHR 0x0D \<or> c = CHR 0x0A then CHR '' '' else c) v"
  have "set (sanitize_header_value v) \<subseteq> set ?m"
    by (auto simp: sanitize_header_value_def Let_def dest!: set_dropWhileD)
  moreover have "one_line ?m" by (auto simp: one_line_def)
  ultimately show ?thesis by (auto simp: one_line_def)
qed

section \<open>Header names\<close>

lemma map_of_put_value:
  "map_of (put_value k v h) k' =
     (if k' = k then Some ((case map_of h k of None \<Rightarrow> [] | Some vs \<Rightarrow> vs) @ [v]) else map_of h k')"
  by (induction k v h rule: put_value.induct) auto

lemma keys_put_value: "set (map fst (put_value k v h)) = insert k (set (map fst h))"
  by (induction k v h rule: put_value.induct) auto

lemma distinct_put_value: "distinct (map fst h) \<Longrightarrow> distinct (map fst (put_value k v h))"
  by (induction k v h rule: put_value.induct) (use keys_put_value in auto)

lemma map_of_add_headers:
  "map_of (foldl add_header h hs) k =
     (case map_of h k of
        None \<Rightarrow> (if field_values k hs = [] then None else Some (field_values k hs))
      | Some vs \<Rightarrow> Some (vs @ field_values k hs))"
proof (induction hs arbitrary: h)
  case (Cons nv hs)
  show ?case unfolding foldl.simps Cons.IH
    by (cases nv) (auto simp: add_header_def map_of_put_value field_values_def split: option.splits)
qed (simp add: field_values_def split: option.splits)

lemma distinct_add_headers: "distinct (map fst h) \<Longrightarrow> distinct (map fst (foldl add_header h hs))"
  by (induction hs arbitrary: h) (simp_all add: add_header_def distinct_put_value)

lemma response_header_values:
  "map_of (response_header [] hs) k =
     (if field_values k hs \<noteq> [] then Some (field_values k hs)
      else if k = ''Content-Type'' then Some [] else None)"
  by (auto simp: response_header_def Let_def declared_def set_header_def update_conv map_of_add_headers)

lemma response_header_distinct: "distinct (map fst (response_header [] hs))"
  by (auto simp: response_header_def Let_def set_header_def distinct_add_headers distinct_update)

lemma token_byte_upper: "token_byte c \<Longrightarrow> token_byte (ascii_upper c)"
proof (cases "is_lower c")
  case True
  then have n: "97 \<le> (of_char c :: nat)" "of_char c \<le> (122 :: nat)" by (simp_all add: is_lower_def)
  then have "65 \<le> (of_char c - 32 :: nat)" "of_char c - 32 \<le> (90 :: nat)" by linarith+
  then have "is_upper (ascii_upper c)" using True n by (simp add: ascii_upper_def is_upper_def)
  then show ?thesis by (simp add: token_byte_def)
qed (simp add: ascii_upper_def)

lemma token_byte_lower: "token_byte c \<Longrightarrow> token_byte (ascii_lower c)"
proof (cases "is_upper c")
  case True
  then have n: "65 \<le> (of_char c :: nat)" "of_char c \<le> (90 :: nat)" by (simp_all add: is_upper_def)
  then have "is_lower (ascii_lower c)" using True by (simp add: ascii_lower_def is_lower_def)
  then show ?thesis by (simp add: token_byte_def)
qed (simp add: ascii_lower_def)

lemma ascii_lower_idem [simp]: "ascii_lower (ascii_lower c) = ascii_lower c"
  by (metis ascii_lower_upper ascii_upper_lower)

lemma canonical_bytes_token: "list_all token_byte s \<Longrightarrow> list_all token_byte (canonical_bytes up s)"
  by (induction up s rule: canonical_bytes.induct) (auto intro: token_byte_upper token_byte_lower)

lemma canonical_bytes_lower: "map ascii_lower (canonical_bytes up s) = map ascii_lower s"
  by (induction up s rule: canonical_bytes.induct) (simp_all add: ascii_lower_upper)

lemma canonical_idem [simp]: "canonical_header_key (canonical_header_key n) = canonical_header_key n"
proof (cases "list_all token_byte n")
  case True
  then have c: "canonical_header_key n = canonical_bytes True n" by (simp add: canonical_header_key_def)
  show ?thesis
    using canonical_header_key_fold [of "canonical_bytes True n" n] True
    by (simp add: c canonical_bytes_token canonical_bytes_lower)
qed (simp add: canonical_header_key_def)

lemma field_values_canonical: "field_values k hs \<noteq> [] \<Longrightarrow> canonical_header_key k = k"
  by (auto simp: field_values_def filter_empty_conv)

lemma canonical_content_type: "canonical_header_key ''Content-Type'' = ''Content-Type''"
  by code_simp

lemma response_header_canonical: "(k, vs) \<in> set (response_header [] hs) \<Longrightarrow> canonical_header_key k = k"
  using map_of_is_SomeI [OF response_header_distinct, of k vs hs] field_values_canonical
  by (auto simp: response_header_values canonical_content_type split: if_splits)


section \<open>The header block\<close>

definition fields_of :: "surroundings \<Rightarrow> bool \<Rightarrow> string \<times> string list \<Rightarrow> (string \<times> string) list" where
  "fields_of su chunked e =
     (let (name, vs) = e in
      if name = ''Connection'' \<or> (name = ''Content-Length'' \<and> chunked) \<or> \<not> su_valid_name su name then []
      else map (\<lambda>v. (name, sanitize_header_value v)) vs)"

definition written_fields :: "surroundings \<Rightarrow> 't compiled_response \<Rightarrow> header \<Rightarrow> bytes \<Rightarrow> (string \<times> string) list" where
  "written_fields su resp h body =
     (let (chunked, declare_chunked) =
            chunked_framing (su_unicode su) (case map_of h ''Transfer-Encoding'' of None \<Rightarrow> [] | Some vs \<Rightarrow> vs)
      in [(''Connection'', ''close'')] @
         (if declared h ''Date'' then [] else [(''Date'', su_date su)]) @
         (if \<not> declared h ''Content-Length'' \<and> \<not> bodyless (cr_status resp) \<and> \<not> chunked
          then [(''Content-Length'', show_int (int (length body)))] else []) @
         concat (map (fields_of su chunked) (su_order su h)) @
         (if declare_chunked \<and> \<not> bodyless (cr_status resp) then [(''Transfer-Encoding'', ''chunked'')] else []))"

definition show_field :: "string \<times> string \<Rightarrow> string" where
  "show_field f = fst f @ '': '' @ snd f"

lemma header_lines_fields: "header_lines su resp h body = map show_field (written_fields su resp h body)"
proof -
  have "field_lines su chunked = (\<lambda>e. map show_field (fields_of su chunked e))" for chunked
    by (rule ext) (auto simp: field_lines_def fields_of_def show_field_def Let_def split: prod.splits)
  then show ?thesis
    by (simp add: header_lines_def written_fields_def map_concat comp_def split: prod.splits)
       (simp add: show_field_def)
qed

lemma control_not_digit:
  "\<not> is_digit (CHR 0x0D)" "\<not> is_digit (CHR 0x0A)" "\<not> is_digit (CHR '' '')" "\<not> is_digit (CHR 0x09)"
  by (simp_all add: is_digit_def)

lemma one_line_show_int: "one_line (show_int i)"
  using show_nat_chars control_not_digit by (auto simp: show_int_def one_line_def)

lemma token_byte_not: "\<not> token_byte (CHR '':'')" "\<not> token_byte (CHR 0x0D)" "\<not> token_byte (CHR 0x0A)"
  by code_simp+

lemma token_name:
  assumes "list_all token_byte n"
  shows "CHR '':'' \<notin> set n" and "one_line n"
  using assms token_byte_not by (auto simp: list_all_iff one_line_def)

lemma read_show_field: "CHR '':'' \<notin> set (fst f) \<Longrightarrow> read_field (show_field f) = Some (fst f, trim_blanks (snd f))"
  using cut_at_append [of "CHR '':''" "fst f" "CHR '' '' # snd f"]
  by (simp add: read_field_def show_field_def trim_blanks_def)

lemma read_show_fields:
  "\<forall>f\<in>set fs. CHR '':'' \<notin> set (fst f) \<Longrightarrow>
   read_fields (map show_field fs) = Some (map (\<lambda>f. (fst f, trim_blanks (snd f))) fs)"
  by (auto simp: read_fields_def list_all_iff read_show_field)

lemma field_values_simps [simp]:
  "field_values k [] = []"
  "field_values k (f # fs) = (if canonical_header_key (fst f) = k then snd f # field_values k fs else field_values k fs)"
  by (simp_all add: field_values_def)

lemma field_values_append [simp]: "field_values k (fs @ gs) = field_values k fs @ field_values k gs"
  by (simp add: field_values_def)

lemma field_values_trim:
  "field_values k (map (\<lambda>f. (fst f, trim_blanks (snd f))) fs) = map trim_blanks (field_values k fs)"
  by (induction fs) (simp_all add: field_values_def)

lemma field_values_fields_of:
  "canonical_header_key n = n \<Longrightarrow> field_values k (fields_of su chunked (n, vs)) =
     (if n = k \<and> \<not> (k = ''Connection'' \<or> (k = ''Content-Length'' \<and> chunked) \<or> \<not> su_valid_name su k)
      then map sanitize_header_value vs else [])"
  by (cases "n = k") (auto simp: field_values_def fields_of_def comp_def filter_map)

lemma field_values_block:
  assumes "distinct (map fst h)" and "\<forall>(n, vs)\<in>set h. canonical_header_key n = n"
  shows "field_values k (concat (map (fields_of su chunked) h)) =
    (if k = ''Connection'' \<or> (k = ''Content-Length'' \<and> chunked) \<or> \<not> su_valid_name su k then []
     else case map_of h k of None \<Rightarrow> [] | Some vs \<Rightarrow> map sanitize_header_value vs)"
  using assms
proof (induction h)
  case (Cons e h)
  obtain n vs where e: "e = (n, vs)" by fastforce
  have "map_of h n = None" using Cons.prems(1) e by (simp add: map_of_eq_None_iff)
  then show ?case using Cons by (auto simp: e field_values_fields_of)
qed (simp add: field_values_def)

text \<open>What is assumed of the surroundings: the documented behaviour of the libraries, and a live peer.\<close>

definition plain_surroundings :: "surroundings \<Rightarrow> bool" where
  "plain_surroundings su \<longleftrightarrow>
     (\<exists>tcp. su_hijack su = Hijacks tcp) \<and> (\<forall>i. su_alive su i) \<and> one_line (su_date su) \<and>
     (\<forall>h. mset (su_order su h) = mset h) \<and> (\<forall>n. su_valid_name su n \<longleftrightarrow> n \<noteq> [] \<and> list_all token_byte n)"

lemma order_facts:
  assumes "plain_surroundings su" and "distinct (map fst h)"
  shows "distinct (map fst (su_order su h))" and "map_of (su_order su h) = map_of h" and "set (su_order su h) = set h"
proof -
  have m: "mset (su_order su h) = mset h" using assms(1) by (simp add: plain_surroundings_def)
  then show s: "set (su_order su h) = set h" by (rule mset_eq_setD)
  show d: "distinct (map fst (su_order su h))"
    using assms(2) m by (metis mset_eq_imp_distinct_iff mset_map)
  show "map_of (su_order su h) = map_of h" using map_of_inject_set [OF d assms(2)] s by simp
qed

lemma written_names:
  assumes "plain_surroundings su" and "f \<in> set (written_fields su resp h body)"
  shows "CHR '':'' \<notin> set (fst f)" and "one_line (show_field f)" and "show_field f \<noteq> []"
proof -
  have "f \<in> {(''Connection'', ''close''), (''Date'', su_date su), (''Content-Length'', show_int (int (length body))),
      (''Transfer-Encoding'', ''chunked'')} \<or> su_valid_name su (fst f) \<and> (\<exists>v. snd f = sanitize_header_value v)"
    using assms(2) by (auto simp: written_fields_def fields_of_def Let_def split: prod.splits if_splits)
  then show "CHR '':'' \<notin> set (fst f)" "one_line (show_field f)" "show_field f \<noteq> []"
    using assms(1) one_line_show_int token_name by (auto simp: plain_surroundings_def show_field_def)
qed


section \<open>A stub with a reason phrase is read back as it was declared\<close>

text \<open>
  Declared transfer codings the writer can frame: single codings, of which \<open>chunked\<close> may be the
  last. A value that lists several, or that is \<open>chunked\<close> only up to blanks, is declared once more
  by the writer (\<open>chunked_declared_twice\<close> below).
\<close>

definition codings_ok :: "unicode \<Rightarrow> string list \<Rightarrow> bool" where
  "codings_ok u vs \<longleftrightarrow>
     (let ws = (if vs \<noteq> [] \<and> last vs = ''chunked'' then butlast vs else vs)
      in list_all (\<lambda>w. CHR '','' \<notin> set w \<and> sanitize_header_value w = w \<and> \<not> equal_fold u w ''chunked'') ws)"

definition framing :: "unicode \<Rightarrow> (string \<times> string) list \<Rightarrow> bool \<times> bool" where
  "framing u hs = chunked_framing u (field_values ''Transfer-Encoding'' hs)"

lemma equal_fold_chunked [simp]: "equal_fold u ''chunked'' ''chunked''"
  by (simp add: equal_fold_ascii is_ascii_def)

lemma codings_framed:
  assumes "codings_ok u vs" and "vs \<noteq> []"
  obtains ws where "vs @ (if snd (chunked_framing u vs) then [''chunked''] else []) = ws @ [''chunked'']"
    and "list_all (\<lambda>w. CHR '','' \<notin> set w \<and> sanitize_header_value w = w \<and> \<not> equal_fold u w ''chunked'') ws"
    and "fst (chunked_framing u vs)"
proof (cases "last vs = ''chunked''")
  case True
  then have vs: "vs = butlast vs @ [''chunked'']" using assms(2) by (metis append_butlast_last_id)
  then have "list_ex (\<lambda>v. equal_fold u v ''chunked'') vs" using True equal_fold_chunked [of u] last_in_set [OF assms(2)] by (metis list_ex_iff)
  then have "chunked_framing u vs = (True, False)" using assms(2) by (cases vs) auto
  then show thesis using that [of "butlast vs"] assms vs True by (simp add: codings_ok_def)
next
  case False
  then have "\<not> list_ex (\<lambda>v. equal_fold u v ''chunked'') vs"
    using assms by (auto simp: codings_ok_def list_all_iff list_ex_iff)
  then have "chunked_framing u vs = (True, True)" using assms(2) by (cases vs) auto
  then show thesis using that [of vs] assms False by (simp add: codings_ok_def)
qed

text \<open>The fields a client reads, name by name.\<close>

definition read_back :: "(string \<times> string) list \<Rightarrow> (string \<times> string) list" where
  "read_back fs = map (\<lambda>f. (fst f, trim_blanks (snd f))) fs"

definition own_field :: "string \<Rightarrow> bool" where
  "own_field k \<longleftrightarrow> k \<in> {''Connection'', ''Date'', ''Content-Length'', ''Transfer-Encoding''}"

lemma own_canonical:
  "canonical_header_key ''Connection'' = ''Connection''" "canonical_header_key ''Date'' = ''Date''"
  "canonical_header_key ''Content-Length'' = ''Content-Length''"
  "canonical_header_key ''Transfer-Encoding'' = ''Transfer-Encoding''"
  by code_simp+

lemma block_values:
  assumes "plain_surroundings su"
  shows "field_values k (concat (map (fields_of su chunked) (su_order su (response_header [] hs)))) =
    (if k = ''Connection'' \<or> (k = ''Content-Length'' \<and> chunked) \<or> \<not> su_valid_name su k then []
     else map sanitize_header_value (field_values k hs))"
proof -
  note o = order_facts [OF assms response_header_distinct [of hs]]
  have c: "\<forall>(n, vs)\<in>set (su_order su (response_header [] hs)). canonical_header_key n = n"
    using o(3) response_header_canonical by auto
  show ?thesis unfolding field_values_block [OF o(1) c] o(2) response_header_values by (auto split: if_splits)
qed

lemma framing_codings:
  assumes "plain_surroundings su" and "\<not> bodyless (cr_status resp)"
  shows "field_values ''Transfer-Encoding'' (read_back (written_fields su resp (response_header [] hs) body)) =
    map sanitize_header_value (field_values ''Transfer-Encoding'' hs) @
    (if snd (framing (su_unicode su) hs) then [''chunked''] else [])"
proof -
  have v: "su_valid_name su ''Transfer-Encoding''"
  proof -
    have "list_all token_byte ''Transfer-Encoding''" by code_simp
    then show ?thesis using assms(1) by (simp add: plain_surroundings_def)
  qed
  have te: "(case map_of (response_header [] hs) ''Transfer-Encoding'' of None \<Rightarrow> [] | Some vs \<Rightarrow> vs) =
      field_values ''Transfer-Encoding'' hs"
    by (auto simp: response_header_values)
  have t: "trim_blanks ''chunked'' = ''chunked''" by code_simp
  show ?thesis unfolding read_back_def field_values_trim written_fields_def te framing_def
    using assms(2) v
    by (auto simp: block_values [OF assms(1)] comp_def t own_canonical split: prod.splits)
qed


lemma show_nat_bare: "hd (show_nat n) \<notin> {CHR '' '', CHR 0x09}" "last (show_nat n) \<notin> {CHR '' '', CHR 0x09}"
  using show_nat_chars [of "hd (show_nat n)" n] show_nat_chars [of "last (show_nat n)" n] show_nat_digits [of n]
    control_not_digit by auto

lemma read_status:
  assumes "0 \<le> cr_status resp" and "cr_status resp < 1000"
  shows "read_status_line (status_line resp) = Some (cr_status resp, cr_status_message resp)"
proof -
  obtain n where n: "cr_status resp = int n" "n < 1000" using assms by (metis nonneg_int_cases of_nat_less_iff of_nat_numeral)
  have d: "CHR '' '' \<notin> set (show_nat n)" using show_nat_digits [of n] by (auto simp: list_all_iff is_digit_def)
  have a: "atoi (show_nat n) = Some (int n)" using atoi_digits [of "[]" "show_nat n"] show_nat_digits [of n] n(2) by simp
  show ?thesis
    using cut_at_append [OF d, of "cr_status_message resp"] a
    by (simp add: read_status_line_def status_line_def n(1) show_int_def)
qed

lemma one_line_status: "one_line (cr_status_message resp) \<Longrightarrow> one_line (status_line resp)"
  by (simp add: status_line_def one_line_show_int)

text \<open>
  Declared framing the writer can honour. Without transfer codings: no \<^verbatim>\<open>Content-Length\<close>, or one
  that is the number of bytes to be sent; a larger one promises bytes nobody has, several or a
  word are sent as they are (\<open>no_length_sent\<close> below). With them, whatever \<^verbatim>\<open>Content-Length\<close> says.
\<close>

definition framing_ok :: "surroundings \<Rightarrow> (string \<times> string) list \<Rightarrow> bytes \<Rightarrow> bool" where
  "framing_ok su hs body \<longleftrightarrow>
     (if field_values ''Transfer-Encoding'' hs \<noteq> []
      then codings_ok (su_unicode su) (field_values ''Transfer-Encoding'' hs)
      else case field_values ''Content-Length'' hs of
             [] \<Rightarrow> True
           | [v] \<Rightarrow> sanitize_header_value v = v \<and> atoi v = Some (int (length body))
           | _ \<Rightarrow> False)"

lemma own_valid:
  assumes "plain_surroundings su"
  shows "su_valid_name su ''Transfer-Encoding''" "su_valid_name su ''Content-Length''" "su_valid_name su ''Date''"
proof -
  have "list_all token_byte ''Transfer-Encoding''" "list_all token_byte ''Content-Length''" "list_all token_byte ''Date''"
    by code_simp+
  then show "su_valid_name su ''Transfer-Encoding''" "su_valid_name su ''Content-Length''" "su_valid_name su ''Date''"
    using assms by (simp_all add: plain_surroundings_def)
qed

lemma chunked_framing_iff:
  "chunked_framing u vs = (vs \<noteq> [], vs \<noteq> [] \<and> \<not> list_ex (\<lambda>v. equal_fold u v ''chunked'') vs)"
  by (cases vs) auto

text \<open>
  The values a client reads under a name: the writer's own \<^verbatim>\<open>Connection\<close> and no other; no length
  beside a transfer coding; a length and a date of the writer's where the stub gives none and the
  status admits a body; \<open>chunked\<close> after codings that lack it; else the stub's values, their line
  breaks blanked and their ends trimmed, unless the name cannot be one.
\<close>

definition sent_values :: "surroundings \<Rightarrow> 't compiled_response \<Rightarrow> (string \<times> string) list \<Rightarrow> bytes \<Rightarrow> string \<Rightarrow> string list" where
  "sent_values su resp hs body k =
     (let given = map sanitize_header_value (field_values k hs);
          codings = field_values ''Transfer-Encoding'' hs
      in if k = ''Connection'' then [''close'']
         else if k = ''Content-Length'' \<and> codings \<noteq> [] then []
         else if k = ''Content-Length'' \<and> given = [] then (if bodyless (cr_status resp) then [] else [show_int (int (length body))])
         else if k = ''Date'' \<and> given = [] then [trim_blanks (su_date su)]
         else if k = ''Transfer-Encoding'' \<and> given \<noteq> [] \<and> \<not> bodyless (cr_status resp) \<and>
             \<not> list_ex (\<lambda>v. equal_fold (su_unicode su) v ''chunked'') codings then given @ [''chunked'']
         else if su_valid_name su k then given else [])"

lemma body_read_back:
  assumes "plain_surroundings su" and "\<not> bodyless (cr_status resp)" and "length body < 2 ^ 60"
    and "framing_ok su hs body"
  shows "read_body (su_unicode su) (read_back (written_fields su resp (response_header [] hs) body))
           (body_bytes su resp body (fst (framing (su_unicode su) hs))) = Some body"
proof (cases "field_values ''Transfer-Encoding'' hs = []")
  case True
  then have f: "framing (su_unicode su) hs = (False, False)" by (simp add: framing_def)
  have len: "trim_blanks (show_int (int (length body))) = show_int (int (length body))"
    using trim_blanks_bare(1) [of "show_nat (length body)"] show_nat_bare by (simp add: show_int_def)
  have num: "atoi (show_int (int (length body))) = Some (int (length body))"
    using atoi_digits [of "[]" "show_nat (length body)"] show_nat_digits [of "length body"] assms(3)
    by (simp add: show_int_def)
  obtain v where "field_values ''Content-Length'' (read_back (written_fields su resp (response_header [] hs) body)) = [v]"
    "atoi v = Some (int (length body))"
  proof (cases "field_values ''Content-Length'' hs")
    case Nil
    then have "\<not> declared (response_header [] hs) ''Content-Length''" by (simp add: declared_def response_header_values)
    with Nil have "field_values ''Content-Length'' (read_back (written_fields su resp (response_header [] hs) body)) =
        [show_int (int (length body))]"
      using True assms(2)
      by (simp add: read_back_def field_values_trim written_fields_def response_header_values own_canonical
          block_values [OF assms(1)] len)
    then show thesis using num that by blast
  next
    case (Cons v vs)
    then have v: "vs = []" "sanitize_header_value v = v" "atoi v = Some (int (length body))"
      using assms(4) True by (auto simp: framing_ok_def split: list.splits)
    have "declared (response_header [] hs) ''Content-Length''" using Cons by (simp add: declared_def response_header_values)
    moreover have "su_valid_name su ''Content-Length''" by (rule own_valid [OF assms(1)])
    moreover have "trim_blanks v = v" using trim_sanitized(2) [of v] v(2) by simp
    ultimately have "field_values ''Content-Length'' (read_back (written_fields su resp (response_header [] hs) body)) = [v]"
      using True Cons v
      by (simp add: read_back_def field_values_trim written_fields_def response_header_values own_canonical
          block_values [OF assms(1)])
    then show thesis using v(3) that by blast
  qed
  moreover have "\<forall>i. su_alive su i" using assms(1) by (simp add: plain_surroundings_def)
  ultimately show ?thesis
    using True by (simp add: read_body_def framing_codings [OF assms(1,2)] f body_bytes_plain)
next
  case False
  obtain ws where ws: "field_values ''Transfer-Encoding'' hs @ (if snd (framing (su_unicode su) hs) then [''chunked''] else []) =
      ws @ [''chunked'']"
    "list_all (\<lambda>w. CHR '','' \<notin> set w \<and> sanitize_header_value w = w \<and> \<not> equal_fold (su_unicode su) w ''chunked'') ws"
    "fst (framing (su_unicode su) hs)"
    using codings_framed [OF _ False, of "su_unicode su", folded framing_def] assms(4) False by (auto simp: framing_ok_def)
  let ?vs = "field_values ''Transfer-Encoding'' (read_back (written_fields su resp (response_header [] hs) body))"
  have c: "sanitize_header_value ''chunked'' = ''chunked''" by code_simp
  have "?vs = map sanitize_header_value
      (field_values ''Transfer-Encoding'' hs @ (if snd (framing (su_unicode su) hs) then [''chunked''] else []))"
    by (simp add: framing_codings [OF assms(1,2)] c)
  moreover have "map sanitize_header_value ws = ws" using ws(2) by (auto simp: list_all_iff intro: map_idI)
  ultimately have vs: "?vs = ws @ [''chunked'']" unfolding ws(1) using c by simp
  have s: "trim_blanks w = w" if "sanitize_header_value w = w" for w using trim_sanitized(2) [of w] that by simp
  have "map trim_blanks (concat (map (\<lambda>v. split v (CHR '','')) (ws @ [''chunked'']))) = ws @ [''chunked'']"
    using ws(2) s c by (induction ws) (auto simp: split_no_sep)
  moreover have "\<not> list_ex (\<lambda>w. equal_fold (su_unicode su) w ''chunked'') ws"
    using ws(2) by (auto simp: list_ex_iff list_all_iff)
  moreover have "\<forall>i. su_alive su i" using assms(1) by (simp add: plain_surroundings_def)
  ultimately show ?thesis
    using ws(3) by (simp add: read_body_def vs body_bytes_chunked Let_def is_ascii_def)
qed

lemma clamp_length: "length (clamp_to_declared_length h body) \<le> length body"
  by (auto simp: clamp_to_declared_length_def Let_def split: option.splits)

lemma raw_write_with_reason:
  assumes "plain_surroundings su"
  shows "\<exists>es. write_with_reason su meth resp (response_header [] hs) body slack = Some es \<and>
    raw_bytes es = write_lines (status_line resp # map show_field (written_fields su resp (response_header [] hs) body)) @
      (if bodyless (cr_status resp) \<or> meth = ''HEAD'' then []
       else body_bytes su resp body (fst (framing (su_unicode su) hs))) \<and> last es = Closed"
proof -
  obtain tcp where "su_hijack su = Hijacks tcp" using assms by (auto simp: plain_surroundings_def)
  moreover have te: "(case map_of (response_header [] hs) ''Transfer-Encoding'' of None \<Rightarrow> [] | Some vs \<Rightarrow> vs) =
      field_values ''Transfer-Encoding'' hs"
    by (auto simp: response_header_values)
  ultimately show ?thesis
    by (auto simp: write_with_reason_def header_lines_fields set_deadline_def framing_def body_bytes_def Let_def
        split: option.splits list.splits)
qed

lemma sent_field_values:
  assumes "plain_surroundings su"
  shows "field_values k (read_back (written_fields su resp (response_header [] hs) body)) = sent_values su resp hs body k"
proof -
  have te: "(case map_of (response_header [] hs) ''Transfer-Encoding'' of None \<Rightarrow> [] | Some vs \<Rightarrow> vs) =
      field_values ''Transfer-Encoding'' hs"
    by (auto simp: response_header_values)
  have t: "trim_blanks ''chunked'' = ''chunked''" "trim_blanks ''close'' = ''close''" by code_simp+
  have len: "trim_blanks (show_int (int (length body))) = show_int (int (length body))"
    using trim_blanks_bare(1) [of "show_nat (length body)"] show_nat_bare by (simp add: show_int_def)
  have d: "declared (response_header [] hs) n \<longleftrightarrow> field_values n hs \<noteq> []" if "n \<noteq> ''Content-Type''" for n
    using that by (simp add: declared_def response_header_values)
  note own = own_valid [OF assms]
  show ?thesis
    unfolding read_back_def field_values_trim written_fields_def te chunked_framing_iff sent_values_def Let_def
    using own by (auto simp: block_values [OF assms] comp_def t len d own_canonical)
qed

text \<open>
  C28. Round trip of the hand-written response: what a stub with a reason phrase of its own puts on
  the wire, an HTTP client reads back as the same status and phrase, as the body, cut to a smaller
  declared length, and under every header name exactly the values of \<open>sent_values\<close>: those of the
  stub in order, but for the four headers of the framing. So no value ends a line, adds a header or
  breaks the framing, chunked, dribbled or whole. Left out: phrases with a line break, statuses
  outside 0 to 999, bodies of 2^60 bytes, peers that go away, and for a status and a method
  that carry a body the declared framings \<open>framing_ok\<close> refuses.
\<close>

theorem reason_response_reads_back:
  assumes "plain_surroundings su" and "cr_has_status_message resp" and "one_line (cr_status_message resp)"
    and "0 \<le> cr_status resp" and "cr_status resp < 1000" and "length body < 2 ^ 60"
    and "sent = clamp_to_declared_length (response_header [] hs) body"
    and "meth \<noteq> ''HEAD'' \<Longrightarrow> \<not> bodyless (cr_status resp) \<Longrightarrow> framing_ok su hs sent"
  shows "\<exists>es fs. write_rendered su meth resp slack (response_header [] hs) body = (Some (cr_status resp), es) \<and>
    read_response (su_unicode su) meth (raw_bytes es) =
      Some (cr_status resp, cr_status_message resp, fs, if meth = ''HEAD'' \<or> bodyless (cr_status resp) then [] else sent) \<and>
    last es = Closed \<and> (\<forall>k. field_values k fs = sent_values su resp hs sent k)"
proof -
  let ?w = "written_fields su resp (response_header [] hs) sent"
  obtain es where es: "write_with_reason su meth resp (response_header [] hs) sent slack = Some es"
    "raw_bytes es = write_lines (status_line resp # map show_field ?w) @
      (if bodyless (cr_status resp) \<or> meth = ''HEAD'' then []
       else body_bytes su resp sent (fst (framing (su_unicode su) hs)))" "last es = Closed"
    using raw_write_with_reason [OF assms(1)] by blast
  have "write_rendered su meth resp slack (response_header [] hs) body = (Some (cr_status resp), es)"
    using assms(2) es(1) by (simp add: write_rendered_def Let_def assms(7))
  moreover have "\<forall>l\<in>set (status_line resp # map show_field ?w). one_line l \<and> l \<noteq> []"
    using written_names(2,3) [OF assms(1), of _ resp "response_header [] hs" sent] one_line_status [OF assms(3)]
    by (force simp: status_line_def)
  note lines = read_lines_write [OF this]
  have fields: "read_fields (map show_field ?w) = Some (read_back ?w)"
    unfolding read_back_def using written_names(1) [OF assms(1)] by (intro read_show_fields) blast
  have "length sent < 2 ^ 60" using assms(6) clamp_length [of "response_header [] hs" body] by (simp add: assms(7))
  from body_read_back [OF assms(1) _ this] have "read_response (su_unicode su) meth (raw_bytes es) =
      Some (cr_status resp, cr_status_message resp, read_back ?w,
      if meth = ''HEAD'' \<or> bodyless (cr_status resp) then [] else sent)"
    using assms(8) by (auto simp: es(2) read_response_def lines fields read_status [OF assms(4,5)])
  ultimately show ?thesis using es(3) sent_field_values [OF assms(1)] by blast
qed


section \<open>The ordinary path\<close>

fun body_sent :: "wire_event list \<Rightarrow> bytes" where
  "body_sent [] = []"
| "body_sent (e # es) = (case e of Piece b \<Rightarrow> b | _ \<Rightarrow> []) @ body_sent es"

fun heads :: "wire_event list \<Rightarrow> (int \<times> header) list" where
  "heads [] = []"
| "heads (e # es) = (case e of Head s h \<Rightarrow> [(s, h)] | _ \<Rightarrow> []) @ heads es"

fun waited :: "wire_event list \<Rightarrow> int" where
  "waited [] = 0"
| "waited (e # es) = (case e of Paused d \<Rightarrow> d | _ \<Rightarrow> 0) + waited es"

lemma observed_append [simp]:
  "body_sent (es @ fs) = body_sent es @ body_sent fs"
  "heads (es @ fs) = heads es @ heads fs"
  "waited (es @ fs) = waited es + waited fs"
  by (induction es) simp_all

lemma dribble_gap_observed [simp]:
  "body_sent (dribble_gap gap) = []" "heads (dribble_gap gap) = []" "waited (dribble_gap gap) = max 0 gap"
  by (simp_all add: dribble_gap_def)

lemma dribble_writes_observed:
  assumes "\<forall>i. su_alive su i"
  shows "body_sent (dribble_writes su gap first piece is) =
           (if is = [] then [] else body_sent first) @ concat (map piece is)"
    and "heads (dribble_writes su gap first piece is) = (if is = [] then [] else heads first)"
    and "waited (dribble_writes su gap first piece is) =
           (if is = [] then 0 else waited first) + int (length is) * max 0 gap"
  using assms by (induction su gap first piece "is" rule: dribble_writes.induct) (auto simp: algebra_simps)

definition dribble_wait :: "'t compiled_response \<Rightarrow> bytes \<Rightarrow> int" where
  "dribble_wait resp body =
     (case cr_dribble resp of
        None \<Rightarrow> 0
      | Some d \<Rightarrow> if body = [] then 0
                  else (let (chunks, width, gap) = dribble_plan d (length body) in int chunks * max 0 gap))"

lemma dribble_wait_bounds:
  assumes "cr_dribble resp = Some d" and "0 \<le> cd_total d" and "body \<noteq> []" and "1 \<le> cd_chunks d"
  shows "dribble_wait resp body \<le> cd_total d"
    and "cd_total d < dribble_wait resp body + min (int (length body)) (cd_chunks d)"
proof -
  obtain chunks width gap where p: "dribble_plan d (length body) = (chunks, width, gap)" by (metis prod_cases3)
  have c: "int chunks = min (int (length body)) (cd_chunks d)" "0 < chunks"
    using p assms(3,4) by (auto simp: dribble_plan_def Let_def min_def split: if_splits)
  have g: "gap = cd_total d div int chunks"
    using p c(2) assms(2) by (auto simp: dribble_plan_def Let_def go_div_def sgn_if split: if_splits)
  have w: "dribble_wait resp body = int chunks * (cd_total d div int chunks)"
    using assms p g by (simp add: dribble_wait_def pos_imp_zdiv_nonneg_iff c(2))
  show "dribble_wait resp body \<le> cd_total d" unfolding w using c(2)
    by (metis mult.commute of_nat_0_less_iff pos_mod_sign div_mult_mod_eq le_add_same_cancel1)
  have "cd_total d mod int chunks < int chunks" using c(2) by simp
  then show "cd_total d < dribble_wait resp body + min (int (length body)) (cd_chunks d)"
    unfolding w c(1) [symmetric] using mult_div_mod_eq [of "int chunks" "cd_total d"] by linarith
qed

lemma ordinary_rendered:
  assumes "\<forall>i. su_alive su i" and "cr_has_status_message resp \<longrightarrow> (\<forall>tcp. su_hijack su \<noteq> Hijacks tcp)"
    and "write_rendered su meth resp slack h body = (st, es)"
  shows "st = Some (cr_status resp)" and "body_sent es = clamp_to_declared_length h body"
    and "heads es = [(cr_status resp, h)]" and "waited es = dribble_wait resp (clamp_to_declared_length h body)"
proof -
  let ?b = "clamp_to_declared_length h body"
  have hij: "write_with_reason su meth resp h ?b slack = None" if "cr_has_status_message resp"
    using assms(2) that by (auto simp: write_with_reason_def split: hijack.splits)
  have "body_sent es = ?b \<and> heads es = [(cr_status resp, h)] \<and> waited es = dribble_wait resp ?b \<and> st = Some (cr_status resp)"
  proof (cases "cr_dribble resp = None \<or> ?b = []")
    case True
    then show ?thesis using assms(3) hij
      by (auto simp: write_rendered_def Let_def dribble_wait_def split: option.splits list.splits if_splits)
  next
    case False
    then obtain d c cs where d: "cr_dribble resp = Some d" "?b = c # cs" by (cases ?b) auto
    obtain chunks width gap where p: "dribble_plan d (length ?b) = (chunks, width, gap)" by (metis prod_cases3)
    have es: "es = dribble su resp d h ?b" "st = Some (cr_status resp)"
      using assms(3) hij d by (auto simp: write_rendered_def Let_def split: if_splits)
    then show ?thesis
      using dribble_writes_observed [OF assms(1)] dribble_pieces(1) [OF p] dribble_plan_bounds(1) [OF p] p d
      by (auto simp: dribble_def dribble_wait_def)
  qed
  then show "st = Some (cr_status resp)" "body_sent es = ?b" "heads es = [(cr_status resp, h)]"
    "waited es = dribble_wait resp ?b" by blast+
qed

text \<open>What is to be sent: the declared parts, or the rendered ones.\<close>

definition response_parts ::
    "('t \<Rightarrow> string + string) option \<Rightarrow> 't compiled_response \<Rightarrow> string + bytes \<times> (string \<times> string) list" where
  "response_parts renderer resp =
     (case (if cr_templated resp then renderer else None) of
        None \<Rightarrow> Inr (cr_body resp, cr_headers resp) | Some rn \<Rightarrow> render rn resp)"

lemma write_response_parts:
  assumes "cr_fault resp = []" and "\<not> cr_body_file_missing resp"
    and "write_response su meth resp slack global renderer h0 = (st, es)"
  shows "(case response_parts renderer resp of
      Inl err \<Rightarrow> st = Some 500 \<and> es = await_delay (compose_delay su resp global) @ set_deadline resp slack @
        [Head 500 (set_header ''Content-Type'' [''text/plain''] h0), Piece (''Template render error: '' @ err)]
    | Inr (body, hs) \<Rightarrow> \<exists>es'. es = await_delay (compose_delay su resp global) @ set_deadline resp slack @ es' \<and>
        write_rendered su meth resp slack (response_header h0 hs) body = (st, es'))"
  using assms by (auto simp: write_response_def response_parts_def Let_def split: option.splits sum.splits prod.splits if_splits)


lemma malformed_unread:
  "read_lines (''HTTP/1.1 200 OK'' @ crlf @ ''Transfer-Encoding: chunked'' @ crlf @ crlf @ r) =
     Some ([''HTTP/1.1 200 OK'', ''Transfer-Encoding: chunked''], r)"
  using read_lines_write [of "[''HTTP/1.1 200 OK'', ''Transfer-Encoding: chunked'']" r]
  by (simp add: write_lines_def crlf_def)

definition garbage :: bytes where
  "garbage = ''lskdu018973t09sylgasjkfg1][]'' @ [CHR 0x27] @ ''./.sdlv''"

lemma garbage_unread:
  "read_response u ''GET'' (''HTTP/1.1 200 OK'' @ crlf @ ''Transfer-Encoding: chunked'' @ crlf @ crlf @ garbage) = None"
proof -
  have 1: "read_status_line ''HTTP/1.1 200 OK'' = Some (200, ''OK'')"
    "read_fields [''Transfer-Encoding: chunked''] = Some [(''Transfer-Encoding'', ''chunked'')]"
    "map trim_blanks (concat (map (\<lambda>v. split v (CHR '','')) (field_values ''Transfer-Encoding'' [(''Transfer-Encoding'', ''chunked'')]))) = [''chunked'']"
    "\<not> bodyless 200" "take_line garbage = None"
    by code_simp+
  have "read_chunks garbage = None" by (subst read_chunks.simps) (simp add: 1(5))
  then have "read_body u [(''Transfer-Encoding'', ''chunked'')] garbage = None"
    unfolding read_body_def Let_def 1(3) by simp
  then show ?thesis unfolding read_response_def malformed_unread by (simp add: 1)
qed

lemma fault_names:
  "fault_connection_reset \<noteq> fault_empty_response" "fault_connection_reset \<noteq> fault_malformed_chunk"
  "fault_connection_reset \<noteq> fault_random_then_close" "fault_empty_response \<noteq> fault_malformed_chunk"
  "fault_empty_response \<noteq> fault_random_then_close" "fault_malformed_chunk \<noteq> fault_random_then_close"
  unfolding fault_connection_reset_def fault_empty_response_def fault_malformed_chunk_def fault_random_then_close_def
  by simp_all

text \<open>The faults one by one.\<close>

lemma fault_cases:
  assumes "su_hijack su = Hijacks tcp"
  obtains "f = fault_connection_reset" and "inject_fault su f = (if tcp then [Linger0] else []) @ [Closed]"
  | "f = fault_empty_response" and "inject_fault su f = [Closed]"
  | "f = fault_malformed_chunk" and "inject_fault su f = [Raw (''HTTP/1.1 200 OK'' @ crlf @ ''Transfer-Encoding: chunked'' @ crlf @ crlf),
      Raw garbage, Flushed, Closed]"
  | "f = fault_random_then_close" and "inject_fault su f = (case su_junk su of None \<Rightarrow> [] | Some junk \<Rightarrow> [Raw junk, Flushed]) @ [Closed]"
  | "f \<notin> {fault_connection_reset, fault_empty_response, fault_malformed_chunk, fault_random_then_close}"
      and "inject_fault su f = [Closed]"
proof -
  have "inject_fault su f =
      (if f = fault_connection_reset then (if tcp then [Linger0] else [])
       else if f = fault_empty_response then []
       else if f = fault_malformed_chunk
         then [Raw (''HTTP/1.1 200 OK'' @ crlf @ ''Transfer-Encoding: chunked'' @ crlf @ crlf), Raw garbage, Flushed]
       else if f = fault_random_then_close
         then (case su_junk su of None \<Rightarrow> [] | Some junk \<Rightarrow> [Raw junk, Flushed]) else []) @ [Closed]"
    unfolding inject_fault_def assms hijack.case garbage_def ..
  then show thesis using that fault_names by (simp split: if_splits)
qed

lemma fault_observed:
  "heads (inject_fault su f) = []" "body_sent (inject_fault su f) = []" "waited (inject_fault su f) = 0"
  by (auto simp: inject_fault_def split: hijack.splits option.splits)

lemma fault_events:
  assumes "su_hijack su = Hijacks tcp"
  shows "last (inject_fault su f) = Closed \<and> inject_fault su f \<noteq> [] \<and> Aborted \<notin> set (inject_fault su f)"
    and "Linger0 \<in> set (inject_fault su f) \<longleftrightarrow> tcp \<and> f = fault_connection_reset"
    and "f = fault_connection_reset \<or> f = fault_empty_response \<Longrightarrow> raw_bytes (inject_fault su f) = []"
    and "f = fault_malformed_chunk \<Longrightarrow> raw_bytes (inject_fault su f) =
           ''HTTP/1.1 200 OK'' @ crlf @ ''Transfer-Encoding: chunked'' @ crlf @ crlf @ garbage"
    and "f = fault_random_then_close \<Longrightarrow> raw_bytes (inject_fault su f) = (case su_junk su of None \<Rightarrow> [] | Some junk \<Rightarrow> junk)"
  using fault_names by (cases f rule: fault_cases [OF assms]; cases "su_junk su"; cases tcp; simp)+

text \<open>
  C29. Whatever \<^verbatim>\<open>net/http\<close> is handed for a response that is neither faulty nor broken: one
  status line with the stub's status and headers, the whole body, cut to a smaller declared
  length, and pauses of the composed delay plus the dribble, which falls short of the configured
  duration by less than one nanosecond per chunk and never exceeds it.
\<close>

theorem ordinary_response_complete:
  assumes "\<forall>i. su_alive su i" and "cr_has_status_message resp \<longrightarrow> (\<forall>tcp. su_hijack su \<noteq> Hijacks tcp)"
    and "cr_fault resp = []" and "\<not> cr_body_file_missing resp"
    and "response_parts renderer resp = Inr (body, hs)"
    and "write_response su meth resp slack global renderer h0 = (st, es)"
  shows "st = Some (cr_status resp) \<and> heads es = [(cr_status resp, response_header h0 hs)] \<and>
    body_sent es = clamp_to_declared_length (response_header h0 hs) body \<and>
    (\<exists>w. waited es = max 0 (compose_delay su resp global) + w \<and>
       (case cr_dribble resp of
          None \<Rightarrow> w = 0
        | Some d \<Rightarrow> 0 \<le> cd_total d \<and> 1 \<le> cd_chunks d \<and> body_sent es \<noteq> [] \<longrightarrow>
            w \<le> cd_total d \<and> cd_total d < w + min (int (length (body_sent es))) (cd_chunks d)))"
proof -
  obtain es' where es: "es = await_delay (compose_delay su resp global) @ set_deadline resp slack @ es'"
    "write_rendered su meth resp slack (response_header h0 hs) body = (st, es')"
    using write_response_parts [OF assms(3,4,6)] assms(5) by auto
  have quiet: "heads (await_delay d) = []" "body_sent (await_delay d) = []" "waited (await_delay d) = max 0 d"
    "heads (set_deadline resp slack) = []" "body_sent (set_deadline resp slack) = []" "waited (set_deadline resp slack) = 0"
    for d by (simp_all add: await_delay_def set_deadline_def)
  note r = ordinary_rendered [OF assms(1,2) es(2)]
  have "waited es = max 0 (compose_delay su resp global) + dribble_wait resp (body_sent es)"
    by (simp add: es(1) quiet r)
  moreover have "case cr_dribble resp of None \<Rightarrow> dribble_wait resp (body_sent es) = 0
        | Some d \<Rightarrow> 0 \<le> cd_total d \<and> 1 \<le> cd_chunks d \<and> body_sent es \<noteq> [] \<longrightarrow>
            dribble_wait resp (body_sent es) \<le> cd_total d \<and>
            cd_total d < dribble_wait resp (body_sent es) + min (int (length (body_sent es))) (cd_chunks d)"
  proof (cases "cr_dribble resp")
    case None
    then show ?thesis by (simp add: dribble_wait_def)
  next
    case (Some d)
    then show ?thesis using dribble_wait_bounds [OF Some] by simp
  qed
  moreover have "st = Some (cr_status resp)" "heads es = [(cr_status resp, response_header h0 hs)]"
    "body_sent es = clamp_to_declared_length (response_header h0 hs) body"
    by (simp_all add: es(1) quiet r)
  ultimately show ?thesis by blast
qed

text \<open>
  C30. The ways a response fails, each after the composed delay. A fault hands \<^verbatim>\<open>net/http\<close> nothing.
  Where the connection cannot be taken it aborts the stream and reports no status; else it reports
  0 and closes the connection, after: a reset, nothing written and the linger of a TCP connection
  set to zero; an empty response, nothing at all; a malformed chunk, a status line 200 that declares
  chunks and bytes that are none; random data, those bytes. A missing body file answers error 1022
  under status 500 naming the file; a template that does not render answers 500 with the reason.
\<close>

theorem response_failures:
  assumes "write_response su meth resp slack global renderer h0 = (st, es)"
  shows "(cr_fault resp \<noteq> [] \<longrightarrow>
      heads es = [] \<and> body_sent es = [] \<and> waited es = max 0 (compose_delay su resp global) \<and>
      (case su_hijack su of
         Hijacks tcp \<Rightarrow> st = Some 0 \<and> last es = Closed \<and> Aborted \<notin> set es \<and>
           (Linger0 \<in> set es \<longleftrightarrow> tcp \<and> cr_fault resp = ''CONNECTION_RESET_BY_PEER'') \<and>
           (cr_fault resp = ''CONNECTION_RESET_BY_PEER'' \<or> cr_fault resp = ''EMPTY_RESPONSE'' \<longrightarrow> raw_bytes es = []) \<and>
           (cr_fault resp = ''MALFORMED_RESPONSE_CHUNK'' \<longrightarrow>
              (\<exists>rest. read_lines (raw_bytes es) = Some ([''HTTP/1.1 200 OK'', ''Transfer-Encoding: chunked''], rest)) \<and>
              read_response (su_unicode su) ''GET'' (raw_bytes es) = None) \<and>
           (cr_fault resp = ''RANDOM_DATA_THEN_CLOSE'' \<longrightarrow> raw_bytes es = (case su_junk su of None \<Rightarrow> [] | Some junk \<Rightarrow> junk))
       | _ \<Rightarrow> st = None \<and> last es = Aborted \<and> raw_bytes es = [])) \<and>
    (cr_fault resp = [] \<and> cr_body_file_missing resp \<longrightarrow> st = Some 500 \<and>
       es = await_delay (compose_delay su resp global) @
         [Head 500 (set_header ''Content-Type'' [''application/json''] h0),
          Piece (error_body (su_quote su) [\<lparr>we_code = 1022, we_source = None, we_title = ''Body file not found'',
            we_detail = ''the stub'' @ [CHR 0x27] @ ''s bodyFileName '' @ cr_body_file_name resp @ '' has no corresponding file''\<rparr>])]) \<and>
    (cr_fault resp = [] \<and> \<not> cr_body_file_missing resp \<longrightarrow>
       (\<forall>err. response_parts renderer resp = Inl err \<longrightarrow> st = Some 500 \<and>
          es = await_delay (compose_delay su resp global) @ set_deadline resp slack @
            [Head 500 (set_header ''Content-Type'' [''text/plain''] h0), Piece (''Template render error: '' @ err)]))"
proof (intro conjI impI allI)
  have quiet: "heads (await_delay d) = []" "body_sent (await_delay d) = []" "waited (await_delay d) = max 0 d"
    "raw_bytes (await_delay d) = []" "Linger0 \<notin> set (await_delay d)" "Aborted \<notin> set (await_delay d)"
    for d by (simp_all add: await_delay_def)
  { assume "cr_fault resp \<noteq> []"
    then have w: "es = await_delay (compose_delay su resp global) @ inject_fault su (cr_fault resp)"
      "st = (if Aborted \<in> set (inject_fault su (cr_fault resp)) then None else Some 0)"
      using assms by (auto simp: write_response_def Let_def)
    show "heads es = []" "body_sent es = []" "waited es = max 0 (compose_delay su resp global)"
      by (simp_all add: w(1) quiet fault_observed)
    show "case su_hijack su of
         Hijacks tcp \<Rightarrow> st = Some 0 \<and> last es = Closed \<and> Aborted \<notin> set es \<and>
           (Linger0 \<in> set es \<longleftrightarrow> tcp \<and> cr_fault resp = ''CONNECTION_RESET_BY_PEER'') \<and>
           (cr_fault resp = ''CONNECTION_RESET_BY_PEER'' \<or> cr_fault resp = ''EMPTY_RESPONSE'' \<longrightarrow> raw_bytes es = []) \<and>
           (cr_fault resp = ''MALFORMED_RESPONSE_CHUNK'' \<longrightarrow>
              (\<exists>rest. read_lines (raw_bytes es) = Some ([''HTTP/1.1 200 OK'', ''Transfer-Encoding: chunked''], rest)) \<and>
              read_response (su_unicode su) ''GET'' (raw_bytes es) = None) \<and>
           (cr_fault resp = ''RANDOM_DATA_THEN_CLOSE'' \<longrightarrow> raw_bytes es = (case su_junk su of None \<Rightarrow> [] | Some junk \<Rightarrow> junk))
       | _ \<Rightarrow> st = None \<and> last es = Aborted \<and> raw_bytes es = []"
    proof (cases "su_hijack su")
      case (Hijacks tcp)
      show ?thesis
        using fault_events [OF Hijacks, of "cr_fault resp"] malformed_unread [of garbage] garbage_unread [of "su_unicode su"]
        unfolding fault_connection_reset_def [symmetric] fault_empty_response_def [symmetric]
          fault_malformed_chunk_def [symmetric] fault_random_then_close_def [symmetric]
        by (simp add: Hijacks w quiet)
    qed (simp_all add: w quiet inject_fault_def) }
  { assume "cr_fault resp = [] \<and> cr_body_file_missing resp"
    moreover have "status_for 1022 = 500" "title_for 1022 = ''Body file not found''" by code_simp+
    ultimately show "st = Some 500" "es = await_delay (compose_delay su resp global) @
         [Head 500 (set_header ''Content-Type'' [''application/json''] h0),
          Piece (error_body (su_quote su) [\<lparr>we_code = 1022, we_source = None, we_title = ''Body file not found'',
            we_detail = ''the stub'' @ [CHR 0x27] @ ''s bodyFileName '' @ cr_body_file_name resp @ '' has no corresponding file''\<rparr>])]"
      using assms by (auto simp: write_response_def Let_def write_error_def new_error_def code_body_file_missing_def) }
  fix err assume "cr_fault resp = [] \<and> \<not> cr_body_file_missing resp" and "response_parts renderer resp = Inl err"
  then show "st = Some 500" "es = await_delay (compose_delay su resp global) @ set_deadline resp slack @
      [Head 500 (set_header ''Content-Type'' [''text/plain''] h0), Piece (''Template render error: '' @ err)]"
    using write_response_parts [OF _ _ assms] by auto
qed

text \<open>
  Two headers the hand-written path does not treat as the ordinary one does. A transfer coding
  list that ends in \<open>chunked\<close> is not recognised, so the writer declares the coding once more. A
  \<^verbatim>\<open>Content-Length\<close> that is no number, which \<^verbatim>\<open>net/http\<close> drops, is sent as it is.
\<close>

lemma chunked_declared_twice: "chunked_framing u [''gzip, chunked''] = (True, True)"
  by (simp add: is_ascii_def ascii_lower_def is_upper_def)

lemma no_length_sent:
  assumes "plain_surroundings su"
  shows "''Content-Length: abc'' \<in> set (header_lines su resp (response_header [] [(''Content-Length'', ''abc'')]) body)"
    and "clamp_to_declared_length (response_header [] [(''Content-Length'', ''abc'')]) body = body"
proof -
  let ?hs = "[(''Content-Length'', ''abc'')]"
  have v: "su_valid_name su ''Content-Length''"
  proof -
    have "list_all token_byte ''Content-Length''" by code_simp
    then show ?thesis using assms by (simp add: plain_surroundings_def)
  qed
  have "canonical_header_key ''Content-Length'' = ''Content-Length''" by code_simp
  then have h: "map_of (response_header [] ?hs) ''Content-Length'' = Some [''abc'']"
    by (simp add: response_header_values)
  have "(''Content-Length'', [''abc'']) \<in> set (response_header [] ?hs)" using h by (rule map_of_SomeD)
  then have "(''Content-Length'', [''abc'']) \<in> set (su_order su (response_header [] ?hs))"
    using order_facts(3) [OF assms response_header_distinct] by simp
  moreover have "''Content-Length: abc'' \<in> set (field_lines su False (''Content-Length'', [''abc'']))"
    using v by (simp add: field_lines_def) code_simp
  ultimately have "''Content-Length: abc'' \<in> set (concat (map (field_lines su False) (su_order su (response_header [] ?hs))))"
    unfolding set_concat set_map by blast
  moreover have "map_of (response_header [] ?hs) ''Transfer-Encoding'' = None"
  proof -
    have "field_values ''Transfer-Encoding'' ?hs = []" by code_simp
    then show ?thesis by (simp only: response_header_values) simp
  qed
  ultimately show "''Content-Length: abc'' \<in> set (header_lines su resp (response_header [] ?hs) body)"
    by (auto simp: header_lines_def)
  have "atoi ''abc'' = None" by code_simp
  then show "clamp_to_declared_length (response_header [] ?hs) body = body"
    by (simp add: clamp_to_declared_length_def h)
qed


section \<open>Witnesses\<close>

definition sample_unicode :: unicode where
  "sample_unicode = \<lparr>uc_fold_tail = (\<lambda>s t. s = t), uc_lower = (\<lambda>s. s)\<rparr>"

definition sample_surroundings :: surroundings where
  "sample_surroundings =
     \<lparr>su_hijack = Hijacks True, su_date = ''Thu, 01 Jan 1970 00:00:00 GMT'', su_int64n = (\<lambda>_. 0),
      su_sample = (\<lambda>_ _. None), su_order = rev, su_alive = (\<lambda>_. True), su_junk = None,
      su_valid_name = (\<lambda>n. n \<noteq> [] \<and> list_all token_byte n), su_unicode = sample_unicode, su_quote = (\<lambda>s. s)\<rparr>"

definition sample_response :: "nat compiled_response" where
  "sample_response =
     \<lparr>cr_status = 418, cr_status_message = ''Short and stout'', cr_has_status_message = True,
      cr_headers = [(''x-tea'', ''black''), (''X-Tea'', ''green'')], cr_body = ''leaves'',
      cr_body_file_name = [], cr_body_file_missing = False, cr_fixed_delay = 5, cr_fixed_delay_set = True,
      cr_delay = \<lparr>dd_kind = DelayNone, dd_lower = 0, dd_upper = 0, dd_median = 0, dd_sigma = 0\<rparr>,
      cr_dribble = Some \<lparr>cd_chunks = 4, cd_total = 10\<rparr>, cr_fault = [], cr_templated = False,
      cr_body_template = None, cr_header_templates = [], cr_transformer_parameters = []\<rparr>"

lemma sample_plain: "plain_surroundings sample_surroundings"
  by (auto simp: plain_surroundings_def sample_surroundings_def)

text \<open>
  A client reads the values of the stub under one name in two spellings, and a \<^verbatim>\<open>Connection\<close> and a
  \<^verbatim>\<open>Content-Length\<close> of the stub's do not reach it beside the chunks.
\<close>

theorem reason_response_reads_back_witness:
  "let hs = cr_headers sample_response @ [(''Connection'', ''keep-alive''), (''content-length'', ''4''), (''Transfer-Encoding'', ''gzip'')]
   in \<exists>es fs. write_rendered sample_surroundings ''GET'' sample_response 0 (response_header [] hs) ''leaves'' = (Some 418, es) \<and>
    read_response sample_unicode ''GET'' (raw_bytes es) = Some (418, ''Short and stout'', fs, ''leav'') \<and>
    field_values ''X-Tea'' fs = [''black'', ''green''] \<and> field_values ''Connection'' fs = [''close''] \<and>
    field_values ''Content-Length'' fs = [] \<and> field_values ''Transfer-Encoding'' fs = [''gzip'', ''chunked'']"
proof -
  let ?hs = "cr_headers sample_response @ [(''Connection'', ''keep-alive''), (''content-length'', ''4''), (''Transfer-Encoding'', ''gzip'')]"
  have sent: "''leav'' = clamp_to_declared_length (response_header [] ?hs) ''leaves''" by code_simp
  have "\<exists>es fs. write_rendered sample_surroundings ''GET'' sample_response 0 (response_header [] ?hs) ''leaves'' =
      (Some (cr_status sample_response), es) \<and>
    read_response (su_unicode sample_surroundings) ''GET'' (raw_bytes es) =
      Some (cr_status sample_response, cr_status_message sample_response, fs,
        if ''GET'' = ''HEAD'' \<or> bodyless (cr_status sample_response) then [] else ''leav'') \<and>
    last es = Closed \<and> (\<forall>k. field_values k fs = sent_values sample_surroundings sample_response ?hs ''leav'' k)"
  proof (rule reason_response_reads_back [OF sample_plain _ _ _ _ _ sent])
    show "framing_ok sample_surroundings ?hs ''leav''" by code_simp
  qed (simp_all add: sample_response_def)
  then obtain es fs where e:
    "write_rendered sample_surroundings ''GET'' sample_response 0 (response_header [] ?hs) ''leaves'' =
      (Some (cr_status sample_response), es)"
    "read_response (su_unicode sample_surroundings) ''GET'' (raw_bytes es) =
      Some (cr_status sample_response, cr_status_message sample_response, fs,
        if ''GET'' = ''HEAD'' \<or> bodyless (cr_status sample_response) then [] else ''leav'')"
    "\<And>k. field_values k fs = sent_values sample_surroundings sample_response ?hs ''leav'' k"
    by blast
  have v: "sent_values sample_surroundings sample_response ?hs ''leav'' ''X-Tea'' = [''black'', ''green'']"
    "sent_values sample_surroundings sample_response ?hs ''leav'' ''Connection'' = [''close'']"
    "sent_values sample_surroundings sample_response ?hs ''leav'' ''Content-Length'' = []"
    "sent_values sample_surroundings sample_response ?hs ''leav'' ''Transfer-Encoding'' = [''gzip'', ''chunked'']"
    "\<not> bodyless (cr_status sample_response)" "cr_status sample_response = 418"
    "cr_status_message sample_response = ''Short and stout''"
    by code_simp+
  have u: "su_unicode sample_surroundings = sample_unicode" by (simp add: sample_surroundings_def)
  have "write_rendered sample_surroundings ''GET'' sample_response 0 (response_header [] ?hs) ''leaves'' = (Some 418, es)"
    using e(1) unfolding v(6) .
  moreover have "read_response sample_unicode ''GET'' (raw_bytes es) = Some (418, ''Short and stout'', fs, ''leav'')"
    using e(2) v(5) unfolding v(6,7) u by simp
  ultimately show ?thesis unfolding Let_def using e(3) v(1-4) by metis
qed

theorem ordinary_response_complete_witness:
  "body_sent (snd (write_response (sample_surroundings\<lparr>su_hijack := NoHijacker\<rparr>) ''GET'' sample_response 0 None None [])) = ''leaves''"
proof -
  let ?su = "sample_surroundings\<lparr>su_hijack := NoHijacker\<rparr>"
  obtain st es where w: "write_response ?su ''GET'' sample_response 0 None None [] = (st, es)" by fastforce
  have "response_parts (None :: (nat \<Rightarrow> string + string) option) sample_response = Inr (''leaves'', cr_headers sample_response)" by code_simp
  then have "body_sent es = clamp_to_declared_length (response_header [] (cr_headers sample_response)) ''leaves''"
    using ordinary_response_complete [OF _ _ _ _ _ w] by (simp add: sample_surroundings_def sample_response_def)
  moreover have "clamp_to_declared_length (response_header [] (cr_headers sample_response)) ''leaves'' = ''leaves''" by code_simp
  ultimately show ?thesis by (simp add: w)
qed

theorem response_failures_witness:
  "Linger0 \<in> set (snd (write_response sample_surroundings ''GET'' (sample_response\<lparr>cr_fault := fault_connection_reset\<rparr>) 0 None None [])) \<and>
   raw_bytes (snd (write_response sample_surroundings ''GET'' (sample_response\<lparr>cr_fault := fault_connection_reset\<rparr>) 0 None None [])) = []"
proof -
  let ?r = "sample_response\<lparr>cr_fault := fault_connection_reset\<rparr>"
  obtain st es where w: "write_response sample_surroundings ''GET'' ?r 0 None (None :: (nat \<Rightarrow> string + string) option) [] = (st, es)"
    by fastforce
  have "su_hijack sample_surroundings = Hijacks True" by (simp add: sample_surroundings_def)
  moreover have "cr_fault ?r = ''CONNECTION_RESET_BY_PEER''" "cr_fault ?r \<noteq> []" by (simp_all add: fault_connection_reset_def)
  ultimately show ?thesis using response_failures [OF w, THEN conjunct1] unfolding w by simp
qed

end
