(* ===== verification/Utf8.thy ===== *)
theory Utf8
  imports Mock_Prelude
begin

text \<open>
  Go strings are bytes; \<^verbatim>\<open>for _, r := range s\<close> reads them as UTF-8. This theory has the decoder and
  the encoder of \<^verbatim>\<open>unicode/utf8\<close> as the code uses them: an ill-formed byte decodes to U+FFFD and
  is one byte wide.
\<close>

section \<open>Decoding and encoding\<close>

definition byte_of :: "char \<Rightarrow> nat" where
  "byte_of c = of_char c"

lemma byte_of_char_of [simp]: "n < 256 \<Longrightarrow> byte_of (char_of n) = n"
  by (simp add: byte_of_def)

lemma char_of_byte_of [simp]: "char_of (byte_of c) = c"
  by (simp add: byte_of_def)

lemma byte_of_less: "byte_of c < 256"
  using of_char_mod_256 [of c, where 'a = nat] by (metis byte_of_def mod_less_divisor zero_less_numeral)

definition is_continuation :: "char \<Rightarrow> bool" where
  "is_continuation c \<longleftrightarrow> 128 \<le> byte_of c \<and> byte_of c < 192"

definition rune_error :: nat where "rune_error = 65533"

fun decode_rune :: "string \<Rightarrow> nat \<times> nat" where
  "decode_rune [] = (rune_error, 0)"
| "decode_rune (a # s) =
     (let x = byte_of a in
      if x < 128 then (x, 1)
      else if x < 194 \<or> 244 < x then (rune_error, 1)
      else if x < 224 then
        (case s of
           b # _ \<Rightarrow> if is_continuation b then ((x - 192) * 64 + (byte_of b - 128), 2) else (rune_error, 1)
         | _ \<Rightarrow> (rune_error, 1))
      else if x < 240 then
        (case s of
           b # c # _ \<Rightarrow>
             if is_continuation b \<and> is_continuation c \<and> (x = 224 \<longrightarrow> 160 \<le> byte_of b) \<and> (x = 237 \<longrightarrow> byte_of b < 160)
             then ((x - 224) * 4096 + (byte_of b - 128) * 64 + (byte_of c - 128), 3) else (rune_error, 1)
         | _ \<Rightarrow> (rune_error, 1))
      else
        (case s of
           b # c # d # _ \<Rightarrow>
             if is_continuation b \<and> is_continuation c \<and> is_continuation d \<and> (x = 240 \<longrightarrow> 144 \<le> byte_of b) \<and>
                (x = 244 \<longrightarrow> byte_of b < 144)
             then ((x - 240) * 262144 + (byte_of b - 128) * 4096 + (byte_of c - 128) * 64 + (byte_of d - 128), 4)
             else (rune_error, 1)
         | _ \<Rightarrow> (rune_error, 1)))"

definition valid_rune :: "nat \<Rightarrow> bool" where
  "valid_rune r \<longleftrightarrow> r < 55296 \<or> (57344 \<le> r \<and> r < 1114112)"

definition encode_rune :: "nat \<Rightarrow> string" where
  "encode_rune r =
     (if r < 128 then [char_of r]
      else if r < 2048 then [char_of (192 + r div 64), char_of (128 + r mod 64)]
      else if \<not> valid_rune r then [CHR 0xEF, CHR 0xBF, CHR 0xBD]
      else if r < 65536 then
        [char_of (224 + r div 4096), char_of (128 + r div 64 mod 64), char_of (128 + r mod 64)]
      else
        [char_of (240 + r div 262144), char_of (128 + r div 4096 mod 64), char_of (128 + r div 64 mod 64),
         char_of (128 + r mod 64)])"

lemma decode_rune_width: "0 < snd (decode_rune (a # s))"
  by (auto simp: Let_def split: list.splits)

lemma decode_rune_shorter: "s \<noteq> [] \<Longrightarrow> (r, w) = decode_rune s \<Longrightarrow> length (drop w s) < length s"
  using decode_rune_width by (cases s) (metis diff_less length_drop length_greater_0_conv list.discI snd_conv)+

function runes :: "string \<Rightarrow> nat list" where
  "runes s = (if s = [] then [] else let (r, w) = decode_rune s in r # runes (drop w s))"
  by pat_completeness auto

termination by (relation "measure length") (simp, use decode_rune_shorter in auto)

declare runes.simps [simp del]

lemma runes_Nil [simp]: "runes [] = []"
  by (simp add: runes.simps)

text \<open>ASCII text is read byte by byte.\<close>

lemma runes_ascii: "list_all is_ascii s \<Longrightarrow> runes s = map of_char s"
proof (induction s)
  case (Cons c s)
  then have "byte_of c < 128" by (simp add: is_ascii_def byte_of_def)
  then show ?case using Cons by (simp add: runes.simps [of "c # s"] Let_def) (simp add: byte_of_def)
qed simp

text \<open>\<^verbatim>\<open>utf8.ValidString\<close>: no byte decodes to an error of width one.\<close>

function valid_utf8 :: "string \<Rightarrow> bool" where
  "valid_utf8 s =
     (if s = [] then True
      else let (r, w) = decode_rune s in if r = rune_error \<and> w = 1 then False else valid_utf8 (drop w s))"
  by pat_completeness auto

termination by (relation "measure length") (simp, use decode_rune_shorter in auto)

declare valid_utf8.simps [simp del]

lemma valid_utf8_ascii: "list_all is_ascii s \<Longrightarrow> valid_utf8 s"
proof (induction s)
  case (Cons c s)
  then have "byte_of c < 128" by (simp add: is_ascii_def byte_of_def)
  then show ?case using Cons by (simp add: valid_utf8.simps [of "c # s"] Let_def rune_error_def)
qed (simp add: valid_utf8.simps)

end
