(* ===== verification/File_Name.thy ===== *)
theory File_Name
  imports Utf8
begin

text \<open>
  \<^verbatim>\<open>internal/stub/filename.go\<close>: which names the files store takes, over a model of \<^verbatim>\<open>path.Clean\<close>.
\<close>

section \<open>Paths\<close>

definition slash :: char where "slash = CHR ''/''"
definition dot :: string where "dot = ''.''"
definition dot_dot :: string where "dot_dot = ''..''"

text \<open>\<^verbatim>\<open>path.Clean\<close>: empty and dot segments go, a double dot takes the segment before it.\<close>

definition clean_step :: "bool \<Rightarrow> string list \<Rightarrow> string \<Rightarrow> string list" where
  "clean_step rooted acc seg =
     (if seg = [] \<or> seg = dot then acc
      else if seg = dot_dot then
        (case acc of
           [] \<Rightarrow> if rooted then [] else [dot_dot]
         | x # xs \<Rightarrow> if x = dot_dot then dot_dot # acc else xs)
      else seg # acc)"

definition path_clean :: "string \<Rightarrow> string" where
  "path_clean s =
     (let rooted = has_prefix s [slash];
          segs = rev (foldl (clean_step rooted) [] (split s slash))
      in if rooted then slash # join_str [slash] segs
         else if segs = [] then dot else join_str [slash] segs)"

section \<open>The rule\<close>

definition max_file_name_bytes :: nat where "max_file_name_bytes = 240"

definition is_control :: "nat \<Rightarrow> bool" where
  "is_control r \<longleftrightarrow> r < 32 \<or> r = 127"

definition reject_file_name :: "string \<Rightarrow> string" where
  "reject_file_name name =
     (if has_prefix name [slash] then ''a name is relative to the files store, so it cannot begin with /''
      else if name = dot_dot \<or> has_prefix name ''../''
        then ''a name cannot climb out of the files store with .. segments''
      else if path_clean name \<noteq> name
        then ''a name must already be in cleaned form: no . or .. segments, no empty ones, no trailing /''
      else if max_file_name_bytes < length name
        then ''a name is limited to '' @ show_nat max_file_name_bytes @ '' bytes''
      else if \<not> valid_utf8 name then ''a name must be valid UTF-8''
      else if list_ex is_control (runes name) then ''a name cannot contain control characters''
      else [])"

section \<open>What is accepted\<close>

definition proper_segment :: "string \<Rightarrow> bool" where
  "proper_segment p \<longleftrightarrow> p \<noteq> [] \<and> p \<noteq> dot \<and> p \<noteq> dot_dot"

lemma clean_proper: "list_all proper_segment ps \<Longrightarrow> foldl (clean_step r) acc ps = rev ps @ acc"
  by (induction ps arbitrary: acc) (simp_all add: clean_step_def proper_segment_def)

lemma dots_facts [simp]: "dot_dot \<noteq> []" "dot_dot \<noteq> dot" "dot \<noteq> dot_dot" "dot \<noteq> []" "slash \<notin> set dot_dot"
  by (simp_all add: dot_dot_def dot_def slash_def)

definition kept_segment :: "string \<Rightarrow> bool" where
  "kept_segment p \<longleftrightarrow> p \<noteq> [] \<and> p \<noteq> dot \<and> slash \<notin> set p"

lemma clean_step_keeps: "list_all kept_segment acc \<Longrightarrow> slash \<notin> set p \<Longrightarrow> list_all kept_segment (clean_step r acc p)"
  by (cases acc) (simp_all add: clean_step_def kept_segment_def)

lemma clean_keeps:
  "list_all kept_segment acc \<Longrightarrow> list_all (\<lambda>p. slash \<notin> set p) ps \<Longrightarrow>
   list_all kept_segment (foldl (clean_step r) acc ps)"
  by (induction ps arbitrary: acc) (simp_all add: clean_step_keeps)

text \<open>A double dot survives cleaning only at the front.\<close>

lemma clean_dots:
  assumes "\<exists>n. acc = xs @ replicate n dot_dot \<and> dot_dot \<notin> set xs"
  shows "\<exists>n xs. foldl (clean_step False) acc ps = xs @ replicate n dot_dot \<and> dot_dot \<notin> set xs"
  using assms
proof (induction ps arbitrary: acc xs)
  case (Cons p ps)
  obtain n where n: "acc = xs @ replicate n dot_dot" "dot_dot \<notin> set xs" using Cons.prems by blast
  have "\<exists>n ys. clean_step False acc p = ys @ replicate n dot_dot \<and> dot_dot \<notin> set ys"
  proof (cases "p = dot_dot")
    case True
    show ?thesis
    proof (cases xs)
      case Nil
      then have "clean_step False acc p = [] @ replicate (Suc n) dot_dot"
        using True n by (cases n) (simp_all add: clean_step_def)
      then show ?thesis by (intro exI [of _ "Suc n"] exI [of _ "[]"]) simp
    next
      case (Cons x ys)
      then have "clean_step False acc p = ys @ replicate n dot_dot"
        using True n by (auto simp: clean_step_def)
      then show ?thesis using n(2) Cons by auto
    qed
  next
    case False
    then show ?thesis
    proof (cases "p = [] \<or> p = dot")
      case True
      then show ?thesis using n by (auto simp: clean_step_def)
    next
      case f: False
      then have "clean_step False acc p = (p # xs) @ replicate n dot_dot"
        using False n by (simp add: clean_step_def)
      then show ?thesis using n(2) False by (metis set_ConsD)
    qed
  qed
  then obtain m ys where "clean_step False acc p = ys @ replicate m dot_dot" "dot_dot \<notin> set ys" by blast
  then show ?case using Cons.IH [of "clean_step False acc p" ys] by auto
qed (simp, blast)

lemma clean_relative_iff:
  assumes "\<not> has_prefix name [slash]" and "name \<noteq> dot_dot" and "\<not> has_prefix name ''../''"
  shows "path_clean name = name \<longleftrightarrow> name = dot \<or> list_all proper_segment (split name slash)"
proof
  let ?segs = "rev (foldl (clean_step False) [] (split name slash))"
  assume c: "path_clean name = name"
  show "name = dot \<or> list_all proper_segment (split name slash)"
  proof (cases "?segs = []")
    case True
    then show ?thesis using c assms(1) by (simp add: path_clean_def Let_def)
  next
    case False
    then have j: "join_str [slash] ?segs = name" using c assms(1) by (simp add: path_clean_def Let_def)
    have k: "list_all kept_segment ?segs"
      using clean_keeps [of "[]" "split name slash" False] split_parts by (auto simp: list_all_iff)
    then have s: "split name slash = ?segs" using split_join [OF False, of slash] j k by (auto simp: list_all_iff kept_segment_def)
    obtain n xs where "foldl (clean_step False) [] (split name slash) = xs @ replicate n dot_dot" and x: "dot_dot \<notin> set xs"
      using clean_dots [of "[]" "[]" "split name slash"] by auto
    then have r: "?segs = replicate n dot_dot @ rev xs" by simp
    have "n = 0"
    proof (rule ccontr)
      assume "n \<noteq> 0"
      then obtain ys where "?segs = dot_dot # ys" using r by (cases n) auto
      then have "name = dot_dot \<or> (\<exists>zs. name = dot_dot @ slash # zs)"
        using j by (cases ys) (auto simp: join_str_def)
      then show False using assms(2,3) by (auto simp: dot_dot_def slash_def)
    qed
    then show ?thesis using s r x k by (auto simp: list_all_iff proper_segment_def kept_segment_def)
  qed
next
  assume "name = dot \<or> list_all proper_segment (split name slash)"
  then show "path_clean name = name"
  proof
    assume "name = dot"
    then show ?thesis by (simp add: path_clean_def clean_step_def dot_def slash_def)
  next
    assume l: "list_all proper_segment (split name slash)"
    then show ?thesis
      using assms(1) clean_proper [OF l, of False "[]"] join_split [of slash name]
      by (simp add: path_clean_def Let_def)
  qed
qed


lemma proper_not_climbing:
  assumes "name = dot \<or> list_all proper_segment (split name slash)"
  shows "\<not> has_prefix name [slash]" and "name \<noteq> dot_dot" and "\<not> has_prefix name ''../''"
proof -
  have "split name slash = [] # split t slash" if "name = slash # t" for t using that by simp
  then show "\<not> has_prefix name [slash]"
    using assms by (cases name) (auto simp: proper_segment_def dot_def slash_def)
  have "split dot_dot slash = [dot_dot]" by (simp add: split_no_sep)
  then show "name \<noteq> dot_dot" using assms by (auto simp: proper_segment_def)
  have "split (dot_dot @ slash # t) slash = dot_dot # split t slash" for t by (simp add: split_append)
  then have "name \<noteq> dot_dot @ slash # t" for t using assms by (auto simp: proper_segment_def dot_dot_def dot_def)
  then show "\<not> has_prefix name ''../''" by (auto simp: has_prefix_iff dot_dot_def slash_def)
qed

lemma accepted_iff:
  "reject_file_name name = [] \<longleftrightarrow>
     (name = dot \<or> list_all proper_segment (split name slash)) \<and> length name \<le> max_file_name_bytes \<and>
     valid_utf8 name \<and> \<not> list_ex is_control (runes name)"
  using clean_relative_iff [of name] proper_not_climbing [of name] by (auto simp: reject_file_name_def)

lemma join_str_nested: "ys \<noteq> [] \<Longrightarrow> join_str sep (xs @ [join_str sep ys]) = join_str sep (xs @ ys)"
  by (cases xs; cases ys) (simp_all add: join_str_def)

text \<open>
  C31. A name the files store takes has only proper segments, so under any root directory it
  resolves to a path below that root; it is short enough for every driver's keys, valid UTF-8 and
  free of control characters. The one name without a proper segment that is taken is a single dot,
  which resolves to the root itself.
\<close>

theorem file_name_confined:
  assumes "reject_file_name name = []" and "list_all (\<lambda>p. proper_segment p \<and> slash \<notin> set p) root"
  shows "path_clean (slash # join_str [slash] (root @ [name])) =
      slash # join_str [slash] (root @ (if name = dot then [] else split name slash)) \<and>
    (name \<noteq> dot \<longrightarrow> list_all proper_segment (split name slash)) \<and>
    length name \<le> 240 \<and> valid_utf8 name \<and> \<not> list_ex is_control (runes name)"
proof -
  let ?s = "slash # join_str [slash] (root @ [name])"
  have a: "name = dot \<or> list_all proper_segment (split name slash)" "length name \<le> 240"
    "valid_utf8 name" "\<not> list_ex is_control (runes name)"
    using assms(1) accepted_iff [of name] by (simp_all add: max_file_name_bytes_def)
  have "join_str [slash] (rs @ [name]) = join_str [slash] (rs @ split name slash)" for rs
    using join_str_nested [OF split_nonempty, of "[slash]" rs name slash] by (simp add: join_split)
  then have "split (join_str [slash] (root @ [name])) slash = split (join_str [slash] (root @ split name slash)) slash"
    by simp
  also have "\<dots> = root @ split name slash"
    using assms(2) split_parts [of _ name slash] by (intro split_join) (auto simp: list_all_iff)
  finally have sp: "split ?s slash = [] # root @ split name slash" by simp
  have r: "list_all proper_segment root" using assms(2) by (simp add: list_all_iff)
  have "rev (foldl (clean_step True) [] (split ?s slash)) = root @ (if name = dot then [] else split name slash)"
  proof (cases "name = dot")
    case True
    then have "split name slash = [dot]" by (simp add: split_no_sep dot_def slash_def)
    then show ?thesis unfolding sp using clean_proper [OF r, of True "[]"] True by (simp add: clean_step_def)
  next
    case False
    then have "list_all proper_segment (root @ split name slash)" using r a(1) by simp
    from clean_proper [OF this, of True "[]"] show ?thesis unfolding sp using False by (simp add: clean_step_def)
  qed
  then show ?thesis using a by (auto simp add: path_clean_def Let_def)
qed

lemma plain_ascii:
  assumes "list_all (\<lambda>c. is_ascii c \<and> 32 \<le> byte_of c \<and> byte_of c \<noteq> 127) s"
  shows "valid_utf8 s" and "\<not> list_ex is_control (runes s)"
proof -
  have a: "list_all is_ascii s" using assms by (simp add: list_all_iff)
  show "valid_utf8 s" using a by (rule valid_utf8_ascii)
  show "\<not> list_ex is_control (runes s)"
    using assms by (auto simp: runes_ascii [OF a] list_ex_iff list_all_iff is_control_def byte_of_def)
qed

theorem file_name_confined_witness:
  "path_clean ''/srv/files/img/logo.png'' = ''/srv/files/img/logo.png'' \<and> reject_file_name ''img/logo.png'' = []"
proof -
  have "split ''img/logo.png'' slash = [''img'', ''logo.png'']" by (simp add: slash_def)
  then have r: "reject_file_name ''img/logo.png'' = []"
    by (simp add: accepted_iff proper_segment_def dot_def dot_dot_def plain_ascii max_file_name_bytes_def is_ascii_def byte_of_def)
  have "list_all (\<lambda>p. proper_segment p \<and> slash \<notin> set p) [''srv'', ''files'']"
    by (simp add: proper_segment_def dot_def dot_dot_def slash_def)
  from file_name_confined [OF r this] show ?thesis using r by (simp add: join_str_def slash_def dot_def)
qed

text \<open>The rule's message speaks of no dot segments, yet \<^verbatim>\<open>path.Clean\<close> leaves a lone dot as it is.\<close>

lemma lone_dot_accepted: "reject_file_name dot = []"
  by (simp add: accepted_iff plain_ascii dot_def max_file_name_bytes_def is_ascii_def byte_of_def)

end
