(* ===== verification/Json_Text.thy ===== *)
theory Json_Text
  imports Utf8 Query_Text "HOL-Library.AList"
begin

text \<open>
  \<^verbatim>\<open>encoding/json\<close> as the stub compiler uses it: a document is decoded one level at a time into a
  map or a slice of \<^verbatim>\<open>json.RawMessage\<close>, the text of the values below, and each of those is decoded
  again by whoever reads the field. Every function here works on text. The decoder's nesting limit
  of ten thousand levels is not modelled.
\<close>

section \<open>Scanning values\<close>

definition is_space :: "char \<Rightarrow> bool" where
  "is_space c \<longleftrightarrow> c = CHR '' '' \<or> c = CHR 0x09 \<or> c = CHR 0x0A \<or> c = CHR 0x0D"

abbreviation skip_ws :: "string \<Rightarrow> string" where
  "skip_ws \<equiv> dropWhile is_space"

definition quote_char :: char where "quote_char = CHR 0x22"
definition backslash :: char where "backslash = CHR 0x5C"

definition is_hex :: "char \<Rightarrow> bool" where
  "is_hex c \<longleftrightarrow> hex_value c \<noteq> None"

text \<open>The raw content of a string up to its closing quote, and the text after it.\<close>

fun scan_string :: "string \<Rightarrow> (string \<times> string) option" where
  "scan_string [] = None"
| "scan_string (c # s) =
     (if c = quote_char then Some ([], s)
      else if c = backslash then
        (case s of
           [] \<Rightarrow> None
         | e # t \<Rightarrow>
             if e = CHR ''u'' then
               (if 4 \<le> length t \<and> list_all is_hex (take 4 t)
                then map_option (\<lambda>(u, r). (c # e # u, r)) (scan_string t) else None)
             else if e \<in> set ''bfnrt/'' \<or> e = backslash \<or> e = quote_char
             then map_option (\<lambda>(u, r). (c # e # u, r)) (scan_string t)
             else None)
      else if byte_of c < 32 then None
      else map_option (\<lambda>(u, r). (c # u, r)) (scan_string s))"

definition scan_fraction :: "string \<Rightarrow> string option" where
  "scan_fraction s =
     (if has_prefix s ''.'' then
        (let t = drop 1 s in if t \<noteq> [] \<and> is_digit (hd t) then Some (dropWhile is_digit t) else None)
      else Some s)"

definition scan_exponent :: "string \<Rightarrow> string option" where
  "scan_exponent s =
     (if has_prefix s ''e'' \<or> has_prefix s ''E'' then
        (let t = drop 1 s;
             t = (if has_prefix t ''+'' \<or> has_prefix t ''-'' then drop 1 t else t)
         in if t \<noteq> [] \<and> is_digit (hd t) then Some (dropWhile is_digit t) else None)
      else Some s)"

definition scan_number :: "string \<Rightarrow> string option" where
  "scan_number s =
     (let t = (if has_prefix s ''-'' then drop 1 s else s)
      in if t = [] \<or> \<not> is_digit (hd t) then None
         else case scan_fraction (if hd t = CHR ''0'' then tl t else dropWhile is_digit t) of
                None \<Rightarrow> None
              | Some t \<Rightarrow> scan_exponent t)"

text \<open>
  The text after a value that starts the given text, and the members and elements of an object
  or an array whose first member starts it. A value nests less deep than its text is long, so the
  length of the text is fuel enough.
\<close>

fun skip_value :: "nat \<Rightarrow> string \<Rightarrow> string option"
and read_members :: "nat \<Rightarrow> string \<Rightarrow> ((string \<times> string) list \<times> string) option"
and read_elements :: "nat \<Rightarrow> string \<Rightarrow> (string list \<times> string) option" where
  "skip_value 0 s = None"
| "skip_value (Suc n) s =
     (case s of
        [] \<Rightarrow> None
      | c # r \<Rightarrow>
          if c = CHR ''{'' then
            (if has_prefix (skip_ws r) ''}'' then Some (drop 1 (skip_ws r))
             else map_option snd (read_members n (skip_ws r)))
          else if c = CHR ''['' then
            (if has_prefix (skip_ws r) '']'' then Some (drop 1 (skip_ws r))
             else map_option snd (read_elements n (skip_ws r)))
          else if c = quote_char then map_option snd (scan_string r)
          else if has_prefix s ''true'' then Some (drop 4 s)
          else if has_prefix s ''false'' then Some (drop 5 s)
          else if has_prefix s ''null'' then Some (drop 4 s)
          else scan_number s)"
| "read_members 0 s = None"
| "read_members (Suc n) s =
     (if s = [] \<or> hd s \<noteq> quote_char then None
      else case scan_string (tl s) of
             None \<Rightarrow> None
           | Some (key, r) \<Rightarrow>
               (let r = skip_ws r in
                if \<not> has_prefix r '':'' then None
                else (let v = skip_ws (drop 1 r) in
                      case skip_value n v of
                        None \<Rightarrow> None
                      | Some r \<Rightarrow>
                          (let value = take (length v - length r) v; r = skip_ws r in
                           if has_prefix r '','' then
                             map_option (\<lambda>(ms, r). ((key, value) # ms, r)) (read_members n (skip_ws (drop 1 r)))
                           else if has_prefix r ''}'' then Some ([(key, value)], drop 1 r)
                           else None))))"
| "read_elements 0 s = None"
| "read_elements (Suc n) s =
     (case skip_value n s of
        None \<Rightarrow> None
      | Some r \<Rightarrow>
          (let value = take (length s - length r) s; r = skip_ws r in
           if has_prefix r '','' then
             map_option (\<lambda>(vs, r). (value # vs, r)) (read_elements n (skip_ws (drop 1 r)))
           else if has_prefix r '']'' then Some ([value], drop 1 r)
           else None))"

text \<open>The value a whole text holds, without the blanks around it.\<close>

definition json_value :: "string \<Rightarrow> string option" where
  "json_value text =
     (let s = skip_ws text in
      case skip_value (Suc (length s)) s of
        None \<Rightarrow> None
      | Some r \<Rightarrow> if skip_ws r = [] then Some (take (length s - length r) s) else None)"

section \<open>Decoding\<close>

definition hex4 :: "string \<Rightarrow> nat" where
  "hex4 s = foldl (\<lambda>n c. 16 * n + the (hex_value c)) 0 (take 4 s)"

definition utf16_decode :: "nat \<Rightarrow> nat \<Rightarrow> nat" where
  "utf16_decode a b =
     (if 55296 \<le> a \<and> a < 56320 \<and> 56320 \<le> b \<and> b < 57344 then (a - 55296) * 1024 + (b - 56320) + 65536
      else rune_error)"

definition is_surrogate :: "nat \<Rightarrow> bool" where
  "is_surrogate r \<longleftrightarrow> 55296 \<le> r \<and> r < 57344"

text \<open>\<^verbatim>\<open>unquote\<close>, on content the scanner has accepted.\<close>

function unquote :: "string \<Rightarrow> string" where
  "unquote s =
     (case s of
        [] \<Rightarrow> []
      | c # t \<Rightarrow>
          if c = backslash then
            (case t of
               [] \<Rightarrow> []
             | e # u \<Rightarrow>
                 if e = CHR ''u'' then
                   (let r = hex4 u in
                    if is_surrogate r then
                      (let d = (if has_prefix (drop 4 u) [backslash, CHR ''u''] then utf16_decode r (hex4 (drop 6 u))
                                else rune_error)
                       in if d \<noteq> rune_error then encode_rune d @ unquote (drop 10 u)
                          else encode_rune rune_error @ unquote (drop 4 u))
                    else encode_rune r @ unquote (drop 4 u))
                 else (if e = CHR ''b'' then CHR 0x08 else if e = CHR ''f'' then CHR 0x0C
                       else if e = CHR ''n'' then CHR 0x0A else if e = CHR ''r'' then CHR 0x0D
                       else if e = CHR ''t'' then CHR 0x09 else e) # unquote u)
          else if byte_of c < 128 then c # unquote t
          else (let (r, w) = decode_rune (c # t) in encode_rune r @ unquote (drop (w - 1) t)))"
  by pat_completeness auto

termination by (relation "measure length") auto

declare unquote.simps [simp del]

text \<open>
  \<^verbatim>\<open>json.Unmarshal\<close> into a variable of a given type: an error, JSON null, which leaves a map nil and
  any other variable as it is, or the value. A map keeps the last value written for a key, at the
  place of the first.
\<close>

datatype 'a unmarshalled = Invalid | Null | Value 'a

definition unmarshal :: "(string \<Rightarrow> 'a option) \<Rightarrow> string \<Rightarrow> 'a unmarshalled" where
  "unmarshal read text =
     (case json_value text of
        None \<Rightarrow> Invalid
      | Some v \<Rightarrow> if v = ''null'' then Null else (case read v of None \<Rightarrow> Invalid | Some x \<Rightarrow> Value x))"

type_synonym raw_object = "(string \<times> string) list"

definition collect_members :: "raw_object \<Rightarrow> raw_object" where
  "collect_members ms = foldl (\<lambda>m (k, v). AList.update k v m) [] ms"

definition read_object :: "string \<Rightarrow> raw_object option" where
  "read_object v =
     (if \<not> has_prefix v ''{'' then None
      else if has_prefix (skip_ws (drop 1 v)) ''}'' then Some []
      else map_option (\<lambda>(ms, r). map (\<lambda>(k, w). (unquote k, w)) ms) (read_members (length v) (skip_ws (drop 1 v))))"

definition read_array :: "string \<Rightarrow> string list option" where
  "read_array v =
     (if \<not> has_prefix v ''['' then None
      else if has_prefix (skip_ws (drop 1 v)) '']'' then Some []
      else map_option fst (read_elements (length v) (skip_ws (drop 1 v))))"

definition read_string :: "string \<Rightarrow> string option" where
  "read_string v = (if has_prefix v [quote_char] then map_option (\<lambda>(u, r). unquote u) (scan_string (drop 1 v)) else None)"

definition read_bool :: "string \<Rightarrow> bool option" where
  "read_bool v = (if v = ''true'' then Some True else if v = ''false'' then Some False else None)"

text \<open>Into an integer type: the literal as \<^verbatim>\<open>strconv.ParseInt\<close> takes it, within the bounds of the type.\<close>

definition read_int :: "int \<Rightarrow> int \<Rightarrow> string \<Rightarrow> int option" where
  "read_int lo hi v =
     (if v = [] \<or> \<not> (is_digit (hd v) \<or> hd v = CHR ''-'') then None
      else case atoi v of None \<Rightarrow> None | Some i \<Rightarrow> if lo \<le> i \<and> i \<le> hi then Some i else None)"

definition unmarshal_object :: "string \<Rightarrow> raw_object unmarshalled" where
  "unmarshal_object = unmarshal (\<lambda>v. map_option collect_members (read_object v))"

definition unmarshal_array :: "string \<Rightarrow> string list unmarshalled" where
  "unmarshal_array = unmarshal read_array"

definition unmarshal_string :: "string \<Rightarrow> string unmarshalled" where
  "unmarshal_string = unmarshal read_string"

definition unmarshal_bool :: "string \<Rightarrow> bool unmarshalled" where
  "unmarshal_bool = unmarshal read_bool"

definition unmarshal_int32 :: "string \<Rightarrow> int unmarshalled" where
  "unmarshal_int32 = unmarshal (read_int (- (2 ^ 31)) (2 ^ 31 - 1))"

definition unmarshal_int64 :: "string \<Rightarrow> int unmarshalled" where
  "unmarshal_int64 = unmarshal (read_int (- (2 ^ 63)) (2 ^ 63 - 1))"


section \<open>Encoding\<close>

text \<open>\<^verbatim>\<open>json.Marshal\<close> of a string, with the HTML escapes it makes by default.\<close>

definition hex_lower :: "nat \<Rightarrow> char" where
  "hex_lower n = char_of (if n < 10 then 48 + n else 87 + n)"

definition escape_ascii :: "char \<Rightarrow> string" where
  "escape_ascii c =
     (let x = byte_of c in
      if c = quote_char \<or> c = backslash then [backslash, c]
      else if x = 8 then [backslash, CHR ''b'']
      else if x = 12 then [backslash, CHR ''f'']
      else if x = 10 then [backslash, CHR ''n'']
      else if x = 13 then [backslash, CHR ''r'']
      else if x = 9 then [backslash, CHR ''t'']
      else if x < 32 \<or> x = 60 \<or> x = 62 \<or> x = 38
        then [backslash, CHR ''u'', CHR ''0'', CHR ''0'', hex_lower (x div 16), hex_lower (x mod 16)]
      else [c])"

function escape_text_json :: "string \<Rightarrow> string" where
  "escape_text_json s =
     (if s = [] then []
      else if byte_of (hd s) < 128 then escape_ascii (hd s) @ escape_text_json (tl s)
      else let (r, w) = decode_rune s in
           (if r = rune_error \<and> w = 1 then backslash # ''ufffd''
            else if r = 8232 then backslash # ''u2028''
            else if r = 8233 then backslash # ''u2029''
            else take w s) @ escape_text_json (drop w s))"
  by pat_completeness auto

termination by (relation "measure length") (simp, simp, use decode_rune_shorter in auto)

declare escape_text_json.simps [simp del]

definition quote_text :: "string \<Rightarrow> string" where
  "quote_text s = quote_char # escape_text_json s @ [quote_char]"

text \<open>
  \<^verbatim>\<open>json.Compact\<close> drops the blanks between tokens; with \<open>html\<close> it also escapes what an encoder
  escapes inside a raw message.
\<close>

datatype compact_state = Outside | Inside | Escaped | Skipping nat

definition html_special :: "char \<Rightarrow> bool" where
  "html_special c \<longleftrightarrow> c = CHR ''<'' \<or> c = CHR ''>'' \<or> c = CHR ''&''"

definition line_separator :: "string \<Rightarrow> string" where
  "line_separator s =
     (if has_prefix s [CHR 0xE2, CHR 0x80, CHR 0xA8] then backslash # ''u2028''
      else if has_prefix s [CHR 0xE2, CHR 0x80, CHR 0xA9] then backslash # ''u2029'' else [])"

definition compact_next :: "bool \<Rightarrow> compact_state \<Rightarrow> string \<Rightarrow> string \<times> compact_state" where
  "compact_next html st s =
     (let c = hd s in
      case st of
        Outside \<Rightarrow> if is_space c then ([], Outside) else ([c], if c = quote_char then Inside else Outside)
      | Inside \<Rightarrow>
          if c = backslash then ([c], Escaped)
          else if c = quote_char then ([c], Outside)
          else if html \<and> html_special c then (escape_ascii c, Inside)
          else if html \<and> line_separator s \<noteq> [] then (line_separator s, Skipping 2)
          else ([c], Inside)
      | Escaped \<Rightarrow> ([c], Inside)
      | Skipping n \<Rightarrow> ([], if n = 1 then Inside else Skipping (n - 1)))"

primrec compact_from :: "bool \<Rightarrow> compact_state \<Rightarrow> string \<Rightarrow> string" where
  "compact_from html st [] = []"
| "compact_from html st (c # s) =
     (case compact_next html st (c # s) of (out, st') \<Rightarrow> out @ compact_from html st' s)"

definition json_compact :: "string \<Rightarrow> string option" where
  "json_compact text = map_option (compact_from False Outside) (json_value text)"

definition marshal_raw :: "string \<Rightarrow> string" where
  "marshal_raw text = compact_from True Outside text"

definition sorted_keys :: "raw_object \<Rightarrow> string list" where
  "sorted_keys doc = sort_stable string_less (map fst doc)"

definition marshal_object :: "raw_object \<Rightarrow> string" where
  "marshal_object doc =
     ''{'' @ join_str '','' (map (\<lambda>k. quote_text k @ '':'' @ marshal_raw (the (map_of doc k))) (sorted_keys doc)) @ ''}''"

end
