(* ===== verification/Base64.thy ===== *)
theory Base64
  imports Utf8
begin

text \<open>
  \<^verbatim>\<open>encoding/base64\<close> as the code uses it, and \<^verbatim>\<open>DecodeBase64\<close> of \<^verbatim>\<open>internal/matchers/compile.go\<close>,
  which takes the padded spelling or, failing that, the bare one.
\<close>

section \<open>Sextets\<close>

definition sextet_char :: "nat \<Rightarrow> char" where
  "sextet_char n =
     char_of (if n < 26 then 65 + n else if n < 52 then 71 + n else if n < 62 then n - 4 else if n = 62 then 43 else 47)"

definition char_sextet :: "char \<Rightarrow> nat option" where
  "char_sextet c =
     (let x = byte_of c in
      if 65 \<le> x \<and> x \<le> 90 then Some (x - 65)
      else if 97 \<le> x \<and> x \<le> 122 then Some (x - 71)
      else if 48 \<le> x \<and> x \<le> 57 then Some (x + 4)
      else if x = 43 then Some 62
      else if x = 47 then Some 63
      else None)"

fun to_sextets :: "nat list \<Rightarrow> nat list" where
  "to_sextets (a # b # c # r) =
     a div 4 # (a mod 4 * 16 + b div 16) # (b mod 16 * 4 + c div 64) # c mod 64 # to_sextets r"
| "to_sextets [a, b] = [a div 4, a mod 4 * 16 + b div 16, b mod 16 * 4]"
| "to_sextets [a] = [a div 4, a mod 4 * 16]"
| "to_sextets [] = []"

fun of_sextets :: "nat list \<Rightarrow> nat list option" where
  "of_sextets (a # b # c # d # r) =
     map_option (\<lambda>t. (a * 4 + b div 16) # (b mod 16 * 16 + c div 4) # (c mod 4 * 64 + d) # t) (of_sextets r)"
| "of_sextets [a, b, c] = Some [a * 4 + b div 16, b mod 16 * 16 + c div 4]"
| "of_sextets [a, b] = Some [a * 4 + b div 16]"
| "of_sextets [a] = None"
| "of_sextets [] = Some []"

section \<open>Encoding and decoding\<close>

definition base64_pad :: "nat \<Rightarrow> string" where
  "base64_pad n = (if n mod 4 = 2 then ''=='' else if n mod 4 = 3 then ''='' else [])"

definition raw_base64_encode :: "string \<Rightarrow> string" where
  "raw_base64_encode s = map sextet_char (to_sextets (map byte_of s))"

definition base64_encode :: "string \<Rightarrow> string" where
  "base64_encode s = (let e = raw_base64_encode s in e @ base64_pad (length e))"

definition raw_base64_decode :: "string \<Rightarrow> string option" where
  "raw_base64_decode s =
     (let s = filter (\<lambda>c. c \<noteq> CHR 0x0A \<and> c \<noteq> CHR 0x0D) s in
      if list_all (\<lambda>c. char_sextet c \<noteq> None) s
      then map_option (map char_of) (of_sextets (map (\<lambda>c. the (char_sextet c)) s)) else None)"

text \<open>The padded decoder wants whole quanta; padding completes the last one and nothing else.\<close>

definition strip_pad :: "string \<Rightarrow> string" where
  "strip_pad s = rev (dropWhile (\<lambda>c. c = CHR ''='') (rev s))"

definition std_base64_decode :: "string \<Rightarrow> string option" where
  "std_base64_decode s =
     (let s = filter (\<lambda>c. c \<noteq> CHR 0x0A \<and> c \<noteq> CHR 0x0D) s; t = strip_pad s in
      if s = t @ base64_pad (length t) \<and> length s mod 4 = 0 then raw_base64_decode t else None)"

definition decode_base64 :: "string \<Rightarrow> string option" where
  "decode_base64 s = (case std_base64_decode s of Some d \<Rightarrow> Some d | None \<Rightarrow> raw_base64_decode s)"

section \<open>Both spellings decode to what was encoded\<close>

lemma char_sextet_char: "n < 64 \<Longrightarrow> char_sextet (sextet_char n) = Some n"
  by (auto simp: sextet_char_def char_sextet_def byte_of_def Let_def)

lemma sextet_char_plain: "n < 64 \<Longrightarrow> sextet_char n \<notin> {CHR 0x0A, CHR 0x0D, CHR ''=''}"
  using char_sextet_char [of n] by (auto simp: char_sextet_def byte_of_def)

lemma sextet_arith:
  fixes a b c :: nat
  assumes "b < 256" and "c < 256"
  shows "a div 4 * 4 + (a mod 4 * 16 + b div 16) div 16 = a"
    and "(a mod 4 * 16 + b div 16) mod 16 * 16 + (b mod 16 * 4 + c div 64) div 4 = b"
    and "(b mod 16 * 4 + c div 64) mod 4 * 64 + c mod 64 = c"
proof -
  have b: "b div 16 < 16" and c: "c div 64 < 4" using assms by (simp_all add: less_mult_imp_div_less)
  have "(a mod 4 * 16 + b div 16) div 16 = a mod 4" "(a mod 4 * 16 + b div 16) mod 16 = b div 16" using b by simp_all
  moreover have "(b mod 16 * 4 + c div 64) div 4 = b mod 16" "(b mod 16 * 4 + c div 64) mod 4 = c div 64" using c by simp_all
  ultimately show "a div 4 * 4 + (a mod 4 * 16 + b div 16) div 16 = a"
    "(a mod 4 * 16 + b div 16) mod 16 * 16 + (b mod 16 * 4 + c div 64) div 4 = b"
    "(b mod 16 * 4 + c div 64) mod 4 * 64 + c mod 64 = c"
    by simp_all
qed

lemma sextet_bounds:
  fixes a b c :: nat
  shows "a < 256 \<Longrightarrow> a div 4 < 64" and "b < 256 \<Longrightarrow> a mod 4 * 16 + b div 16 < 64"
    and "c < 256 \<Longrightarrow> b mod 16 * 4 + c div 64 < 64" and "a mod 4 * 16 < 64" and "b mod 16 * 4 < 64"
proof -
  have m: "a mod 4 < 4" "b mod 16 < 16" by simp_all
  show "a < 256 \<Longrightarrow> a div 4 < 64" by (simp add: less_mult_imp_div_less)
  show "b < 256 \<Longrightarrow> a mod 4 * 16 + b div 16 < 64" using m(1) less_mult_imp_div_less [of b 16 16] by simp
  show "c < 256 \<Longrightarrow> b mod 16 * 4 + c div 64 < 64" using m(2) less_mult_imp_div_less [of c 4 64] by simp
  show "a mod 4 * 16 < 64" "b mod 16 * 4 < 64" using m by linarith+
qed

lemma to_sextets_bound: "\<forall>b\<in>set bs. b < 256 \<Longrightarrow> \<forall>x\<in>set (to_sextets bs). x < 64"
  by (induction bs rule: to_sextets.induct) (auto intro: sextet_bounds)

lemma of_to_sextets: "\<forall>b\<in>set bs. b < 256 \<Longrightarrow> of_sextets (to_sextets bs) = Some bs"
proof (induction bs rule: to_sextets.induct)
  case (1 a b c r)
  then show ?case using sextet_arith(1,2) [of b c a] sextet_arith(3) [of b c] by simp
next
  case (2 a b)
  then show ?case using sextet_arith(1,2) [of b 0 a] by simp
next
  case (3 a)
  then show ?case using sextet_arith(1) [of 0 0 a] by simp
qed simp

lemma to_sextets_length: "length (to_sextets bs) mod 4 \<noteq> 1"
proof (induction bs rule: to_sextets.induct)
  case (1 a b c r)
  then show ?case by simp
qed simp_all

lemma raw_encode_chars:
  "\<forall>c\<in>set (raw_base64_encode s). c \<notin> {CHR 0x0A, CHR 0x0D, CHR ''=''} \<and> char_sextet c \<noteq> None"
  using to_sextets_bound [of "map byte_of s"] byte_of_less sextet_char_plain char_sextet_char
  by (auto simp: raw_base64_encode_def)

lemma raw_decode_encode: "raw_base64_decode (raw_base64_encode s) = Some s"
proof -
  have b: "\<forall>b\<in>set (map byte_of s). b < 256" using byte_of_less by auto
  have "filter (\<lambda>c. c \<noteq> CHR 0x0A \<and> c \<noteq> CHR 0x0D) (raw_base64_encode s) = raw_base64_encode s"
    using raw_encode_chars [of s] by (auto simp: filter_id_conv)
  moreover have "map (\<lambda>c. the (char_sextet c)) (raw_base64_encode s) = to_sextets (map byte_of s)"
    using to_sextets_bound [OF b] char_sextet_char by (auto simp: raw_base64_encode_def intro: map_idI)
  ultimately show ?thesis
    using raw_encode_chars [of s] of_to_sextets [OF b]
    by (auto simp: raw_base64_decode_def list_all_iff comp_def)
qed

lemma strip_pad_append: "\<forall>c\<in>set s. c \<noteq> CHR ''='' \<Longrightarrow> list_all (\<lambda>c. c = CHR ''='') p \<Longrightarrow> strip_pad (s @ p) = s"
proof -
  assume s: "\<forall>c\<in>set s. c \<noteq> CHR ''=''" and p: "list_all (\<lambda>c. c = CHR ''='') p"
  have "dropWhile (\<lambda>c. c = CHR ''='') (rev p @ rev s) = dropWhile (\<lambda>c. c = CHR ''='') (rev s)"
    using p by (intro dropWhile_append2) (auto simp: list_all_iff)
  moreover have "dropWhile (\<lambda>c. c = CHR ''='') (rev s) = rev s"
    using s by (cases s rule: rev_cases) auto
  ultimately show ?thesis by (simp add: strip_pad_def)
qed

lemma std_decode_encode: "std_base64_decode (base64_encode s) = Some s"
proof -
  let ?e = "raw_base64_encode s"
  have c: "\<forall>c\<in>set ?e. c \<noteq> CHR 0x0A \<and> c \<noteq> CHR 0x0D \<and> c \<noteq> CHR ''=''" using raw_encode_chars [of s] by auto
  have f: "filter (\<lambda>c. c \<noteq> CHR 0x0A \<and> c \<noteq> CHR 0x0D) (base64_encode s) = ?e @ base64_pad (length ?e)"
    using c by (auto simp: base64_encode_def base64_pad_def Let_def filter_id_conv)
  have t: "strip_pad (?e @ base64_pad (length ?e)) = ?e"
    using c by (intro strip_pad_append) (auto simp: base64_pad_def)
  have "length ?e mod 4 \<noteq> 1" using to_sextets_length by (simp add: raw_base64_encode_def)
  then have "length (?e @ base64_pad (length ?e)) mod 4 = 0" by (auto simp: base64_pad_def) presburger+
  then show ?thesis by (simp add: std_base64_decode_def f t raw_decode_encode)
qed

text \<open>
  C33. \<^verbatim>\<open>DecodeBase64\<close> reads what Java writes: every byte string, encoded with padding or without, is
  decoded to itself.
\<close>

theorem base64_both_spellings:
  "decode_base64 (base64_encode s) = Some s \<and> decode_base64 (raw_base64_encode s) = Some s"
proof -
  have "std_base64_decode (raw_base64_encode s) = Some d \<Longrightarrow> d = s" for d
  proof -
    assume d: "std_base64_decode (raw_base64_encode s) = Some d"
    let ?e = "raw_base64_encode s"
    have c: "\<forall>c\<in>set ?e. c \<noteq> CHR 0x0A \<and> c \<noteq> CHR 0x0D \<and> c \<noteq> CHR ''=''" using raw_encode_chars [of s] by auto
    have "filter (\<lambda>c. c \<noteq> CHR 0x0A \<and> c \<noteq> CHR 0x0D) ?e = ?e" using c by (auto simp: filter_id_conv)
    moreover have "strip_pad ?e = ?e" using strip_pad_append [of ?e "[]"] c by simp
    ultimately show "d = s" using d raw_decode_encode [of s] by (auto simp: std_base64_decode_def Let_def split: if_splits)
  qed
  then show ?thesis
    by (auto simp: decode_base64_def std_decode_encode raw_decode_encode split: option.splits)
qed

end
