(* ===== verification/Matcher_Compile.thy ===== *)
theory Matcher_Compile
  imports Matchers Json_Text Base64
begin

text \<open>
  \<^verbatim>\<open>internal/matchers/compile.go\<close>: from a matcher document to a matcher, or to every reason it cannot
  be one. The engines behind it are parameters; the document is read as text, one level at a time.
\<close>

section \<open>What compilation needs\<close>

record temporal_spec =
  ts_expected :: string
  ts_truncate_expected :: string
  ts_truncate_actual :: string
  ts_actual_format :: string
  ts_apply_trunc_last :: bool
  ts_has_truncate_expected :: bool
  ts_has_truncate_actual :: bool
  ts_has_actual_format :: bool

text \<open>
  The compilers of the engines, each of which answers the text of an error or the compiled thing,
  and may be absent where the code tests for nil. \<open>ce_temporal\<close> may blame a field. The last two
  are the texts of the standard library's errors and \<^verbatim>\<open>strconv.Quote\<close>.
\<close>

record compile_env =
  ce_regex :: "(string \<Rightarrow> string + pattern_matcher) option"
  ce_jsonpath :: "(string \<Rightarrow> string + jsonpath_evaluator) option"
  ce_schema :: "(json \<Rightarrow> string \<Rightarrow> string + schema_validator) option"
  ce_temporal :: "string \<Rightarrow> temporal_spec \<Rightarrow> (string option \<times> string) + matcher"
  ce_xml :: "string \<Rightarrow> matcher option"
  ce_xpath :: "string \<Rightarrow> string + (matcher option \<Rightarrow> matcher)"
  ce_json :: json_codec
  ce_decode_error :: "string \<Rightarrow> string"
  ce_go_quote :: "string \<Rightarrow> string"

type_synonym compiled = "string problem list + matcher"

definition problem_at :: "problem_kind \<Rightarrow> string \<Rightarrow> string \<Rightarrow> string problem" where
  "problem_at k pointer detail = \<lparr>pb_kind = k, pb_pointer = pointer, pb_detail = detail, pb_feature = []\<rparr>"

definition refuse :: "string \<Rightarrow> string \<Rightarrow> compiled" where
  "refuse pointer detail = Inl [problem_at ProblemMalformed pointer detail]"

definition max_nesting :: nat where "max_nesting = 20"

definition content_patterns :: "string list" where "content_patterns = [''binaryEqualTo'']"
definition multi_value_keys :: "string list" where "multi_value_keys = [''hasExactly'', ''includes'']"

definition modifier_keys :: "string list" where
  "modifier_keys = [''caseInsensitive'', ''ignoreArrayOrder'', ''ignoreExtraElements'']"

definition schema_modifier_key :: string where "schema_modifier_key = ''schemaVersion''"

definition temporal_matcher_keys :: "string list" where
  "temporal_matcher_keys = [''before'', ''after'', ''equalToDateTime'']"

definition temporal_modifier_keys :: "string list" where
  "temporal_modifier_keys = [''truncateExpected'', ''truncateActual'', ''applyTruncationLast'', ''actualFormat'']"

definition has_temporal_matcher :: "raw_object \<Rightarrow> bool" where
  "has_temporal_matcher doc = list_ex (\<lambda>k. k \<in> set temporal_matcher_keys) (map fst doc)"

definition never_existed :: "(string \<times> string) list" where
  "never_existed =
     [(''truncateExpectedTo'', ''the parameter is truncateExpected''),
      (''truncateActualTo'', ''the parameter is truncateActual''),
      (''expectedOffset'', ''there is no offset parameter '' @ [CHR 0xE2, CHR 0x80, CHR 0x94] @
         '' write the offset into the expected value itself, as in '' @ [CHR 0x22] @ ''now +3 days'' @ [CHR 0x22]),
      (''havingExactly'', ''the operator is hasExactly'')]"

section \<open>Fields of a document\<close>

definition bool_field :: "raw_object \<Rightarrow> string \<Rightarrow> bool" where
  "bool_field doc key = (case map_of doc key of None \<Rightarrow> False | Some v \<Rightarrow> unmarshal_bool v = Value True)"

definition string_field :: "raw_object \<Rightarrow> string \<Rightarrow> string" where
  "string_field doc key =
     (case map_of doc key of
        None \<Rightarrow> []
      | Some v \<Rightarrow> (case unmarshal_string v of Value s \<Rightarrow> s | _ \<Rightarrow> []))"

definition has_key :: "raw_object \<Rightarrow> string \<Rightarrow> bool" where
  "has_key doc key \<longleftrightarrow> map_of doc key \<noteq> None"

text \<open>\<^verbatim>\<open>decodeExpectedJSON\<close>: the text of the expected document, written as a string or inline.\<close>

definition decode_expected_json :: "string \<Rightarrow> string" where
  "decode_expected_json value =
     (case unmarshal_string value of Value s \<Rightarrow> s | Null \<Rightarrow> [] | Invalid \<Rightarrow> value)"

section \<open>One key\<close>

text \<open>Operands of a list: every problem is collected, and only a clean list is built.\<close>

fun gather :: "compiled list \<Rightarrow> string problem list + matcher list" where
  "gather [] = Inr []"
| "gather (Inl ps # rs) = (case gather rs of Inl qs \<Rightarrow> Inl (ps @ qs) | Inr ms \<Rightarrow> Inl ps)"
| "gather (Inr m # rs) = (case gather rs of Inl qs \<Rightarrow> Inl qs | Inr ms \<Rightarrow> Inr (m # ms))"

definition compile_operands :: "(string \<Rightarrow> string \<Rightarrow> compiled) \<Rightarrow> string \<Rightarrow> string list \<Rightarrow> string problem list + matcher list" where
  "compile_operands nested here items =
     gather (map (\<lambda>(i, item). nested item (here @ ''/'' @ show_nat i)) (enumerate 0 items))"

definition placeholder_error_text :: "compile_env \<Rightarrow> placeholder_error \<Rightarrow> string" where
  "placeholder_error_text env e =
     (case e of
        NoRegexEngine \<Rightarrow> ''no regex engine is configured for '' @ placeholder_regex_prefix
      | PatternDoesNotCompile s err \<Rightarrow> ''the pattern in '' @ ce_go_quote env s @ '' does not compile: '' @ err
      | UnknownPlaceholder s \<Rightarrow> ''unknown json-unit placeholder '' @ ce_go_quote env s)"

definition compile_equal_to_json_key :: "compile_env \<Rightarrow> string \<Rightarrow> raw_object \<Rightarrow> string \<Rightarrow> compiled" where
  "compile_equal_to_json_key env here doc value =
     (let source = decode_expected_json value;
          cr = map_option (\<lambda>f p. map_sum id pm_match (f p)) (ce_regex env)
      in case compile_equal_to_json cr (ce_json env) here source
                (bool_field doc ''ignoreArrayOrder'') (bool_field doc ''ignoreExtraElements'') of
           Inl None \<Rightarrow> refuse here (''equalToJson operand is not valid JSON: '' @ ce_decode_error env source)
         | Inl (Some ps) \<Rightarrow> Inl (map (\<lambda>p. problem_at (pb_kind p) (pb_pointer p) (placeholder_error_text env (pb_detail p))) ps)
         | Inr m \<Rightarrow> Inr (EqualToJSON m))"

definition compile_schema_key :: "compile_env \<Rightarrow> string \<Rightarrow> raw_object \<Rightarrow> string \<Rightarrow> compiled" where
  "compile_schema_key env here doc value =
     (case ce_schema env of
        None \<Rightarrow> refuse here ''no JSON Schema compiler is configured''
      | Some compile \<Rightarrow>
          (let source = decode_expected_json value in
           case json_unmarshal (ce_json env) source of
             None \<Rightarrow> refuse here (''matchesJsonSchema takes a JSON Schema, inline or as a string: '' @ ce_decode_error env source)
           | Some schema \<Rightarrow>
               (case compile schema (string_field doc schema_modifier_key) of
                  Inl err \<Rightarrow> Inl [problem_at ProblemSchema here err]
                | Inr v \<Rightarrow> Inr (MatchesJSONSchema v))))"

definition temporal_spec_of :: "raw_object \<Rightarrow> string \<Rightarrow> temporal_spec" where
  "temporal_spec_of doc operand =
     \<lparr>ts_expected = operand, ts_truncate_expected = string_field doc ''truncateExpected'',
      ts_truncate_actual = string_field doc ''truncateActual'', ts_actual_format = string_field doc ''actualFormat'',
      ts_apply_trunc_last = bool_field doc ''applyTruncationLast'',
      ts_has_truncate_expected = has_key doc ''truncateExpected'',
      ts_has_truncate_actual = has_key doc ''truncateActual'', ts_has_actual_format = has_key doc ''actualFormat''\<rparr>"

definition compile_temporal_key :: "compile_env \<Rightarrow> string \<Rightarrow> string \<Rightarrow> raw_object \<Rightarrow> string \<Rightarrow> compiled" where
  "compile_temporal_key env pointer key doc operand =
     (case ce_temporal env key (temporal_spec_of doc operand) of
        Inl (Some field, err) \<Rightarrow> refuse (pointer @ ''/'' @ field) err
      | Inl (None, err) \<Rightarrow> refuse (pointer @ ''/'' @ key) err
      | Inr m \<Rightarrow> Inr m)"

definition compile_regex_key :: "compile_env \<Rightarrow> string \<Rightarrow> bool \<Rightarrow> string \<Rightarrow> compiled" where
  "compile_regex_key env here negate s =
     (case ce_regex env of
        None \<Rightarrow> refuse here ''no regex engine is configured''
      | Some compile \<Rightarrow>
          (case compile s of
             Inl err \<Rightarrow> Inl [problem_at ProblemRegex here (''regular expression does not compile: '' @ err)]
           | Inr p \<Rightarrow> Inr (Regex p negate)))"

text \<open>The object form of a path criterion: the expression and what is left for the inner matcher.\<close>

definition without_keys :: "string list \<Rightarrow> raw_object \<Rightarrow> raw_object" where
  "without_keys ks doc = filter (\<lambda>(k, v). k \<notin> set ks) doc"

definition expression_form ::
    "string \<Rightarrow> string \<Rightarrow> string \<Rightarrow> string list \<Rightarrow> string \<Rightarrow> string + string \<times> raw_object" where
  "expression_form no_form no_expression no_string consumed value =
     (case unmarshal_string value of
        Value expr \<Rightarrow> Inr (expr, [])
      | Null \<Rightarrow> Inr ([], [])
      | Invalid \<Rightarrow>
          (case unmarshal_object value of
             Invalid \<Rightarrow> Inl no_form
           | Null \<Rightarrow> Inl no_expression
           | Value doc \<Rightarrow>
               (case map_of doc ''expression'' of
                  None \<Rightarrow> Inl no_expression
                | Some raw \<Rightarrow>
                    (case unmarshal_string raw of
                       Invalid \<Rightarrow> Inl no_string
                     | Null \<Rightarrow> Inr ([], without_keys (''expression'' # consumed) doc)
                     | Value expr \<Rightarrow> Inr (expr, without_keys (''expression'' # consumed) doc)))))"

definition with_inner ::
    "(string \<Rightarrow> string \<Rightarrow> compiled) \<Rightarrow> string \<Rightarrow> raw_object \<Rightarrow> (matcher option \<Rightarrow> matcher) \<Rightarrow> compiled" where
  "with_inner nested here inner build =
     (if inner = [] then Inr (build None) else map_sum id (\<lambda>m. build (Some m)) (nested (marshal_object inner) here))"

definition compile_jsonpath_key ::
    "compile_env \<Rightarrow> (string \<Rightarrow> string \<Rightarrow> compiled) \<Rightarrow> string \<Rightarrow> string \<Rightarrow> string \<Rightarrow> compiled" where
  "compile_jsonpath_key env nested here key value =
     (case ce_jsonpath env of
        None \<Rightarrow> refuse here ''no JSONPath engine is configured''
      | Some compile \<Rightarrow>
          (case expression_form (key @ '' takes an expression string or an object with an expression'')
                  (key @ '' object form needs an expression'') ''expression must be a string'' [] value of
             Inl detail \<Rightarrow> refuse here detail
           | Inr (expr, inner) \<Rightarrow>
               (case compile expr of
                  Inl err \<Rightarrow> Inl [problem_at ProblemJSONPath here (''JSONPath does not compile: '' @ err)]
                | Inr path \<Rightarrow>
                    with_inner nested here inner (\<lambda>m. MatchesJSONPath path m (key = ''doesNotMatchJsonPath'')))))"

definition compile_xpath_criterion ::
    "compile_env \<Rightarrow> (string \<Rightarrow> string \<Rightarrow> compiled) \<Rightarrow> string \<Rightarrow> string \<Rightarrow> compiled" where
  "compile_xpath_criterion env nested here value =
     (case expression_form ''matchesXPath takes an expression or an object carrying one''
             ''the object form of matchesXPath needs an expression'' ''matchesXPath expression must be a string''
             [''xPathNamespaces''] value of
        Inl detail \<Rightarrow> refuse here detail
      | Inr (expr, inner) \<Rightarrow>
          (case ce_xpath env expr of
             Inl err \<Rightarrow> Inl [problem_at ProblemXPath here err]
           | Inr build \<Rightarrow> with_inner nested here inner build))"

definition with_string :: "string \<Rightarrow> string \<Rightarrow> string \<Rightarrow> (string \<Rightarrow> compiled) \<Rightarrow> compiled" where
  "with_string here detail value f =
     (case unmarshal_string value of Invalid \<Rightarrow> refuse here detail | Null \<Rightarrow> f [] | Value s \<Rightarrow> f s)"

definition with_items :: "string \<Rightarrow> string \<Rightarrow> string \<Rightarrow> (string list \<Rightarrow> compiled) \<Rightarrow> compiled" where
  "with_items here key value f =
     (case unmarshal_array value of
        Invalid \<Rightarrow> refuse here (key @ '' takes an array of matchers'') | Null \<Rightarrow> f [] | Value items \<Rightarrow> f items)"

definition compile_one ::
    "compile_env \<Rightarrow> (string \<Rightarrow> string \<Rightarrow> compiled) \<Rightarrow> string \<Rightarrow> string \<Rightarrow> raw_object \<Rightarrow> string \<Rightarrow> compiled" where
  "compile_one env nested key value doc pointer =
     (let here = pointer @ ''/'' @ key in
      if value = ''null'' then refuse here (key @ '' operand must not be null'')
      else if key = ''equalTo'' then
        with_string here ''equalTo takes a string'' value (\<lambda>s. Inr (EqualTo s (bool_field doc ''caseInsensitive'')))
      else if key = ''binaryEqualTo'' then
        with_string here ''binaryEqualTo takes a base64 string'' value (\<lambda>s.
          case decode_base64 s of
            None \<Rightarrow> refuse here (''binaryEqualTo operand is not valid base64: '' @ ce_decode_error env s)
          | Some d \<Rightarrow> Inr (BinaryEqualTo d s))
      else if key = ''matchesJsonSchema'' then compile_schema_key env here doc value
      else if key \<in> set temporal_matcher_keys then
        with_string here (key @ '' takes a date-time string'') value (compile_temporal_key env pointer key doc)
      else if key = ''contains'' \<or> key = ''doesNotContain'' then
        with_string here (key @ '' takes a string'') value (\<lambda>s. Inr (Contains s (key = ''doesNotContain'')))
      else if key = ''matches'' \<or> key = ''doesNotMatch'' then
        with_string here (key @ '' takes a regular expression string'') value (compile_regex_key env here (key = ''doesNotMatch''))
      else if key = ''absent'' then
        (case unmarshal_bool value of
           Invalid \<Rightarrow> refuse here ''absent takes a boolean''
         | Value True \<Rightarrow> Inr Absent
         | _ \<Rightarrow> refuse here ([CHR 0x22] @ ''absent'' @ [CHR 0x22] @ '': false is not a matcher; omit the criterion instead''))
      else if key = ''equalToJson'' then compile_equal_to_json_key env here doc value
      else if key = ''matchesJsonPath'' \<or> key = ''doesNotMatchJsonPath'' then compile_jsonpath_key env nested here key value
      else if key = ''equalToXml'' then
        with_string here ''equalToXml takes a string'' value (\<lambda>s.
          case ce_xml env s of None \<Rightarrow> refuse here ''equalToXml operand is not well-formed XML'' | Some m \<Rightarrow> Inr m)
      else if key = ''matchesXPath'' then compile_xpath_criterion env nested here value
      else if key = ''hasExactly'' \<or> key = ''includes'' then
        with_items here key value (\<lambda>items.
          if key = ''hasExactly'' \<and> items = []
          then refuse here ''hasExactly [] can never match: a key that is present carries at least one value, so no request satisfies it''
          else case compile_operands nested here items of
                 Inl ps \<Rightarrow> Inl ps | Inr ms \<Rightarrow> Inr (MultiValue ms (key = ''hasExactly'')))
      else if key = ''and'' \<or> key = ''or'' then
        with_items here key value (\<lambda>items.
          if length items < 2 then refuse here (key @ '' needs at least two matchers'')
          else case compile_operands nested here items of
                 Inl ps \<Rightarrow> Inl ps | Inr ms \<Rightarrow> Inr (if key = ''and'' then And ms else Or ms))
      else if key = ''not'' then map_sum id Not (nested value here)
      else refuse here (''unknown matcher '' @ key @
             (case map_of never_existed key of None \<Rightarrow> [] | Some hint \<Rightarrow> ''; '' @ hint)))"

section \<open>A matcher document\<close>

text \<open>
  What one key of a document contributes: nothing, for a modifier, or a problem or a matcher. The
  map of deferred matchers is empty in this build.
\<close>

definition compile_key ::
    "compile_env \<Rightarrow> (string \<Rightarrow> string \<Rightarrow> compiled) \<Rightarrow> bool \<Rightarrow> bool \<Rightarrow> raw_object \<Rightarrow> string \<Rightarrow> string \<Rightarrow> compiled option" where
  "compile_key env nested allow_content allow_multi doc pointer key =
     (if key \<in> set modifier_keys then None
      else if key = schema_modifier_key then
        (if has_key doc ''matchesJsonSchema'' then None
         else Some (refuse (pointer @ ''/'' @ key) ''schemaVersion only applies to a matchesJsonSchema matcher''))
      else if key \<in> set temporal_modifier_keys then
        (if has_temporal_matcher doc then None
         else Some (refuse (pointer @ ''/'' @ key)
           (key @ '' only applies to a before, after or equalToDateTime matcher; on a combinator it must be repeated inside each leaf'')))
      else if key \<in> set multi_value_keys \<and> \<not> allow_multi then
        Some (refuse pointer (key @ '' quantifies over a key'' @ [CHR 0x27] @
          ''s values, so it is only valid directly under queryParameters or headers''))
      else if key \<in> set multi_value_keys \<and> 1 < length doc then
        Some (refuse pointer (key @ '' is the whole criterion for a key and takes no siblings; found '' @
          join_str '', '' (sorted_keys doc)))
      else if key \<in> set content_patterns \<and> \<not> allow_content then
        Some (refuse pointer (key @ '' compares raw bytes, so it is only valid in bodyPatterns''))
      else Some (compile_one env nested key (the (map_of doc key)) doc pointer))"

text \<open>
  \<^verbatim>\<open>Compile\<close>. \<open>left\<close> counts the levels that may still be opened: at zero the document is nested
  deeper than \<^verbatim>\<open>maxNesting\<close> and is refused before it is read.
\<close>

fun compile_levels :: "compile_env \<Rightarrow> nat \<Rightarrow> bool \<Rightarrow> bool \<Rightarrow> string \<Rightarrow> string \<Rightarrow> compiled" where
  "compile_levels env 0 allow_content allow_multi raw pointer =
     refuse pointer (''matchers may not nest more than '' @ show_nat max_nesting @ '' combinators deep'')"
| "compile_levels env (Suc left) allow_content allow_multi raw pointer =
     (case unmarshal_object raw of
        Invalid \<Rightarrow> refuse pointer (''matcher must be a JSON object: '' @ ce_decode_error env raw)
      | Null \<Rightarrow> refuse pointer ''matcher object is empty''
      | Value [] \<Rightarrow> refuse pointer ''matcher object is empty''
      | Value doc \<Rightarrow>
          (case gather (List.map_filter
                  (compile_key env (compile_levels env left False False) allow_content allow_multi doc pointer)
                  (sorted_keys doc)) of
             Inl ps \<Rightarrow> Inl ps
           | Inr [] \<Rightarrow> refuse pointer (''no recognised matcher in '' @ join_str '', '' (sorted_keys doc))
           | Inr [m] \<Rightarrow> Inr m
           | Inr ms \<Rightarrow> Inr (And ms)))"

definition compile_matcher :: "compile_env \<Rightarrow> bool \<Rightarrow> bool \<Rightarrow> string \<Rightarrow> string \<Rightarrow> compiled" where
  "compile_matcher env allow_content allow_multi raw pointer =
     compile_levels env (Suc max_nesting) allow_content allow_multi raw pointer"


section \<open>What a compiled matcher looks like\<close>

text \<open>
  The positions of the byte-oriented and the multi-value matchers, and the arities of the
  combinators. A conjunction may stand for several keys of one document, so its operands may be
  byte-oriented where the document may.
\<close>

fun well_typed :: "bool \<Rightarrow> bool \<Rightarrow> matcher \<Rightarrow> bool" where
  "well_typed allow_content allow_multi (BinaryEqualTo d s) = allow_content"
| "well_typed allow_content allow_multi (MultiValue ms exact) =
     (allow_multi \<and> (exact \<longrightarrow> ms \<noteq> []) \<and> list_all (well_typed False False) ms)"
| "well_typed allow_content allow_multi (And ms) = (2 \<le> length ms \<and> list_all (well_typed allow_content False) ms)"
| "well_typed allow_content allow_multi (Or ms) = (2 \<le> length ms \<and> list_all (well_typed False False) ms)"
| "well_typed allow_content allow_multi (Not m) = well_typed False False m"
| "well_typed allow_content allow_multi (MatchesJSONPath path inner negate) = pred_option (well_typed False False) inner"
| "well_typed allow_content allow_multi m = True"

fun height :: "matcher \<Rightarrow> nat" where
  "height (MultiValue ms exact) = Suc (foldr (\<lambda>m h. max (height m) h) ms 0)"
| "height (And ms) = Suc (foldr (\<lambda>m h. max (height m) h) ms 0)"
| "height (Or ms) = Suc (foldr (\<lambda>m h. max (height m) h) ms 0)"
| "height (Not m) = Suc (height m)"
| "height (MatchesJSONPath path inner negate) = Suc (case inner of None \<Rightarrow> 0 | Some m \<Rightarrow> height m)"
| "height m = 1"

lemma foldr_max_le: "foldr (\<lambda>m h. max (height m) h) ms 0 \<le> n \<longleftrightarrow> (\<forall>m\<in>set ms. height m \<le> n)"
  by (induction ms) auto

text \<open>
  The date-time and XML compilers build matchers of their own kind. That of \<^verbatim>\<open>matchesXPath\<close> holds the
  inner matcher its clause compiles inside itself, in code that is a parameter here: it counts as
  one leaf, and what is said of operands does not reach into it.
\<close>

definition outside_kinds :: "compile_env \<Rightarrow> bool" where
  "outside_kinds env \<longleftrightarrow>
     (\<forall>key spec m. ce_temporal env key spec = Inr m \<longrightarrow> (\<exists>f d. m = OtherMatcher TemporalKind f d)) \<and>
     (\<forall>s m. ce_xml env s = Some m \<longrightarrow> (\<exists>f d. m = OtherMatcher XMLKind f d)) \<and>
     (\<forall>expr build inner. ce_xpath env expr = Inr build \<longrightarrow> (\<exists>f d. build inner = OtherMatcher XMLKind f d))"

lemma gather_Inr: "gather rs = Inr ms \<longleftrightarrow> rs = map Inr ms"
proof
  show "gather rs = Inr ms \<Longrightarrow> rs = map Inr ms"
    by (induction rs arbitrary: ms rule: gather.induct) (auto split: sum.splits)
  have "gather (map Inr ms) = Inr ms" by (induction ms) simp_all
  then show "rs = map Inr ms \<Longrightarrow> gather rs = Inr ms" by simp
qed

lemma gather_Inl_nonempty:
  "gather rs = Inl ps \<Longrightarrow> (\<And>qs. Inl qs \<in> set rs \<Longrightarrow> qs \<noteq> []) \<Longrightarrow> ps \<noteq> []"
  by (induction rs arbitrary: ps rule: gather.induct) (fastforce split: sum.splits)+

lemma compile_operands_Inr:
  assumes "compile_operands nested here items = Inr ms"
  shows "length ms = length items" and "\<forall>m\<in>set ms. \<exists>item p. nested item p = Inr m"
proof -
  have e: "map (\<lambda>(i, item). nested item (here @ ''/'' @ show_nat i)) (enumerate 0 items) = map Inr ms"
    using assms by (simp add: compile_operands_def gather_Inr)
  then show "length ms = length items" by (metis length_enumerate length_map)
  show "\<forall>m\<in>set ms. \<exists>item p. nested item p = Inr m"
  proof
    fix m assume "m \<in> set ms"
    then have "Inr m \<in> set (map (\<lambda>(i, item). nested item (here @ ''/'' @ show_nat i)) (enumerate 0 items))"
      unfolding e by simp
    then show "\<exists>item p. nested item p = Inr m" by clarsimp (metis)
  qed
qed

text \<open>What the single keys build: leaves, except where an inner matcher is compiled.\<close>

definition leaf :: "matcher \<Rightarrow> bool" where
  "leaf m \<longleftrightarrow> height m = 1 \<and> (\<forall>ac am. well_typed ac am m)"

lemma leaf_simps [simp]:
  "leaf (EqualTo s ci)" "leaf (Contains s negate)" "leaf (Regex p negate)" "leaf Absent"
  "leaf (EqualToJSON j)" "leaf (MatchesJSONSchema v)" "leaf (OtherMatcher k f d)"
  by (simp_all add: leaf_def)

lemma leaf_keys:
  "compile_equal_to_json_key env here doc value = Inr m \<Longrightarrow> leaf m"
  "compile_schema_key env here doc value = Inr m \<Longrightarrow> leaf m"
  "compile_regex_key env here negate s = Inr m \<Longrightarrow> leaf m"
  by (auto simp: compile_equal_to_json_key_def compile_schema_key_def compile_regex_key_def refuse_def Let_def
      split: sum.splits option.splits)

lemma leaf_temporal: "outside_kinds env \<Longrightarrow> compile_temporal_key env pointer key doc s = Inr m \<Longrightarrow> leaf m"
  by (auto simp: compile_temporal_key_def refuse_def outside_kinds_def split: sum.splits prod.splits option.splits)
     (metis leaf_simps(7))

lemma leaf_xpath:
  assumes "outside_kinds env" and "compile_xpath_criterion env nested here value = Inr m"
  shows "leaf m"
proof -
  obtain expr inner build where b: "ce_xpath env expr = Inr build" "with_inner nested here inner build = Inr m"
    using assms(2) by (auto simp: compile_xpath_criterion_def refuse_def split: sum.splits prod.splits)
  then obtain i where "m = build i" by (auto simp: with_inner_def map_sum_Inr_iff split: if_splits)
  then show ?thesis using assms(1) b(1) by (metis leaf_simps(7) outside_kinds_def)
qed

lemma jsonpath_Inr:
  assumes "compile_jsonpath_key env nested here key value = Inr m"
  obtains path negate where "m = MatchesJSONPath path None negate"
  | path negate item k where "m = MatchesJSONPath path (Some k) negate" and "nested item here = Inr k"
  using assms
  by (auto simp: compile_jsonpath_key_def with_inner_def refuse_def map_sum_Inr_iff
      split: option.splits sum.splits prod.splits if_splits)

lemma with_string_Inr: "with_string here detail value f = Inr m \<Longrightarrow> \<exists>s. f s = Inr m"
  by (auto simp: with_string_def refuse_def split: unmarshalled.splits)

lemma with_items_Inr: "with_items here key value f = Inr m \<Longrightarrow> \<exists>items. f items = Inr m"
  by (auto simp: with_items_def refuse_def split: unmarshalled.splits)

text \<open>One step of the compiler, over whatever the nested compiler builds.\<close>

lemma compile_one_cases:
  assumes "compile_one env nested key value doc pointer = Inr m" and "outside_kinds env"
  obtains "leaf m"
  | d s where "key = ''binaryEqualTo''" and "m = BinaryEqualTo d s"
  | "compile_jsonpath_key env nested (pointer @ ''/'' @ key) key value = Inr m"
  | ms items where "key \<in> set multi_value_keys" and "m = MultiValue ms (key = ''hasExactly'')"
      and "compile_operands nested (pointer @ ''/'' @ key) items = Inr ms" and "key = ''hasExactly'' \<longrightarrow> items \<noteq> []"
  | ms items where "m = And ms \<or> m = Or ms" and "compile_operands nested (pointer @ ''/'' @ key) items = Inr ms"
      and "2 \<le> length items"
  | k where "m = Not k" and "nested value (pointer @ ''/'' @ key) = Inr k"
proof -
  have v: "value \<noteq> ''null''" using assms(1) by (auto simp: compile_one_def Let_def refuse_def)
  note one = assms(1) [unfolded compile_one_def Let_def temporal_matcher_keys_def if_not_P [OF v]]
  consider (equal_to) "key = ''equalTo''" | (binary) "key = ''binaryEqualTo''" | (schema) "key = ''matchesJsonSchema''"
    | (temporal) "key = ''before'' \<or> key = ''after'' \<or> key = ''equalToDateTime''" | (contains) "key = ''contains'' \<or> key = ''doesNotContain''"
    | (regex) "key = ''matches'' \<or> key = ''doesNotMatch''" | (absent) "key = ''absent''" | (json) "key = ''equalToJson''"
    | (path) "key = ''matchesJsonPath'' \<or> key = ''doesNotMatchJsonPath''" | (xml) "key = ''equalToXml''"
    | (xpath) "key = ''matchesXPath''" | (multi) "key = ''hasExactly'' \<or> key = ''includes''"
    | (combine) "key = ''and'' \<or> key = ''or''" | (negate) "key = ''not''"
    | (unknown) "\<not> (key = ''equalTo'' \<or> key = ''binaryEqualTo'' \<or> key = ''matchesJsonSchema'' \<or> key = ''before'' \<or> key = ''after'' \<or> key = ''equalToDateTime'' \<or> key = ''contains'' \<or> key = ''doesNotContain'' \<or> key = ''matches'' \<or> key = ''doesNotMatch'' \<or> key = ''absent'' \<or> key = ''equalToJson'' \<or> key = ''matchesJsonPath'' \<or> key = ''doesNotMatchJsonPath'' \<or> key = ''equalToXml'' \<or> key = ''matchesXPath'' \<or> key = ''hasExactly'' \<or> key = ''includes'' \<or> key = ''and'' \<or> key = ''or'' \<or> key = ''not'')"
    by argo
  then show thesis
  proof cases
    case equal_to
    then show ?thesis using one that(1) by (auto dest!: with_string_Inr)
  next
    case binary
    then show ?thesis using one that(2) by (auto simp: refuse_def dest!: with_string_Inr split: option.splits)
  next
    case schema
    then show ?thesis using one that(1) leaf_keys(2) by auto
  next
    case temporal
    then show ?thesis using one that(1) leaf_temporal [OF assms(2)] by (auto dest!: with_string_Inr)
  next
    case contains
    then show ?thesis using one that(1) by (auto dest!: with_string_Inr)
  next
    case regex
    then show ?thesis using one that(1) leaf_keys(3) by (auto dest!: with_string_Inr)
  next
    case absent
    then show ?thesis using one that(1) by (auto simp: refuse_def split: unmarshalled.splits bool.splits)
  next
    case json
    then show ?thesis using one that(1) leaf_keys(1) by auto
  next
    case path
    then show ?thesis using one that(3) by auto
  next
    case xml
    then obtain s m' where "ce_xml env s = Some m'" "m = m'"
      using one by (auto simp: refuse_def dest!: with_string_Inr split: option.splits)
    then show ?thesis using that(1) assms(2) by (metis leaf_simps(7) outside_kinds_def)
  next
    case xpath
    then show ?thesis using one that(1) leaf_xpath [OF assms(2)] by auto
  next
    case multi
    then have "\<exists>items ms. compile_operands nested (pointer @ ''/'' @ key) items = Inr ms \<and>
        m = MultiValue ms (key = ''hasExactly'') \<and> (key = ''hasExactly'' \<longrightarrow> items \<noteq> [])"
    proof (elim disjE)
      assume k: "key = ''hasExactly''"
      show ?thesis using one unfolding k
        by simp (drule with_items_Inr, fastforce simp: refuse_def split: if_splits sum.splits)
    next
      assume k: "key = ''includes''"
      show ?thesis using one unfolding k
        by simp (drule with_items_Inr, fastforce simp: refuse_def split: if_splits sum.splits)
    qed
    moreover have "key \<in> set multi_value_keys" using multi by (auto simp: multi_value_keys_def)
    ultimately show ?thesis using that(4) by blast
  next
    case combine
    then have "\<exists>items ms. compile_operands nested (pointer @ ''/'' @ key) items = Inr ms \<and>
        (m = And ms \<or> m = Or ms) \<and> 2 \<le> length items"
    proof (elim disjE)
      assume k: "key = ''and''"
      show ?thesis using one unfolding k
        by simp (drule with_items_Inr, fastforce simp: refuse_def split: if_splits sum.splits)
    next
      assume k: "key = ''or''"
      show ?thesis using one unfolding k
        by simp (drule with_items_Inr, fastforce simp: refuse_def split: if_splits sum.splits)
    qed
    then show ?thesis using that(5) by blast
  next
    case negate
    then show ?thesis using one that(6) by (auto simp: map_sum_Inr_iff)
  next
    case unknown
    then show ?thesis using one by (simp add: refuse_def)
  qed
qed


lemma compile_one_typed:
  assumes "compile_one env nested key value doc pointer = Inr m" and "outside_kinds env"
    and nested: "\<And>item p m. nested item p = Inr m \<Longrightarrow> well_typed False False m \<and> height m \<le> n"
    and "allow_content \<or> key \<notin> set content_patterns" and "allow_multi \<or> key \<notin> set multi_value_keys"
  shows "well_typed allow_content allow_multi m \<and> height m \<le> Suc n"
  using assms(1,2)
proof (cases rule: compile_one_cases)
  case 1
  then show ?thesis by (simp add: leaf_def)
next
  case (2 d s)
  then show ?thesis using assms(4) by (simp add: content_patterns_def)
next
  case 3
  then show ?thesis using nested by (cases rule: jsonpath_Inr) auto
next
  case (4 ms items)
  have "length ms = length items" "\<forall>k\<in>set ms. well_typed False False k \<and> height k \<le> n"
    using compile_operands_Inr [OF 4(3)] nested by blast+
  then show ?thesis using 4 assms(5) by (auto simp: list_all_iff foldr_max_le)
next
  case (5 ms items)
  have "length ms = length items" "\<forall>k\<in>set ms. well_typed False False k \<and> height k \<le> n"
    using compile_operands_Inr [OF 5(2)] nested by blast+
  moreover have "well_typed ac False k" if "well_typed False False k" for ac k
    using that by (induction "False" "False" k rule: well_typed.induct) (auto simp: list_all_iff)
  ultimately show ?thesis using 5(1,3) by (auto simp: list_all_iff foldr_max_le)
next
  case (6 k)
  then show ?thesis using nested by auto
qed

lemma compile_key_Inr:
  assumes "compile_key env nested allow_content allow_multi doc pointer key = Some (Inr m)"
  shows "compile_one env nested key (the (map_of doc key)) doc pointer = Inr m"
    and "allow_content \<or> key \<notin> set content_patterns"
    and "(allow_multi \<and> length doc \<le> 1) \<or> key \<notin> set multi_value_keys"
  using assms by (auto simp: compile_key_def refuse_def split: if_splits)

lemma map_filter_Inr:
  assumes "List.map_filter f keys = map Inr ms" and "m \<in> set ms"
  obtains key where "key \<in> set keys" and "f key = Some (Inr m)"
proof -
  have "Inr m \<in> set (List.map_filter f keys)" using assms by simp
  then show thesis using that by (auto simp: List.map_filter_def)
qed

lemma length_insert_stable [simp]: "length (insert_stable less x xs) = Suc (length xs)"
  by (induction xs) simp_all

lemma compile_levels_typed:
  assumes "compile_levels env left allow_content allow_multi raw pointer = Inr m" and "outside_kinds env"
  shows "well_typed allow_content allow_multi m \<and> height m \<le> 2 * left"
  using assms(1)
proof (induction left arbitrary: allow_content allow_multi raw pointer m)
  case 0
  then show ?case by (simp add: refuse_def)
next
  case (Suc left)
  let ?nested = "compile_levels env left False False"
  obtain doc ms where d: "unmarshal_object raw = Value doc" "doc \<noteq> []"
    "List.map_filter (compile_key env ?nested allow_content allow_multi doc pointer) (sorted_keys doc) = map Inr ms"
    "m = (case ms of [k] \<Rightarrow> k | _ \<Rightarrow> And ms)" "ms \<noteq> []"
  proof -
    obtain kv rest where doc: "unmarshal_object raw = Value (kv # rest)"
      using Suc.prems by (cases "unmarshal_object raw") (auto simp: refuse_def split: list.splits)
    let ?doc = "kv # rest"
    let ?g = "gather (List.map_filter (compile_key env ?nested allow_content allow_multi ?doc pointer) (sorted_keys ?doc))"
    have g: "(case ?g of
        Inl ps \<Rightarrow> Inl ps
      | Inr [] \<Rightarrow> refuse pointer (''no recognised matcher in '' @ join_str '', '' (sorted_keys ?doc))
      | Inr [m] \<Rightarrow> Inr m
      | Inr ms \<Rightarrow> Inr (And ms)) = Inr m"
      using Suc.prems by (simp add: doc)
    then obtain ms where ms: "?g = Inr ms" by (auto split: sum.splits)
    then have "m = (case ms of [k] \<Rightarrow> k | _ \<Rightarrow> And ms)" "ms \<noteq> []"
      using g by (auto simp: refuse_def split: list.splits)
    then show thesis using that [of ?doc ms] doc ms by (simp add: gather_Inr)
  qed
  have each: "well_typed allow_content (allow_multi \<and> length doc \<le> 1) k \<and> height k \<le> Suc (2 * left)" if k: "k \<in> set ms" for k
  proof -
    obtain key where "compile_key env ?nested allow_content allow_multi doc pointer key = Some (Inr k)"
      using map_filter_Inr [OF d(3) k] by blast
    note key = compile_key_Inr [OF this]
    show ?thesis by (rule compile_one_typed [OF key(1) assms(2) Suc.IH key(2,3)])
  qed
  have "length ms \<le> length doc"
    using arg_cong [OF d(3), of length] by (simp add: List.map_filter_def sorted_keys_def) (metis length_filter_le length_map length_sort_stable)
  show ?case
  proof (cases "length ms = 1")
    case True
    then obtain k where "ms = [k]" by (cases ms) auto
    moreover have "well_typed allow_content allow_multi k" if "well_typed allow_content (allow_multi \<and> b) k" for b
      using that by (cases k) auto
    ultimately show ?thesis using each [of k] d(4) by auto
  next
    case False
    then have "2 \<le> length ms" using d(5) by (cases ms) (auto simp: Suc_le_eq)
    moreover have "m = And ms" using False d(4) by (auto split: list.splits)
    ultimately show ?thesis using each \<open>length ms \<le> length doc\<close> by (auto simp: list_all_iff foldr_max_le)
  qed
qed

section \<open>Refusals say why\<close>

definition explained :: "'a list + 'b \<Rightarrow> bool" where
  "explained r \<longleftrightarrow> (\<forall>ps. r = Inl ps \<longrightarrow> ps \<noteq> [])"

named_theorems explained_intros

lemma explained_basic [explained_intros]:
  "explained (Inr x)" "explained (refuse p d)" "explained (Inl (q # qs))"
  by (simp_all add: explained_def refuse_def)

lemma explained_if [explained_intros]: "explained x \<Longrightarrow> explained y \<Longrightarrow> explained (if b then x else y)"
  by simp

lemma explained_map_sum [explained_intros]: "explained r \<Longrightarrow> explained (map_sum id f r)"
  by (cases r) (auto simp: explained_def)

lemma explained_with_string [explained_intros]: "(\<And>s. explained (f s)) \<Longrightarrow> explained (with_string h d v f)"
  by (auto simp: with_string_def intro: explained_intros split: unmarshalled.split)

lemma explained_with_items [explained_intros]: "(\<And>s. explained (f s)) \<Longrightarrow> explained (with_items h k v f)"
  by (auto simp: with_items_def intro: explained_intros split: unmarshalled.split)

lemma explained_with_inner [explained_intros]: "(\<And>i p. explained (nested i p)) \<Longrightarrow> explained (with_inner nested h inner b)"
  by (auto simp: with_inner_def intro: explained_intros)

lemma explained_gather: "(\<And>r. r \<in> set rs \<Longrightarrow> explained r) \<Longrightarrow> explained (gather rs)"
  using gather_Inl_nonempty by (auto simp: explained_def)

lemma explained_operands: "(\<And>i p. explained (nested i p)) \<Longrightarrow> explained (compile_operands nested h items)"
  unfolding compile_operands_def by (rule explained_gather) auto

lemma explained_one:
  assumes "\<And>i p. explained (nested i p)"
  shows "explained (compile_one env nested key value doc pointer)"
proof -
  have leaves: "explained (compile_schema_key env h doc v)" "explained (compile_temporal_key env pointer key doc s)"
    "explained (compile_regex_key env h b s)" "explained (compile_equal_to_json_key env h doc v)" for h v b s
    by (auto simp: compile_schema_key_def compile_temporal_key_def compile_regex_key_def compile_equal_to_json_key_def
        compile_equal_to_json_def explained_def refuse_def Let_def split: option.splits sum.splits prod.splits if_splits)
  have paths: "explained (compile_jsonpath_key env nested h key v)" "explained (compile_xpath_criterion env nested h v)" for h v
    using explained_with_inner [of nested, OF assms]
    by (auto simp: compile_jsonpath_key_def compile_xpath_criterion_def intro: explained_intros split: option.split sum.split prod.split)
  have operands: "explained (case compile_operands nested h items of Inl ps \<Rightarrow> Inl ps | Inr ms \<Rightarrow> Inr (f ms))" for h items f
    using explained_operands [of nested h items, OF assms] by (auto simp: explained_def split: sum.splits)
  show ?thesis unfolding compile_one_def Let_def
    by (intro explained_intros leaves paths operands assms; auto intro: explained_intros split: option.split unmarshalled.split bool.split)
qed

lemma explained_levels: "explained (compile_levels env left allow_content allow_multi raw pointer)"
proof (induction left arbitrary: allow_content allow_multi raw pointer)
  case 0
  then show ?case by (simp add: explained_basic)
next
  case (Suc left)
  let ?f = "\<lambda>doc. compile_key env (compile_levels env left False False) allow_content allow_multi doc pointer"
  have key: "explained r" if "?f doc key = Some r" for doc key r
    using that explained_one [OF Suc.IH] by (auto simp: compile_key_def intro: explained_basic split: if_splits)
  have "explained (gather (List.map_filter (?f doc) keys))" for doc keys
    by (rule explained_gather) (auto simp: List.map_filter_def intro: key)
  then show ?case
    by (auto simp: explained_basic explained_def refuse_def split: unmarshalled.splits list.splits sum.splits)
qed

text \<open>
  C32. Typing of compiled matchers: binaryEqualTo only where raw bytes are, the multi-value
  operators only where a key has values and nowhere inside, an exact list never empty, combinators
  over at least two matchers; the matcher is at most forty-two levels high, so evaluating it is
  bounded whatever was registered; and a document that is refused is refused with a reason. The
  matcher inside a \<^verbatim>\<open>matchesXPath\<close> is not looked into (\<open>outside_kinds\<close>).
\<close>

theorem compiled_matcher_typed:
  assumes "outside_kinds env"
  shows "(case compile_matcher env allow_content allow_multi raw pointer of
      Inl ps \<Rightarrow> ps \<noteq> [] | Inr m \<Rightarrow> well_typed allow_content allow_multi m \<and> height m \<le> 42)"
proof (cases "compile_matcher env allow_content allow_multi raw pointer")
  case (Inl ps)
  then show ?thesis
    using explained_levels [of env "Suc max_nesting" allow_content allow_multi raw pointer]
    by (simp add: compile_matcher_def explained_def del: compile_levels.simps)
next
  case (Inr m)
  then have "compile_levels env 21 allow_content allow_multi raw pointer = Inr m"
    by (simp add: compile_matcher_def max_nesting_def)
  then show ?thesis using compile_levels_typed [OF _ assms] Inr by fastforce
qed


text \<open>A document of one string field, as text, and engines that refuse everything.\<close>

definition one_field :: "string \<Rightarrow> string \<Rightarrow> string" where
  "one_field k v = ''{'' @ [quote_char] @ k @ [quote_char] @ '':'' @ v @ ''}''"

definition string_text :: "string \<Rightarrow> string" where
  "string_text v = [quote_char] @ v @ [quote_char]"

definition bare_env :: compile_env where
  "bare_env =
     \<lparr>ce_regex = None, ce_jsonpath = None, ce_schema = None, ce_temporal = (\<lambda>_ _. Inl (None, ''none'')),
      ce_xml = (\<lambda>_. None), ce_xpath = (\<lambda>_. Inl ''none''),
      ce_json = \<lparr>jc_decode = (\<lambda>_. None), jc_float = (\<lambda>_. None), jc_marshal = (\<lambda>_. None), jc_quote = (\<lambda>_. None)\<rparr>,
      ce_decode_error = (\<lambda>_. ''invalid''), ce_go_quote = (\<lambda>s. s)\<rparr>"

lemma bare_env_kinds: "outside_kinds bare_env"
  by (simp add: outside_kinds_def bare_env_def)

lemma compile_example:
  "case compile_matcher bare_env False True (one_field ''not'' (one_field ''contains'' (string_text ''a''))) ''/m'' of
     Inr (Not (Contains s negate)) \<Rightarrow> s = ''a'' \<and> \<not> negate | _ \<Rightarrow> False"
  by code_simp

theorem compiled_matcher_typed_witness:
  "(case compile_matcher bare_env False True (one_field ''not'' (one_field ''contains'' (string_text ''a''))) ''/m'' of
     Inl ps \<Rightarrow> ps \<noteq> [] | Inr m \<Rightarrow> well_typed False True m \<and> height m \<le> 42) \<and>
   (case compile_matcher bare_env False True (one_field ''not'' (one_field ''contains'' (string_text ''a''))) ''/m'' of
     Inr (Not (Contains s negate)) \<Rightarrow> s = ''a'' \<and> \<not> negate | _ \<Rightarrow> False)"
  by (rule conjI [OF compiled_matcher_typed [OF bare_env_kinds] compile_example])

end
