(* ===== verification/Stub_Response.thy ===== *)
theory Stub_Response
  imports Response_Wire File_Name Matcher_Compile
begin

text \<open>
  \<^verbatim>\<open>internal/stub/response.go\<close> and \<^verbatim>\<open>settings.go\<close>: the response half of a mapping document, and the
  global settings, from their JSON to the compiled form or to every problem found.
\<close>

section \<open>Steps that collect problems\<close>

text \<open>
  The parts of a document are read one after the other into one compiled value, and each adds what
  it finds wrong to one list. A step answers the problems it adds and the value it leaves.
\<close>

type_synonym 's step = "'s \<Rightarrow> error_list \<times> 's"

definition pass :: "'s step" where "pass s = ([], s)"

definition complain :: "int \<Rightarrow> string \<Rightarrow> string \<Rightarrow> 's step" where
  "complain code pointer detail s = (addf code pointer detail [], s)"

primrec steps :: "'s step list \<Rightarrow> 's step" where
  "steps [] s = ([], s)"
| "steps (p # ps) s = (case p s of (es, t) \<Rightarrow> case steps ps t of (fs, u) \<Rightarrow> (es @ fs, u))"

definition keeps :: "('s \<Rightarrow> bool) \<Rightarrow> 's step \<Rightarrow> bool" where
  "keeps I p \<longleftrightarrow> (\<forall>s t. I s \<longrightarrow> p s = ([], t) \<longrightarrow> I t)"

named_theorems keeps_intros

lemma complain_not_clean [simp]: "complain c p d s \<noteq> ([], t)" "fst (complain c p d s) \<noteq> []"
  by (simp_all add: complain_def)

lemma pass_clean [simp]: "pass s = ([], t) \<longleftrightarrow> s = t" "pass s = (es, t) \<longleftrightarrow> es = [] \<and> s = t"
  by (auto simp: pass_def)

lemma steps_clean [simp]: "steps (p # ps) s = ([], u) \<longleftrightarrow> (\<exists>t. p s = ([], t) \<and> steps ps t = ([], u))"
  by (auto split: prod.splits)

lemma keeps_steps: "(\<And>p. p \<in> set ps \<Longrightarrow> keeps I p) \<Longrightarrow> keeps I (steps ps)"
proof (induction ps)
  case Nil
  then show ?case by (simp add: keeps_def)
next
  case (Cons p ps)
  then have "keeps I p" "keeps I (steps ps)" by simp_all
  then show ?case unfolding keeps_def steps_clean by blast
qed

text \<open>\<^verbatim>\<open>decodeString\<close> and \<^verbatim>\<open>decodeBool\<close>: a JSON null leaves the field as it was.\<close>

definition decode_field ::
    "(string \<Rightarrow> 'a unmarshalled) \<Rightarrow> string \<Rightarrow> raw_object \<Rightarrow> string \<Rightarrow> string \<Rightarrow> ('a \<Rightarrow> 's \<Rightarrow> 's) \<Rightarrow> 's step" where
  "decode_field unmarshal_a what doc field pointer upd s =
     (case map_of doc field of
        None \<Rightarrow> pass s
      | Some v \<Rightarrow>
          (case unmarshal_a v of
             Invalid \<Rightarrow> complain code_malformed pointer (field @ '' must be a '' @ what) s
           | Null \<Rightarrow> pass s
           | Value x \<Rightarrow> pass (upd x s)))"

definition decode_string :: "raw_object \<Rightarrow> string \<Rightarrow> string \<Rightarrow> (string \<Rightarrow> 's \<Rightarrow> 's) \<Rightarrow> 's step" where
  "decode_string = decode_field unmarshal_string ''string''"

definition decode_bool :: "raw_object \<Rightarrow> string \<Rightarrow> string \<Rightarrow> (bool \<Rightarrow> 's \<Rightarrow> 's) \<Rightarrow> 's step" where
  "decode_bool = decode_field unmarshal_bool ''boolean''"

lemma decode_string_clean:
  "decode_string doc field pointer upd s = ([], t) \<Longrightarrow> t = s \<or> (\<exists>x. t = upd x s)"
  by (auto simp: decode_string_def decode_field_def split: option.splits unmarshalled.splits)

section \<open>Decoding into a Go struct\<close>

text \<open>
  Members are taken in document order and land in the field whose name equals the key up to
  Unicode case folding; the only runes outside ASCII that fold to a letter are U+017F and U+212A.
  A pointer field ends as nil or as the last value written; a string field keeps its value over a
  null. Any member that does not fit its field fails the whole decode.
\<close>

definition fold_rune :: "nat \<Rightarrow> nat" where
  "fold_rune r = (if 97 \<le> r \<and> r \<le> 122 then r - 32 else if r = 383 then 83 else if r = 8490 then 75 else r)"

definition same_field :: "string \<Rightarrow> string \<Rightarrow> bool" where
  "same_field key field \<longleftrightarrow> map fold_rune (runes key) = map fold_rune (runes field)"

definition members_for :: "string \<Rightarrow> raw_object \<Rightarrow> string list" where
  "members_for field ms = map snd (filter (\<lambda>m. same_field (fst m) field) ms)"

definition pointer_field :: "(string \<Rightarrow> 'a unmarshalled) \<Rightarrow> string \<Rightarrow> raw_object \<Rightarrow> 'a option option" where
  "pointer_field unmarshal_a field ms =
     (let vs = map unmarshal_a (members_for field ms) in
      if list_ex (\<lambda>v. case v of Invalid \<Rightarrow> True | _ \<Rightarrow> False) vs then None
      else Some (case rev vs of Value x # _ \<Rightarrow> Some x | _ \<Rightarrow> None))"

definition text_field :: "string \<Rightarrow> raw_object \<Rightarrow> string option" where
  "text_field field ms =
     (let vs = map unmarshal_string (members_for field ms) in
      if list_ex (\<lambda>v. case v of Invalid \<Rightarrow> True | _ \<Rightarrow> False) vs then None
      else Some (foldl (\<lambda>acc v. case v of Value x \<Rightarrow> x | _ \<Rightarrow> acc) [] vs))"

definition unmarshal_members :: "string \<Rightarrow> raw_object unmarshalled" where
  "unmarshal_members = unmarshal read_object"

definition struct_members :: "string \<Rightarrow> raw_object option" where
  "struct_members v = (case unmarshal_members v of Invalid \<Rightarrow> None | Null \<Rightarrow> Some [] | Value ms \<Rightarrow> Some ms)"

text \<open>A slice of strings; a null element is the empty string.\<close>

definition read_strings :: "string \<Rightarrow> string list option" where
  "read_strings v =
     Option.bind (read_array v) (\<lambda>items. those (map (\<lambda>item.
        case unmarshal_string item of Invalid \<Rightarrow> None | Null \<Rightarrow> Some [] | Value s \<Rightarrow> Some s) items))"

definition unmarshal_strings :: "string \<Rightarrow> string list unmarshalled" where
  "unmarshal_strings = unmarshal read_strings"

text \<open>A float, through the number reader of the JSON decoder.\<close>

definition unmarshal_float :: "json_codec \<Rightarrow> string \<Rightarrow> rat unmarshalled" where
  "unmarshal_float jc =
     unmarshal (\<lambda>v. if v \<noteq> [] \<and> (is_digit (hd v) \<or> hd v = CHR ''-'') then jc_float jc v else None)"

section \<open>What compiling a stub needs\<close>

text \<open>
  \<^verbatim>\<open>stub.Options\<close> and the third-party functions: the template compiler, absent when templating is
  off, the literal prefix a compiled pattern reports, \<^verbatim>\<open>uuid.Parse\<close> with the canonical spelling, the
  multipart criterion and \<^verbatim>\<open>strings.ToUpper\<close>.
\<close>

record part_pattern =
  pp_name :: string
  pp_all :: bool
  pp_headers :: "key_criterion list"
  pp_body_matchers :: "matcher list"

record 't stub_env =
  se_matchers :: compile_env
  se_template :: "(string \<Rightarrow> string + 't) option"
  se_global_templating :: bool
  se_prefix :: "pattern_matcher \<Rightarrow> string"
  se_uuid :: "string \<Rightarrow> string option"
  se_multipart :: "part_pattern list \<Rightarrow> matcher"
  se_upper :: "string \<Rightarrow> string"
  se_unicode :: unicode

abbreviation go_quote :: "'t stub_env \<Rightarrow> string \<Rightarrow> string" where
  "go_quote env \<equiv> ce_go_quote (se_matchers env)"

section \<open>Status line\<close>

definition supported_response_fields :: "string list" where
  "supported_response_fields =
     [''status'', ''statusMessage'', ''headers'', ''body'', ''jsonBody'', ''base64Body'', ''bodyFileName'',
      ''fixedDelayMilliseconds'', ''delayDistribution'', ''chunkedDribbleDelay'', ''fault'',
      ''transformers'', ''transformerParameters'']"

definition body_fields :: "string list" where
  "body_fields = [''body'', ''jsonBody'', ''base64Body'', ''bodyFileName'']"

definition deferred_fields :: "(string \<times> string) list" where
  "deferred_fields =
     [(''postServeActions'', ''postServeActions (webhooks)''),
      (''serveEventListeners'', ''serveEventListeners''),
      (''insertionIndex'', ''insertionIndex''),
      (''customMatcher'', ''customMatcher''),
      (''proxyBaseUrl'', ''proxyBaseUrl (proxy mode)''),
      (''additionalProxyRequestHeaders'', ''additionalProxyRequestHeaders (proxy mode)''),
      (''removeProxyRequestHeaders'', ''removeProxyRequestHeaders (proxy mode)''),
      (''proxyUrlPrefixToRemove'', ''proxyUrlPrefixToRemove (proxy mode)''),
      (''fromConfiguredStub'', ''fromConfiguredStub (proxy mode)'')]"

definition report_unsupported :: "string \<Rightarrow> string \<Rightarrow> wm_error" where
  "report_unsupported pointer field =
     (case map_of deferred_fields field of
        Some feature \<Rightarrow> unsupported_feature pointer feature
      | None \<Rightarrow> new_field_error code_malformed pointer (''unknown field '' @ field))"

definition unsupported_fields :: "string list \<Rightarrow> string \<Rightarrow> raw_object \<Rightarrow> error_list" where
  "unsupported_fields supported parent doc =
     map (\<lambda>field. report_unsupported (parent @ field) field) (filter (\<lambda>field. field \<notin> set supported) (sorted_keys doc))"

definition phrase_byte :: "nat \<Rightarrow> char" where
  "phrase_byte r = (if r = 13 \<or> r = 10 \<or> 255 < r then CHR ''?'' else char_of r)"

definition reason_phrase :: "string \<Rightarrow> string" where
  "reason_phrase s =
     (if list_all (\<lambda>c. byte_of c < 128 \<and> c \<noteq> CHR 0x0D \<and> c \<noteq> CHR 0x0A) s then s
      else map phrase_byte (runes s))"

definition parse_status :: "raw_object \<Rightarrow> 't compiled_response step" where
  "parse_status doc r =
     (case map_of doc ''status'' of
        None \<Rightarrow> pass r
      | Some v \<Rightarrow>
          (case unmarshal_int64 v of
             Invalid \<Rightarrow> complain code_malformed ''/response/status'' ''status must be an integer'' r
           | x \<Rightarrow>
               (let n = (case x of Value i \<Rightarrow> i | _ \<Rightarrow> cr_status r) in
                if n \<le> 0 then pass (r\<lparr>cr_status := 200\<rparr>)
                else if n < 100 \<or> 599 < n
                then complain code_malformed ''/response/status''
                       (''status '' @ show_int n @ '' is outside the valid HTTP range'') (r\<lparr>cr_status := n\<rparr>)
                else pass (r\<lparr>cr_status := n\<rparr>))))"

definition parse_status_message :: "raw_object \<Rightarrow> 't compiled_response step" where
  "parse_status_message doc r =
     (case decode_string doc ''statusMessage'' ''/response/statusMessage'' (\<lambda>s. cr_status_message_update (\<lambda>_. s))
             (r\<lparr>cr_has_status_message := has_key doc ''statusMessage''\<rparr>) of
        (es, q) \<Rightarrow> (es, q\<lparr>cr_status_message := reason_phrase (cr_status_message q)\<rparr>))"

section \<open>Headers\<close>

text \<open>
  \<^verbatim>\<open>headerEntries\<close>: the members in the order written, a repeated name keeping its first place and
  its last value.
\<close>

definition header_entries :: "string \<Rightarrow> raw_object option" where
  "header_entries v = (case unmarshal_object v of Value ms \<Rightarrow> Some ms | _ \<Rightarrow> None)"

abbreviation lower_name :: "string \<Rightarrow> string" where
  "lower_name \<equiv> map ascii_lower"

type_synonym folded_header = "string \<times> raw_object"

fun add_source :: "string \<times> string \<Rightarrow> folded_header list \<Rightarrow> folded_header list" where
  "add_source e [] = [(fst e, [e])]"
| "add_source e ((n, es) # hs) =
     (if lower_name n = lower_name (fst e) then (n, es @ [e]) # hs else (n, es) # add_source e hs)"

definition fold_header_spellings :: "raw_object \<Rightarrow> folded_header list" where
  "fold_header_spellings entries = foldl (\<lambda>hs e. add_source e hs) [] entries"

text \<open>The values of one entry, or the problem with it.\<close>

definition entry_values :: "string \<times> string \<Rightarrow> wm_error + string list" where
  "entry_values e =
     (case unmarshal_string (snd e) of
        Value s \<Rightarrow> Inr [s]
      | Null \<Rightarrow> Inr [[]]
      | Invalid \<Rightarrow>
          (case unmarshal_strings (snd e) of
             Invalid \<Rightarrow> Inl (new_field_error code_malformed (''/response/headers/'' @ fst e)
               ''a response header value must be a string or an array of strings'')
           | Value (v # vs) \<Rightarrow> Inr (v # vs)
           | _ \<Rightarrow> Inl (new_field_error code_malformed (''/response/headers/'' @ fst e)
               ''a response header value array must not be empty'')))"

definition parse_header :: "unicode \<Rightarrow> folded_header \<Rightarrow> error_list \<times> (string \<times> string) list" where
  "parse_header u h =
     (let (name, sources) = h;
          es = List.map_filter (\<lambda>e. case entry_values e of Inl p \<Rightarrow> Some p | Inr vs \<Rightarrow> None) sources;
          lines = concat (map (\<lambda>e. case entry_values e of Inl p \<Rightarrow> [] | Inr vs \<Rightarrow> map (Pair name) vs) sources)
      in if 1 < length lines \<and> equal_fold u name ''Content-Type''
         then (es @ [new_field_error code_malformed (''/response/headers/'' @ name)
                 (''Content-Type takes a single media type, and this response declares '' @ show_nat (length lines))], [])
         else (es, lines))"

definition parse_response_headers :: "unicode \<Rightarrow> raw_object \<Rightarrow> 't compiled_response step" where
  "parse_response_headers u doc r =
     (case map_of doc ''headers'' of
        None \<Rightarrow> pass r
      | Some v \<Rightarrow>
          (case header_entries v of
             None \<Rightarrow> complain code_malformed ''/response/headers'' ''headers must be a JSON object'' r
           | Some entries \<Rightarrow>
               (let parsed = map (parse_header u) (fold_header_spellings entries) in
                (concat (map fst parsed), r\<lparr>cr_headers := cr_headers r @ concat (map snd parsed)\<rparr>))))"

section \<open>Body, delays and faults\<close>

definition parse_body :: "'t stub_env \<Rightarrow> raw_object \<Rightarrow> 't compiled_response step" where
  "parse_body env doc r =
     (let present = filter (\<lambda>field. case map_of doc field of None \<Rightarrow> False | Some v \<Rightarrow> v \<noteq> ''null'') body_fields in
      case present of
        [] \<Rightarrow> pass r
      | [field] \<Rightarrow>
          (let v = the (map_of doc field);
               here = ''/response/'' @ field;
               with_text = (\<lambda>f. case unmarshal_string v of
                   Invalid \<Rightarrow> complain code_malformed here (field @ '' must be a string'') r
                 | Null \<Rightarrow> f [] | Value s \<Rightarrow> f s)
           in if field = ''body'' then with_text (\<lambda>s. pass (r\<lparr>cr_body := s\<rparr>))
              else if field = ''jsonBody'' then
                (case json_compact v of
                   None \<Rightarrow> complain code_malformed here
                     (''jsonBody is not valid JSON: '' @ ce_decode_error (se_matchers env) v) r
                 | Some c \<Rightarrow> pass (r\<lparr>cr_body := c\<rparr>))
              else if field = ''base64Body'' then
                with_text (\<lambda>s. case decode_base64 s of
                    None \<Rightarrow> complain code_malformed here
                      (''base64Body is not valid base64: '' @ ce_decode_error (se_matchers env) s) r
                  | Some d \<Rightarrow> pass (r\<lparr>cr_body := d\<rparr>))
              else
                with_text (\<lambda>s.
                  if s = [] then complain code_malformed here ''bodyFileName must not be empty'' r
                  else if reject_file_name s \<noteq> [] then
                    complain code_malformed here
                      (''bodyFileName '' @ go_quote env s @ '' is not allowed: '' @ reject_file_name s) r
                  else pass (r\<lparr>cr_body_file_name := s\<rparr>)))
      | _ \<Rightarrow> complain code_malformed ''/response''
               (''exactly one body form may be set, found '' @ join_str '', '' (sort_stable string_less present)) r)"

definition milliseconds :: "int \<Rightarrow> int" where
  "milliseconds ms = wrap64 (ms * 1000000)"

definition no_delay :: delay_distribution where
  "no_delay = \<lparr>dd_kind = DelayNone, dd_lower = 0, dd_upper = 0, dd_median = 0, dd_sigma = 0\<rparr>"

definition parse_delay_distribution :: "'t stub_env \<Rightarrow> string \<Rightarrow> string \<Rightarrow> error_list \<times> delay_distribution" where
  "parse_delay_distribution env v pointer =
     (let refuse_it = (\<lambda>detail. complain code_malformed pointer detail no_delay) in
      case struct_members v of
        None \<Rightarrow> refuse_it ''delayDistribution must be an object''
      | Some ms \<Rightarrow>
          (case (text_field ''type'' ms, pointer_field unmarshal_int64 ''lower'' ms, pointer_field unmarshal_int64 ''upper'' ms,
                 pointer_field unmarshal_int64 ''median'' ms,
                 pointer_field (unmarshal_float (ce_json (se_matchers env))) ''sigma'' ms) of
             (Some kind, Some lower, Some upper, Some median, Some sigma) \<Rightarrow>
               (if kind = ''uniform'' then
                  (case (lower, upper) of
                     (Some lo, Some hi) \<Rightarrow>
                       (if lo < 0 \<or> hi < lo then refuse_it ''a uniform delayDistribution needs 0 <= lower <= upper''
                        else pass (no_delay\<lparr>dd_kind := DelayUniform, dd_lower := milliseconds lo, dd_upper := milliseconds hi\<rparr>))
                   | _ \<Rightarrow> refuse_it ''a uniform delayDistribution needs lower and upper'')
                else if kind = ''lognormal'' then
                  (case (median, sigma) of
                     (Some m, Some s) \<Rightarrow>
                       (if m < 0 \<or> s < 0 then refuse_it ''a lognormal delayDistribution needs a non-negative median and sigma''
                        else pass (no_delay\<lparr>dd_kind := DelayLogNormal, dd_median := milliseconds m, dd_sigma := s\<rparr>))
                   | _ \<Rightarrow> refuse_it ''a lognormal delayDistribution needs median and sigma'')
                else if kind = [] then refuse_it ''delayDistribution needs a type of uniform or lognormal''
                else refuse_it (''unknown delayDistribution type '' @ go_quote env kind @ '', want uniform or lognormal''))
           | _ \<Rightarrow> refuse_it ''delayDistribution must be an object''))"

definition parse_fixed_delay :: "raw_object \<Rightarrow> 't compiled_response step" where
  "parse_fixed_delay doc r =
     (let here = ''/response/fixedDelayMilliseconds'' in
      case map_of doc ''fixedDelayMilliseconds'' of
        None \<Rightarrow> pass r
      | Some v \<Rightarrow>
          (case unmarshal_int64 v of
             Invalid \<Rightarrow> complain code_malformed here ''fixedDelayMilliseconds must be an integer'' r
           | x \<Rightarrow>
               (let ms = (case x of Value i \<Rightarrow> i | _ \<Rightarrow> 0) in
                if ms < 0 then complain code_malformed here ''fixedDelayMilliseconds must not be negative'' r
                else pass (r\<lparr>cr_fixed_delay := milliseconds ms, cr_fixed_delay_set := True\<rparr>))))"

definition parse_dribble :: "raw_object \<Rightarrow> 't compiled_response step" where
  "parse_dribble doc r =
     (let refuse_it = (\<lambda>detail. complain code_malformed ''/response/chunkedDribbleDelay'' detail r) in
      case map_of doc ''chunkedDribbleDelay'' of
        None \<Rightarrow> pass r
      | Some v \<Rightarrow>
          (case struct_members v of
             None \<Rightarrow> refuse_it ''chunkedDribbleDelay must be an object''
           | Some ms \<Rightarrow>
               (case (pointer_field unmarshal_int64 ''numberOfChunks'' ms, pointer_field unmarshal_int64 ''totalDuration'' ms) of
                  (Some (Some n), Some (Some d)) \<Rightarrow>
                    (if n < 1 then refuse_it ''numberOfChunks must be at least 1''
                     else if d < 0 then refuse_it ''totalDuration must not be negative''
                     else pass (r\<lparr>cr_dribble := Some \<lparr>cd_chunks = n, cd_total = milliseconds d\<rparr>\<rparr>))
                | (Some _, Some _) \<Rightarrow> refuse_it ''chunkedDribbleDelay needs numberOfChunks and totalDuration''
                | _ \<Rightarrow> refuse_it ''chunkedDribbleDelay must be an object'')))"

definition parse_random_delay :: "'t stub_env \<Rightarrow> raw_object \<Rightarrow> 't compiled_response step" where
  "parse_random_delay env doc r =
     (case map_of doc ''delayDistribution'' of
        None \<Rightarrow> pass r
      | Some v \<Rightarrow> (case parse_delay_distribution env v ''/response/delayDistribution'' of
                     (es, d) \<Rightarrow> (es, r\<lparr>cr_delay := d\<rparr>)))"

definition parse_delays :: "'t stub_env \<Rightarrow> raw_object \<Rightarrow> 't compiled_response step" where
  "parse_delays env doc = steps [parse_fixed_delay doc, parse_random_delay env doc, parse_dribble doc]"

definition valid_faults :: "string list" where
  "valid_faults = [fault_connection_reset, fault_empty_response, fault_malformed_chunk, fault_random_then_close]"

definition fault_names :: "string list" where
  "fault_names = sort_stable string_less valid_faults"

definition parse_fault :: "'t stub_env \<Rightarrow> raw_object \<Rightarrow> 't compiled_response step" where
  "parse_fault env doc r =
     (case map_of doc ''fault'' of
        None \<Rightarrow> pass r
      | Some v \<Rightarrow>
          (case unmarshal_string v of
             Invalid \<Rightarrow> complain code_malformed ''/response/fault'' ''fault must be a string'' r
           | x \<Rightarrow>
               (let name = (case x of Value s \<Rightarrow> s | _ \<Rightarrow> []) in
                if name \<in> set valid_faults then pass (r\<lparr>cr_fault := name\<rparr>)
                else complain code_malformed ''/response/fault''
                       (''unknown fault '' @ go_quote env name @ '', want one of '' @ join_str '', '' fault_names) r)))"

section \<open>Templating\<close>

definition response_template_transformer :: string where
  "response_template_transformer = ''response-template''"

definition unknown_transformers :: "'t stub_env \<Rightarrow> string list \<Rightarrow> error_list" where
  "unknown_transformers env names =
     map (\<lambda>(i, name). new_field_error code_unknown_transformer (''/response/transformers/'' @ show_nat i)
            (''unknown transformer '' @ go_quote env name @ ''; only '' @ go_quote env response_template_transformer @
             '' is supported''))
       (filter (\<lambda>(i, name). name \<noteq> response_template_transformer) (enumerate 0 names))"

definition parse_transformer_parameters :: "'t stub_env \<Rightarrow> raw_object \<Rightarrow> 't compiled_response step" where
  "parse_transformer_parameters env doc r =
     (case map_of doc ''transformerParameters'' of
        None \<Rightarrow> pass r
      | Some v \<Rightarrow>
          (case json_unmarshal (ce_json (se_matchers env)) v of
             Some (JObject ms) \<Rightarrow> pass (r\<lparr>cr_transformer_parameters := ms\<rparr>)
           | Some JNull \<Rightarrow> pass (r\<lparr>cr_transformer_parameters := []\<rparr>)
           | _ \<Rightarrow> complain code_malformed ''/response/transformerParameters''
                   ''transformerParameters must be a JSON object'' r))"

definition parse_transformers :: "'t stub_env \<Rightarrow> raw_object \<Rightarrow> 't compiled_response step" where
  "parse_transformers env doc r =
     (case map_of doc ''transformers'' of
        None \<Rightarrow> parse_transformer_parameters env doc r
      | Some v \<Rightarrow>
          (case unmarshal_strings v of
             Invalid \<Rightarrow> complain code_malformed ''/response/transformers'' ''transformers must be an array of strings'' r
           | x \<Rightarrow>
               (let names = (case x of Value ns \<Rightarrow> ns | _ \<Rightarrow> []);
                    q = (if response_template_transformer \<in> set names then r\<lparr>cr_templated := True\<rparr> else r)
                in case parse_transformer_parameters env doc q of (es, t) \<Rightarrow> (unknown_transformers env names @ es, t))))"

definition disable_body_templating :: string where
  "disable_body_templating = ''disableBodyTemplating''"

definition is_templated :: "string \<Rightarrow> bool" where
  "is_templated s = contains_str s ''{{''"

definition failed_template :: "nat \<times> string \<times> (string + 't) \<Rightarrow> wm_error option" where
  "failed_template tried =
     (case tried of
        (i, n, Inl err) \<Rightarrow> Some (new_field_error code_template (''/response/headers/'' @ n) err)
      | _ \<Rightarrow> None)"

definition built_template :: "nat \<times> string \<times> (string + 't) \<Rightarrow> (nat \<times> 't) option" where
  "built_template tried = (case tried of (i, n, Inr t) \<Rightarrow> Some (i, t) | _ \<Rightarrow> None)"

definition compile_header_templates ::
    "(string \<Rightarrow> string + 't) \<Rightarrow> (string \<times> string) list \<Rightarrow> error_list \<times> (nat \<times> 't) list" where
  "compile_header_templates compile hs =
     (let tried = map (\<lambda>(i, n, v). (i, n, compile v)) (filter (\<lambda>(i, n, v). is_templated v) (enumerate 0 hs))
      in (List.map_filter failed_template tried, List.map_filter built_template tried))"

definition compile_body_template :: "(string \<Rightarrow> string + 't) \<Rightarrow> bool \<Rightarrow> 't compiled_response step" where
  "compile_body_template compile disabled r =
     (if \<not> disabled \<and> is_templated (cr_body r)
      then (case compile (cr_body r) of
              Inl err \<Rightarrow> complain code_template ''/response/body'' err r
            | Inr t \<Rightarrow> pass (r\<lparr>cr_body_template := Some t\<rparr>))
      else pass r)"

definition compile_templates :: "'t stub_env \<Rightarrow> 't compiled_response step" where
  "compile_templates env r =
     (case se_template env of
        None \<Rightarrow> pass r
      | Some compile \<Rightarrow>
          (if \<not> cr_templated r \<and> \<not> se_global_templating env then pass r
           else
             (let (flag_errors, disabled) =
                    (case map_of (cr_transformer_parameters r) disable_body_templating of
                       None \<Rightarrow> ([], False)
                     | Some (JBool b) \<Rightarrow> ([], b)
                     | Some _ \<Rightarrow> ([new_field_error code_malformed
                           (''/response/transformerParameters/'' @ disable_body_templating)
                           (disable_body_templating @ '' takes a boolean'')], False));
                  (body_errors, q) = compile_body_template compile disabled (r\<lparr>cr_templated := True\<rparr>);
                  (header_errors, ts) = compile_header_templates compile (cr_headers q)
              in (flag_errors @ body_errors @ header_errors, q\<lparr>cr_header_templates := cr_header_templates q @ ts\<rparr>))))"

section \<open>A whole response\<close>

definition empty_response :: "'t compiled_response" where
  "empty_response =
     \<lparr>cr_status = 200, cr_status_message = [], cr_has_status_message = False, cr_headers = [], cr_body = [],
      cr_body_file_name = [], cr_body_file_missing = False, cr_fixed_delay = 0, cr_fixed_delay_set = False,
      cr_delay = no_delay, cr_dribble = None, cr_fault = [], cr_templated = False, cr_body_template = None,
      cr_header_templates = [], cr_transformer_parameters = []\<rparr>"

definition fault_excludes_body :: "'t compiled_response step" where
  "fault_excludes_body r =
     (if cr_fault r \<noteq> [] \<and> cr_body r \<noteq> []
      then complain code_malformed ''/response/fault'' ''a fault replaces the response, so it cannot be combined with a body'' r
      else pass r)"

definition parse_response :: "'t stub_env \<Rightarrow> string option \<Rightarrow> error_list \<times> 't compiled_response" where
  "parse_response env raw =
     (case raw of
        None \<Rightarrow> pass empty_response
      | Some v \<Rightarrow>
          (case unmarshal_object v of
             Invalid \<Rightarrow> complain code_malformed ''/response'' ''response must be a JSON object'' empty_response
           | x \<Rightarrow>
               (let doc = (case x of Value ms \<Rightarrow> ms | _ \<Rightarrow> []) in
                steps
                  [\<lambda>r. (unsupported_fields supported_response_fields ''/response/'' doc, r),
                   parse_status doc, parse_status_message doc, parse_response_headers (se_unicode env) doc,
                   parse_body env doc, parse_delays env doc, parse_fault env doc, parse_transformers env doc,
                   compile_templates env, fault_excludes_body]
                  empty_response)))"

section \<open>Settings\<close>

definition supported_settings_fields :: "string list" where
  "supported_settings_fields = [''fixedDelay'', ''delayDistribution'']"

definition is_null :: "string \<Rightarrow> bool" where
  "is_null v \<longleftrightarrow> trim_space v = ''null''"

definition no_settings :: settings where
  "no_settings = \<lparr>st_fixed_delay = 0, st_delay = no_delay\<rparr>"

definition parse_settings_delay :: "raw_object \<Rightarrow> settings step" where
  "parse_settings_delay doc s =
     (case map_of doc ''fixedDelay'' of
        None \<Rightarrow> pass s
      | Some v \<Rightarrow>
          (if is_null v then pass s
           else case unmarshal_int64 v of
                  Invalid \<Rightarrow> complain code_malformed ''/fixedDelay'' ''fixedDelay must be a whole number of milliseconds'' s
                | x \<Rightarrow>
                    (let ms = (case x of Value i \<Rightarrow> i | _ \<Rightarrow> 0) in
                     if ms < 0 then complain code_malformed ''/fixedDelay'' ''fixedDelay must not be negative'' s
                     else pass (s\<lparr>st_fixed_delay := milliseconds ms\<rparr>))))"

definition compile_settings :: "'t stub_env \<Rightarrow> string \<Rightarrow> error_list + settings" where
  "compile_settings env raw =
     (case unmarshal_object raw of
        Invalid \<Rightarrow> Inl [new_error code_malformed ''settings must be a JSON object'']
      | x \<Rightarrow>
          (let doc = (case x of Value ms \<Rightarrow> ms | _ \<Rightarrow> []);
               (es, s) = steps
                 [\<lambda>s. (map (\<lambda>field. new_field_error code_unknown_setting (''/'' @ field)
                               (''unknown setting '' @ field @ ''; mockulus supports fixedDelay and delayDistribution''))
                           (filter (\<lambda>field. field \<notin> set supported_settings_fields) (sorted_keys doc)), s),
                  parse_settings_delay doc,
                  (\<lambda>s. case map_of doc ''delayDistribution'' of
                         None \<Rightarrow> pass s
                       | Some v \<Rightarrow>
                           (if is_null v then pass s
                            else case parse_delay_distribution env v ''/delayDistribution'' of
                                   (es, d) \<Rightarrow> (es, s\<lparr>st_delay := d\<rparr>)))]
                 no_settings
           in if es \<noteq> [] then Inl es else Inr s))"

section \<open>Header lines keep the order of the document\<close>

definition sources_named :: "string \<Rightarrow> folded_header list \<Rightarrow> raw_object" where
  "sources_named k hs = concat (map snd (filter (\<lambda>h. lower_name (fst h) = k) hs))"

definition spellings_folded :: "folded_header list \<Rightarrow> bool" where
  "spellings_folded hs \<longleftrightarrow>
     distinct (map (\<lambda>h. lower_name (fst h)) hs) \<and>
     (\<forall>(n, es)\<in>set hs. es \<noteq> [] \<and> (\<forall>e\<in>set es. lower_name (fst e) = lower_name n))"

lemma add_source_names:
  "(\<lambda>h. lower_name (fst h)) ` set (add_source e hs) = insert (lower_name (fst e)) ((\<lambda>h. lower_name (fst h)) ` set hs)"
  by (induction e hs rule: add_source.induct) auto

lemma add_source_folded: "spellings_folded hs \<Longrightarrow> spellings_folded (add_source e hs)"
proof (induction e hs rule: add_source.induct)
  case (1 e)
  then show ?case by (simp add: spellings_folded_def)
next
  case (2 e n es hs)
  show ?case
  proof (cases "lower_name n = lower_name (fst e)")
    case True
    then show ?thesis using 2(2) by (auto simp: spellings_folded_def)
  next
    case False
    have tail: "spellings_folded hs" using 2(2) by (simp add: spellings_folded_def)
    have "lower_name n \<notin> (\<lambda>h. lower_name (fst h)) ` set (add_source e hs)"
      using 2(2) False by (simp add: add_source_names spellings_folded_def)
    then show ?thesis using 2(1) [OF False tail] 2(2) False by (simp add: spellings_folded_def)
  qed
qed

lemma add_source_named:
  "spellings_folded hs \<Longrightarrow>
   sources_named k (add_source e hs) = sources_named k hs @ (if lower_name (fst e) = k then [e] else [])"
proof (induction e hs rule: add_source.induct)
  case (2 e n es hs)
  have tail: "spellings_folded hs" using 2(2) by (simp add: spellings_folded_def)
  have once: "sources_named (lower_name n) hs = []"
    using 2(2) by (fastforce simp: spellings_folded_def sources_named_def filter_empty_conv image_iff)
  show ?case
  proof (cases "lower_name n = lower_name (fst e)")
    case True
    then show ?thesis using once
      by (cases "lower_name (fst e) = k") (simp_all add: sources_named_def del: concat_eq_Nil_conv)
  next
    case False
    then show ?thesis using 2(1) [OF False tail] by (simp add: sources_named_def)
  qed
qed (simp add: sources_named_def)

lemma fold_spellings_facts:
  "spellings_folded (fold_header_spellings entries) \<and>
   (\<forall>k. sources_named k (fold_header_spellings entries) = filter (\<lambda>e. lower_name (fst e) = k) entries)"
proof -
  have "spellings_folded (foldl (\<lambda>hs e. add_source e hs) hs es) \<and>
      (\<forall>k. sources_named k (foldl (\<lambda>hs e. add_source e hs) hs es) = sources_named k hs @ filter (\<lambda>e. lower_name (fst e) = k) es)"
    if "spellings_folded hs" for hs es
    using that by (induction es arbitrary: hs) (auto simp: add_source_folded add_source_named)
  from this [of "[]" entries] show ?thesis
    by (simp add: fold_header_spellings_def spellings_folded_def sources_named_def)
qed

definition values_of :: "string \<times> string \<Rightarrow> string list" where
  "values_of e = (case entry_values e of Inl p \<Rightarrow> [] | Inr vs \<Rightarrow> vs)"

definition lines_named :: "string \<Rightarrow> (string \<times> string) list \<Rightarrow> string list" where
  "lines_named k hs = map snd (filter (\<lambda>h. lower_name (fst h) = k) hs)"

lemma lines_named_append [simp]: "lines_named k (a @ b) = lines_named k a @ lines_named k b"
  by (simp add: lines_named_def)

lemma parse_header_clean:
  assumes "parse_header u (n, es) = ([], ls)"
  shows "ls = concat (map (\<lambda>e. map (Pair n) (values_of e)) es)"
    and "equal_fold u n ''Content-Type'' \<Longrightarrow> length ls \<le> 1"
    and "\<forall>e\<in>set es. \<exists>vs. entry_values e = Inr vs"
proof -
  have lines: "map (\<lambda>e. case entry_values e of Inl p \<Rightarrow> [] | Inr vs \<Rightarrow> map (Pair n) vs) es =
      map (\<lambda>e. map (Pair n) (values_of e)) es"
    by (auto simp: values_of_def split: sum.splits)
  show "ls = concat (map (\<lambda>e. map (Pair n) (values_of e)) es)"
    and "equal_fold u n ''Content-Type'' \<Longrightarrow> length ls \<le> 1"
    using assms by (auto simp: parse_header_def lines Let_def split: if_splits)
  have "List.map_filter (\<lambda>e. case entry_values e of Inl p \<Rightarrow> Some p | Inr vs \<Rightarrow> None) es = []"
    using assms by (auto simp: parse_header_def Let_def split: if_splits)
  then have "\<forall>e\<in>set es. \<forall>p. entry_values e \<noteq> Inl p"
    by (auto simp: List.map_filter_def filter_empty_conv split: sum.splits)
  then show "\<forall>e\<in>set es. \<exists>vs. entry_values e = Inr vs"
    by (meson sum.exhaust)
qed

definition header_lines_ok :: "unicode \<Rightarrow> raw_object \<Rightarrow> (string \<times> string) list \<Rightarrow> bool" where
  "header_lines_ok u entries hs \<longleftrightarrow>
     (\<forall>k. lines_named k hs = concat (map values_of (filter (\<lambda>e. lower_name (fst e) = k) entries))) \<and>
     (\<forall>a\<in>set hs. \<forall>b\<in>set hs. lower_name (fst a) = lower_name (fst b) \<longrightarrow> fst a = fst b) \<and>
     length (lines_named ''content-type'' hs) \<le> 1"

lemma ascii_lower_ascii: "ascii_lower c = d \<Longrightarrow> is_ascii d \<Longrightarrow> is_ascii c"
  by (auto simp: ascii_lower_def is_upper_def is_ascii_def split: if_splits)

lemma content_type_fold: "lower_name n = ''content-type'' \<Longrightarrow> equal_fold u n ''Content-Type''"
proof -
  assume n: "lower_name n = ''content-type''"
  have "list_all is_ascii ''content-type''" by code_simp
  then have "list_all is_ascii n"
    using ascii_lower_ascii unfolding n [symmetric] by (auto simp: list_all_iff)
  moreover have "list_all is_ascii ''Content-Type'' \<and> lower_name ''Content-Type'' = ''content-type''" by code_simp
  ultimately show ?thesis using n by (simp add: equal_fold_ascii)
qed

definition header_lines_of :: "folded_header \<Rightarrow> (string \<times> string) list" where
  "header_lines_of h = concat (map (\<lambda>e. map (Pair (fst h)) (values_of e)) (snd h))"

lemma header_lines_of_name: "l \<in> set (header_lines_of h) \<Longrightarrow> fst l = fst h"
  by (auto simp: header_lines_of_def)

lemma lines_named_one:
  "lines_named k (header_lines_of h) = (if lower_name (fst h) = k then concat (map values_of (snd h)) else [])"
proof -
  have "lines_named k (map (Pair (fst h)) vs) = (if lower_name (fst h) = k then vs else [])" for vs
    by (simp add: lines_named_def filter_map comp_def)
  then have "lines_named k (concat (map (\<lambda>e. map (Pair (fst h)) (values_of e)) es)) =
      (if lower_name (fst h) = k then concat (map values_of es) else [])" for es
    by (induction es) (simp_all, simp_all add: lines_named_def)
  then show ?thesis by (simp add: header_lines_of_def)
qed

lemma lines_named_all: "lines_named k (concat (map header_lines_of hs)) = concat (map values_of (sources_named k hs))"
  by (induction hs) (simp_all add: sources_named_def lines_named_one, simp_all add: lines_named_def)

lemma one_content_type:
  assumes "distinct (map (\<lambda>h. lower_name (fst h)) hs)"
    and "\<forall>h\<in>set hs. lower_name (fst h) = k \<longrightarrow> length (header_lines_of h) \<le> 1"
  shows "length (lines_named k (concat (map header_lines_of hs))) \<le> 1"
  using assms
proof (induction hs)
  case (Cons h hs)
  show ?case
  proof (cases "lower_name (fst h) = k")
    case True
    have rest: "sources_named k hs = []"
      using Cons.prems(1) True by (fastforce simp: sources_named_def filter_empty_conv image_iff)
    have "length (lines_named k (header_lines_of h)) \<le> length (header_lines_of h)"
      by (simp add: lines_named_def)
    then show ?thesis using Cons.prems(2) True rest by (simp add: lines_named_all [of k hs])
  next
    case False
    then show ?thesis using Cons by (simp add: lines_named_one)
  qed
qed (simp add: lines_named_def)

lemma parsed_headers_ok:
  assumes "concat (map fst (map (parse_header u) (fold_header_spellings entries))) = []"
  shows "header_lines_ok u entries (concat (map snd (map (parse_header u) (fold_header_spellings entries))))"
proof -
  let ?hs = "fold_header_spellings entries"
  have clean: "snd (parse_header u h) = header_lines_of h \<and>
      (equal_fold u (fst h) ''Content-Type'' \<longrightarrow> length (header_lines_of h) \<le> 1)" if h: "h \<in> set ?hs" for h
  proof -
    have "fst (parse_header u h) = []" using assms h by simp
    then obtain ls where ls: "parse_header u (fst h, snd h) = ([], ls)" by (cases "parse_header u h") auto
    show ?thesis using parse_header_clean(1,2) [OF ls] ls by (auto simp: header_lines_of_def)
  qed
  have out: "map snd (map (parse_header u) ?hs) = map header_lines_of ?hs" using clean by simp
  have folded: "distinct (map (\<lambda>h. lower_name (fst h)) ?hs)"
    and named: "sources_named k ?hs = filter (\<lambda>e. lower_name (fst e) = k) entries" for k
    using fold_spellings_facts by (auto simp: spellings_folded_def)
  have same: "fst a = fst b" if ab: "a \<in> set (concat (map header_lines_of ?hs))" "b \<in> set (concat (map header_lines_of ?hs))"
    "lower_name (fst a) = lower_name (fst b)" for a b
  proof -
    have "\<exists>g\<in>set ?hs. fst x = fst g" if "x \<in> set (concat (map header_lines_of ?hs))" for x
      using that by (force dest: header_lines_of_name)
    then obtain g h where gh: "g \<in> set ?hs" "h \<in> set ?hs" "fst a = fst g" "fst b = fst h"
      using ab(1,2) by blast
    moreover have "g = h" using folded gh ab(3) by (auto simp: distinct_map dest: inj_onD)
    ultimately show ?thesis by simp
  qed
  have "length (lines_named ''content-type'' (concat (map header_lines_of ?hs))) \<le> 1"
  proof (rule one_content_type [OF folded], intro ballI impI)
    fix h assume h: "h \<in> set ?hs" "lower_name (fst h) = ''content-type''"
    show "length (header_lines_of h) \<le> 1" using clean [OF h(1)] content_type_fold [OF h(2), of u] by blast
  qed
  then show ?thesis
    unfolding header_lines_ok_def out using same by (simp only: lines_named_all named) blast
qed

section \<open>What a clean response is\<close>

lemma phrase_byte_not_break: "phrase_byte r \<noteq> CHR 0x0D \<and> phrase_byte r \<noteq> CHR 0x0A"
proof -
  have "of_char (phrase_byte r) \<noteq> (13 :: nat) \<and> of_char (phrase_byte r) \<noteq> (10 :: nat)"
    by (auto simp: phrase_byte_def of_char_of)
  then show ?thesis by auto
qed

lemma reason_phrase_one_line: "one_line (reason_phrase s)"
  using phrase_byte_not_break unfolding reason_phrase_def one_line_def
  by (auto simp: list_all_iff) metis+

text \<open>Read as runes or byte by byte, an ASCII phrase without line breaks is what was registered.\<close>

lemma reason_phrase_ascii: "list_all is_ascii s \<Longrightarrow> one_line s \<Longrightarrow> reason_phrase s = s"
  by (auto simp: reason_phrase_def one_line_def list_all_iff is_ascii_def byte_of_def)

lemma parse_status_clean:
  assumes "parse_status doc r = ([], t)" and "100 \<le> cr_status r \<and> cr_status r \<le> 599"
  shows "\<exists>n. 100 \<le> n \<and> n \<le> 599 \<and> t = r\<lparr>cr_status := n\<rparr>"
proof -
  have "t = r \<or> t = r\<lparr>cr_status := 200\<rparr> \<or> (\<exists>n. t = r\<lparr>cr_status := n\<rparr> \<and> 100 \<le> n \<and> n \<le> 599)"
    using assms
    by (auto simp: parse_status_def Let_def linorder_not_less split: option.splits unmarshalled.splits if_splits)
  then show ?thesis
  proof (elim disjE exE conjE)
    assume "t = r"
    then show ?thesis using assms(2) by (intro exI [of _ "cr_status r"]) simp
  next
    assume "t = r\<lparr>cr_status := 200\<rparr>"
    then show ?thesis by (intro exI [of _ 200]) simp
  next
    fix n assume "t = r\<lparr>cr_status := n\<rparr>" "100 \<le> n" "n \<le> 599"
    then show ?thesis by (intro exI [of _ n]) simp
  qed
qed

lemma parse_status_message_clean:
  assumes "parse_status_message doc r = ([], t)"
  shows "\<exists>m. t = r\<lparr>cr_has_status_message := has_key doc ''statusMessage'', cr_status_message := reason_phrase m\<rparr> \<and>
    (\<not> has_key doc ''statusMessage'' \<longrightarrow> m = cr_status_message r)"
proof -
  let ?q = "r\<lparr>cr_has_status_message := has_key doc ''statusMessage''\<rparr>"
  obtain q where q: "decode_string doc ''statusMessage'' ''/response/statusMessage'' (\<lambda>s. cr_status_message_update (\<lambda>_. s)) ?q = ([], q)"
    and t: "t = q\<lparr>cr_status_message := reason_phrase (cr_status_message q)\<rparr>"
    using assms by (auto simp: parse_status_message_def split: prod.splits)
  have "\<not> has_key doc ''statusMessage'' \<longrightarrow> q = ?q"
    using q by (auto simp: decode_string_def decode_field_def has_key_def split: option.splits)
  moreover have "q = ?q \<or> (\<exists>x. q = ?q\<lparr>cr_status_message := x\<rparr>)" using decode_string_clean [OF q] .
  ultimately show ?thesis unfolding t by (cases "has_key doc ''statusMessage''") auto
qed

definition declared_entries :: "raw_object \<Rightarrow> raw_object" where
  "declared_entries doc =
     (case map_of doc ''headers'' of None \<Rightarrow> [] | Some v \<Rightarrow> (case header_entries v of None \<Rightarrow> [] | Some es \<Rightarrow> es))"

lemma parse_response_headers_clean:
  assumes "parse_response_headers u doc r = ([], t)"
  shows "\<exists>hs. t = r\<lparr>cr_headers := cr_headers r @ hs\<rparr> \<and> header_lines_ok u (declared_entries doc) hs"
proof (cases "map_of doc ''headers''")
  case None
  then have "t = r\<lparr>cr_headers := cr_headers r @ []\<rparr>" using assms by (simp add: parse_response_headers_def)
  moreover have "header_lines_ok u (declared_entries doc) []"
    by (simp add: header_lines_ok_def lines_named_def declared_entries_def None)
  ultimately show ?thesis by blast
next
  case (Some v)
  then obtain entries where e: "header_entries v = Some entries"
    using assms by (auto simp: parse_response_headers_def split: option.splits)
  let ?p = "map (parse_header u) (fold_header_spellings entries)"
  have "concat (map fst ?p) = []" and t: "t = r\<lparr>cr_headers := cr_headers r @ concat (map snd ?p)\<rparr>"
    using assms by (auto simp: parse_response_headers_def Some e Let_def)
  from this(1) have "header_lines_ok u entries (concat (map snd ?p))" by (rule parsed_headers_ok)
  then show ?thesis using t by (auto simp: declared_entries_def Some e)
qed

lemma parse_body_clean:
  assumes "parse_body env doc r = ([], t)" and "cr_body r = []" and "cr_body_file_name r = []"
  shows "\<exists>b f. t = r\<lparr>cr_body := b, cr_body_file_name := f\<rparr> \<and> (f \<noteq> [] \<longrightarrow> b = [] \<and> reject_file_name f = [])"
proof -
  have "(\<exists>b. t = r\<lparr>cr_body := b\<rparr>) \<or> (\<exists>f. t = r\<lparr>cr_body_file_name := f\<rparr> \<and> reject_file_name f = []) \<or> t = r"
    using assms(1)
    by (auto simp: parse_body_def Let_def split: list.splits if_splits unmarshalled.splits option.splits)
  then consider b where "t = r\<lparr>cr_body := b\<rparr>" | f where "t = r\<lparr>cr_body_file_name := f\<rparr>" "reject_file_name f = []" | "t = r"
    by blast
  then show ?thesis
  proof cases
    case (1 b)
    then show ?thesis using assms(3) by (intro exI [of _ b] exI [of _ "[]"]) simp
  next
    case (2 f)
    then show ?thesis using assms(2) by (intro exI [of _ "[]"] exI [of _ f]) simp
  next
    case 3
    then show ?thesis using assms(2,3) by (intro exI [of _ "[]"]) simp
  qed
qed

definition delays_ok :: "'t compiled_response \<Rightarrow> bool" where
  "delays_ok r \<longleftrightarrow>
     - (2 ^ 63) \<le> cr_fixed_delay r \<and> cr_fixed_delay r < 2 ^ 63 \<and> (\<not> cr_fixed_delay_set r \<longrightarrow> cr_fixed_delay r = 0) \<and>
     0 \<le> dd_sigma (cr_delay r) \<and> pred_option (\<lambda>c. 1 \<le> cd_chunks c) (cr_dribble r)"

lemma parse_fixed_delay_clean:
  assumes "parse_fixed_delay doc r = ([], t)" and "delays_ok r"
  shows "\<exists>x b. t = r\<lparr>cr_fixed_delay := x, cr_fixed_delay_set := b\<rparr> \<and> delays_ok t"
proof -
  have "t = r \<or> (\<exists>ms. t = r\<lparr>cr_fixed_delay := milliseconds ms, cr_fixed_delay_set := True\<rparr>)"
    using assms(1) by (auto simp: parse_fixed_delay_def Let_def split: option.splits unmarshalled.splits if_splits)
  then show ?thesis
  proof (elim disjE exE)
    assume "t = r"
    then show ?thesis using assms(2) by (intro exI [of _ "cr_fixed_delay r"] exI [of _ "cr_fixed_delay_set r"]) simp
  next
    fix ms assume "t = r\<lparr>cr_fixed_delay := milliseconds ms, cr_fixed_delay_set := True\<rparr>"
    then show ?thesis using assms(2) wrap64_bounds [of "ms * 1000000"] by (auto simp: delays_ok_def milliseconds_def)
  qed
qed

lemma parse_delay_distribution_sigma: "parse_delay_distribution env v p = ([], d) \<Longrightarrow> 0 \<le> dd_sigma d"
  by (auto simp: parse_delay_distribution_def no_delay_def Let_def split: option.splits prod.splits if_splits)

lemma parse_dribble_clean:
  assumes "parse_dribble doc r = ([], t)" and "delays_ok r"
  shows "\<exists>d. t = r\<lparr>cr_dribble := d\<rparr> \<and> delays_ok t"
proof -
  have "t = r \<or> (\<exists>n d. t = r\<lparr>cr_dribble := Some \<lparr>cd_chunks = n, cd_total = d\<rparr>\<rparr> \<and> 1 \<le> n)"
    using assms(1) by (auto simp: parse_dribble_def Let_def split: option.splits if_splits)
  then show ?thesis
  proof (elim disjE exE conjE)
    assume "t = r"
    then show ?thesis using assms(2) by (intro exI [of _ "cr_dribble r"]) simp
  qed (use assms(2) in \<open>auto simp: delays_ok_def\<close>)
qed

lemma parse_delays_clean:
  assumes "parse_delays env doc r = ([], t)" and "delays_ok r"
  shows "\<exists>x b d c. t = r\<lparr>cr_fixed_delay := x, cr_fixed_delay_set := b, cr_delay := d, cr_dribble := c\<rparr> \<and> delays_ok t"
proof -
  obtain r1 r2 where s: "parse_fixed_delay doc r = ([], r1)" "parse_random_delay env doc r1 = ([], r2)"
    "parse_dribble doc r2 = ([], t)"
    using assms(1) by (auto simp: parse_delays_def simp del: steps.simps(2))
  obtain x b where r1: "r1 = r\<lparr>cr_fixed_delay := x, cr_fixed_delay_set := b\<rparr>" "delays_ok r1"
    using parse_fixed_delay_clean [OF s(1) assms(2)] by blast
  have "\<exists>d. r2 = r1\<lparr>cr_delay := d\<rparr> \<and> delays_ok r2"
  proof (cases "map_of doc ''delayDistribution''")
    case None
    then show ?thesis using s(2) r1(2) by (intro exI [of _ "cr_delay r1"]) (simp add: parse_random_delay_def)
  next
    case (Some v)
    then obtain d where "parse_delay_distribution env v ''/response/delayDistribution'' = ([], d)" "r2 = r1\<lparr>cr_delay := d\<rparr>"
      using s(2) by (auto simp: parse_random_delay_def split: prod.splits)
    then show ?thesis using r1(2) parse_delay_distribution_sigma by (auto simp: delays_ok_def)
  qed
  then obtain d where r2: "r2 = r1\<lparr>cr_delay := d\<rparr>" "delays_ok r2" by blast
  obtain c where "t = r2\<lparr>cr_dribble := c\<rparr>" "delays_ok t" using parse_dribble_clean [OF s(3) r2(2)] by blast
  then show ?thesis unfolding r2(1) r1(1) by (intro exI [of _ x] exI [of _ b] exI [of _ d] exI [of _ c]) simp
qed

lemma parse_fault_clean:
  assumes "parse_fault env doc r = ([], t)" and "cr_fault r = []"
  shows "\<exists>f. t = r\<lparr>cr_fault := f\<rparr> \<and> (f = [] \<or> f \<in> set valid_faults)"
proof -
  have "t = r \<or> (\<exists>f. t = r\<lparr>cr_fault := f\<rparr> \<and> f \<in> set valid_faults)"
    using assms(1) by (auto simp: parse_fault_def Let_def split: option.splits unmarshalled.splits if_splits)
  then show ?thesis
  proof (elim disjE exE conjE)
    assume "t = r"
    then show ?thesis using assms(2) by (intro exI [of _ "[]"]) simp
  qed auto
qed

lemma parse_transformers_clean:
  assumes "parse_transformers env doc r = ([], t)"
  shows "\<exists>b ps. t = r\<lparr>cr_templated := b, cr_transformer_parameters := ps\<rparr>"
proof -
  have params: "\<exists>ps. t = q\<lparr>cr_transformer_parameters := ps\<rparr>" if "parse_transformer_parameters env doc q = (es, t)" for q es
  proof -
    have "t = q \<or> (\<exists>ps. t = q\<lparr>cr_transformer_parameters := ps\<rparr>)"
      using that by (auto simp: parse_transformer_parameters_def complain_def split: option.splits json.splits)
    then show ?thesis
      by (elim disjE) (rule exI [of _ "cr_transformer_parameters q"], simp, blast)
  qed
  have "\<exists>q. (q = r \<or> q = r\<lparr>cr_templated := True\<rparr>) \<and> (\<exists>es. parse_transformer_parameters env doc q = (es, t))"
    using assms
    by (auto simp: parse_transformers_def Let_def split: option.splits unmarshalled.splits prod.splits if_splits)
  then obtain q es where q: "q = r \<or> q = r\<lparr>cr_templated := True\<rparr>" and "parse_transformer_parameters env doc q = (es, t)"
    by blast
  then obtain ps where t: "t = q\<lparr>cr_transformer_parameters := ps\<rparr>" using params by blast
  from q show ?thesis
  proof
    assume "q = r"
    then show ?thesis unfolding t by (intro exI [of _ "cr_templated r"] exI [of _ ps]) simp
  qed (auto simp: t)
qed

text \<open>Without an error every line with template syntax has its template, in order, and no other.\<close>

lemma compile_header_templates_clean:
  assumes "compile_header_templates compile hs = ([], ts)"
  shows "map fst ts = filter (\<lambda>i. is_templated (snd (hs ! i))) [0..<length hs]"
proof -
  define picked where "picked = filter (\<lambda>(i, n, v). is_templated v) (enumerate 0 hs)"
  define tried where "tried = map (\<lambda>(i, n, v). (i, n, compile v)) picked"
  have none: "List.map_filter failed_template tried = []" and ts: "ts = List.map_filter built_template tried"
    using assms by (simp_all add: compile_header_templates_def Let_def picked_def tried_def)
  have "map fst (List.map_filter built_template l) = map fst l" if "List.map_filter failed_template l = []"
    for l :: "(nat \<times> string \<times> (string + 'a)) list"
    using that
    by (induction l) (auto simp: List.map_filter_simps failed_template_def built_template_def split: sum.splits)
  from this [OF none] have "map fst ts = map fst tried" by (simp add: ts)
  also have "\<dots> = map fst picked" by (simp add: tried_def case_prod_beta comp_def)
  also have "\<dots> = filter (\<lambda>i. is_templated (snd (hs ! i))) [0..<length hs]"
  proof -
    have "enumerate 0 hs = map (\<lambda>i. (i, hs ! i)) [0..<length hs]"
      by (rule nth_equalityI) (simp_all add: nth_enumerate_eq)
    then show ?thesis by (simp add: picked_def filter_map comp_def case_prod_beta)
  qed
  finally show ?thesis .
qed

definition templates_ok :: "'t compiled_response \<Rightarrow> bool" where
  "templates_ok r \<longleftrightarrow>
     (\<forall>(i, t)\<in>set (cr_header_templates r). i < length (cr_headers r) \<and> is_templated (snd (cr_headers r ! i))) \<and>
     sorted_wrt (<) (map fst (cr_header_templates r)) \<and>
     (cr_body_template r \<noteq> None \<longrightarrow> is_templated (cr_body r)) \<and>
     (cr_body_template r \<noteq> None \<or> cr_header_templates r \<noteq> [] \<longrightarrow> cr_templated r)"

lemma compile_templates_clean:
  assumes "compile_templates env r = ([], t)" and "cr_header_templates r = []" and "cr_body_template r = None"
  shows "\<exists>b x ts. t = r\<lparr>cr_templated := b, cr_body_template := x, cr_header_templates := ts\<rparr> \<and> templates_ok t"
proof (cases "se_template env = None \<or> (\<not> cr_templated r \<and> \<not> se_global_templating env)")
  case True
  then have "t = r" using assms(1) by (auto simp: compile_templates_def split: option.splits)
  then show ?thesis using assms(2,3)
    by (intro exI [of _ "cr_templated r"] exI [of _ None] exI [of _ "[]"]) (simp add: templates_ok_def)
next
  case False
  then obtain compile where c: "se_template env = Some compile" by auto
  let ?r = "r\<lparr>cr_templated := True\<rparr>"
  obtain disabled q ts where q: "compile_body_template compile disabled ?r = ([], q)"
    and ts: "compile_header_templates compile (cr_headers q) = ([], ts)"
    and t: "t = q\<lparr>cr_header_templates := cr_header_templates q @ ts\<rparr>"
    using assms(1) False by (auto simp: compile_templates_def c split: prod.splits)
  have "q = ?r \<or> (\<exists>x. q = ?r\<lparr>cr_body_template := Some x\<rparr> \<and> is_templated (cr_body r))"
    using q by (auto simp: compile_body_template_def split: if_splits sum.splits)
  then have q': "\<exists>x. q = ?r\<lparr>cr_body_template := x\<rparr> \<and> (x \<noteq> None \<longrightarrow> is_templated (cr_body r))"
    using assms(3) by (elim disjE exE conjE) (rule exI [of _ None], simp, blast)
  then obtain x where x: "q = ?r\<lparr>cr_body_template := x\<rparr>" "x \<noteq> None \<longrightarrow> is_templated (cr_body r)" by blast
  have idx: "map fst ts = filter (\<lambda>i. is_templated (snd (cr_headers r ! i))) [0..<length (cr_headers r)]"
    using compile_header_templates_clean [OF ts] by (simp add: x(1))
  have "i < length (cr_headers r) \<and> is_templated (snd (cr_headers r ! i))" if "(i, tpl) \<in> set ts" for i tpl
  proof -
    have "i \<in> set (map fst ts)" using that by force
    then show ?thesis unfolding idx by simp
  qed
  moreover have "sorted_wrt (<) (map fst ts)" unfolding idx by (simp add: sorted_wrt_filter)
  ultimately have "templates_ok t" using assms(2) x(2) by (auto simp: templates_ok_def t x(1))
  moreover have "t = r\<lparr>cr_templated := True, cr_body_template := x, cr_header_templates := ts\<rparr>"
    using assms(2) by (simp add: t x(1))
  ultimately show ?thesis by blast
qed

definition response_ok :: "'t compiled_response \<Rightarrow> bool" where
  "response_ok r \<longleftrightarrow>
     100 \<le> cr_status r \<and> cr_status r \<le> 599 \<and> one_line (cr_status_message r) \<and>
     (\<not> cr_has_status_message r \<longrightarrow> cr_status_message r = []) \<and>
     (cr_body_file_name r \<noteq> [] \<longrightarrow> cr_body r = [] \<and> reject_file_name (cr_body_file_name r) = []) \<and>
     \<not> cr_body_file_missing r \<and> delays_ok r \<and>
     (cr_fault r \<noteq> [] \<longrightarrow> cr_fault r \<in> set valid_faults \<and> cr_body r = []) \<and> templates_ok r"

definition response_document :: "string option \<Rightarrow> raw_object" where
  "response_document raw =
     (case raw of None \<Rightarrow> [] | Some v \<Rightarrow> (case unmarshal_object v of Value doc \<Rightarrow> doc | _ \<Rightarrow> []))"

lemma parse_response_ok:
  assumes "parse_response env raw = ([], r)"
  shows "response_ok r \<and> header_lines_ok (se_unicode env) (declared_entries (response_document raw)) (cr_headers r)"
proof (cases "raw = None")
  case True
  then show ?thesis
    using assms
    by (auto simp: parse_response_def response_document_def declared_entries_def empty_response_def response_ok_def
        templates_ok_def delays_ok_def header_lines_ok_def lines_named_def no_delay_def)
next
  case False
  let ?doc = "response_document raw"
  have "steps
      [\<lambda>r. (unsupported_fields supported_response_fields ''/response/'' ?doc, r),
       parse_status ?doc, parse_status_message ?doc, parse_response_headers (se_unicode env) ?doc,
       parse_body env ?doc, parse_delays env ?doc, parse_fault env ?doc, parse_transformers env ?doc,
       compile_templates env, fault_excludes_body] empty_response = ([], r)"
    using assms False
    by (auto simp: parse_response_def response_document_def simp del: steps.simps(2) split: option.splits unmarshalled.splits)
  then obtain r1 r2 r3 r4 r5 r6 r7 r8 where
    s: "parse_status ?doc empty_response = ([], r1)" "parse_status_message ?doc r1 = ([], r2)"
    "parse_response_headers (se_unicode env) ?doc r2 = ([], r3)" "parse_body env ?doc r3 = ([], r4)"
    "parse_delays env ?doc r4 = ([], r5)" "parse_fault env ?doc r5 = ([], r6)"
    "parse_transformers env ?doc r6 = ([], r7)" "compile_templates env r7 = ([], r8)" "fault_excludes_body r8 = ([], r)"
    by (auto simp del: steps.simps(2))
  obtain n where n: "100 \<le> n" "n \<le> 599" "r1 = empty_response\<lparr>cr_status := n\<rparr>"
    using parse_status_clean [OF s(1)] by (auto simp: empty_response_def)
  obtain m where m: "r2 = r1\<lparr>cr_has_status_message := has_key ?doc ''statusMessage'', cr_status_message := reason_phrase m\<rparr>"
    "\<not> has_key ?doc ''statusMessage'' \<longrightarrow> m = []"
    using parse_status_message_clean [OF s(2)] by (auto simp: n(3) empty_response_def)
  obtain hs where h: "r3 = r2\<lparr>cr_headers := hs\<rparr>" "header_lines_ok (se_unicode env) (declared_entries ?doc) hs"
    using parse_response_headers_clean [OF s(3)] by (auto simp: m(1) n(3) empty_response_def)
  obtain b f where b: "r4 = r3\<lparr>cr_body := b, cr_body_file_name := f\<rparr>" "f \<noteq> [] \<longrightarrow> b = [] \<and> reject_file_name f = []"
    using parse_body_clean [OF s(4)] by (auto simp: h(1) m(1) n(3) empty_response_def)
  have "delays_ok r4" by (simp add: delays_ok_def b(1) h(1) m(1) n(3) empty_response_def no_delay_def)
  then obtain x y d c where d: "r5 = r4\<lparr>cr_fixed_delay := x, cr_fixed_delay_set := y, cr_delay := d, cr_dribble := c\<rparr>"
    "delays_ok r5"
    using parse_delays_clean [OF s(5)] by blast
  obtain g where g: "r6 = r5\<lparr>cr_fault := g\<rparr>" "g = [] \<or> g \<in> set valid_faults"
    using parse_fault_clean [OF s(6)] by (auto simp: d(1) b(1) h(1) m(1) n(3) empty_response_def)
  obtain z ps where z: "r7 = r6\<lparr>cr_templated := z, cr_transformer_parameters := ps\<rparr>"
    using parse_transformers_clean [OF s(7)] by blast
  have "cr_header_templates r7 = []" "cr_body_template r7 = None"
    by (simp_all add: z g(1) d(1) b(1) h(1) m(1) n(3) empty_response_def)
  from compile_templates_clean [OF s(8) this] obtain w v ts where
    t: "r8 = r7\<lparr>cr_templated := w, cr_body_template := v, cr_header_templates := ts\<rparr>" "templates_ok r8" by blast
  have r: "r = r8" and no_body: "cr_fault r8 \<noteq> [] \<longrightarrow> cr_body r8 = []"
    using s(9) by (auto simp: fault_excludes_body_def split: if_splits)
  note shape = t(1) z g(1) d(1) b(1) h(1) m(1) n(3) empty_response_def
  have "delays_ok r" using d(2) by (simp add: r t(1) z g(1) delays_ok_def)
  moreover have "\<not> cr_has_status_message r \<longrightarrow> cr_status_message r = []" using m(2) by (simp add: r shape reason_phrase_def)
  moreover have "one_line (cr_status_message r)" by (simp add: r shape reason_phrase_one_line)
  moreover have "cr_fault r \<noteq> [] \<longrightarrow> cr_fault r \<in> set valid_faults" using g(2) by (simp add: r shape) blast
  moreover have "100 \<le> cr_status r" "cr_status r \<le> 599" "\<not> cr_body_file_missing r" "cr_headers r = hs"
    "cr_body_file_name r \<noteq> [] \<longrightarrow> cr_body r = [] \<and> reject_file_name (cr_body_file_name r) = []"
    using n(1,2) b(2) by (simp_all add: r shape)
  ultimately show ?thesis using t(2) no_body h(2) by (simp add: response_ok_def r)
qed

end
