(* ===== verification/Stub_Compile.thy ===== *)
theory Stub_Compile
  imports Stub_Response
begin

text \<open>
  \<^verbatim>\<open>internal/stub/mapping.go\<close>: a whole mapping document, from its JSON to the compiled stub the engine
  serves from, or to every problem found in it.
\<close>

definition default_priority :: int where "default_priority = 5"

definition supported_top_level :: "string list" where
  "supported_top_level =
     [''id'', ''uuid'', ''name'', ''priority'', ''persistent'', ''metadata'', ''request'', ''response'',
      ''scenarioName'', ''requiredScenarioState'', ''newScenarioState'']"

definition supported_request_fields :: "string list" where
  "supported_request_fields =
     [''multipartPatterns'', ''method'', ''url'', ''urlPattern'', ''urlPath'', ''urlPathPattern'', ''urlPathTemplate'',
      ''pathParameters'', ''queryParameters'', ''headers'', ''cookies'', ''host'', ''port'', ''scheme'',
      ''formParameters'', ''basicAuthCredentials'', ''bodyPatterns'']"

definition matcher_options ::
    "'t stub_env \<Rightarrow> bool \<Rightarrow> bool \<Rightarrow> string \<Rightarrow> string \<Rightarrow> string problem list + matcher" where
  "matcher_options env allow_content allow_multi = compile_matcher (se_matchers env) allow_content allow_multi"

text \<open>\<^verbatim>\<open>addMatcherProblems\<close>.\<close>

definition matcher_error :: "string problem \<Rightarrow> wm_error" where
  "matcher_error p =
     (case pb_kind p of
        ProblemDeferred \<Rightarrow> unsupported_feature (pb_pointer p) (pb_feature p)
      | ProblemSchema \<Rightarrow> new_field_error code_invalid_schema (pb_pointer p) (pb_detail p)
      | ProblemRegex \<Rightarrow> new_field_error code_regex (pb_pointer p) (pb_detail p)
      | _ \<Rightarrow> new_field_error code_malformed (pb_pointer p) (pb_detail p))"

definition add_matcher_problems :: "string problem list \<Rightarrow> error_list" where
  "add_matcher_problems ps = map matcher_error ps"

section \<open>Identity, priority and scenario\<close>

definition canonical_uuid_len :: nat where "canonical_uuid_len = 36"

definition parse_identity_field :: "'t stub_env \<Rightarrow> raw_object \<Rightarrow> string \<Rightarrow> 't compiled_stub step" where
  "parse_identity_field env doc field cs =
     (let refuse_it = (\<lambda>detail. complain code_malformed (''/'' @ field) detail cs) in
      case map_of doc field of
        None \<Rightarrow> pass cs
      | Some v \<Rightarrow>
          (case unmarshal_string v of
             Invalid \<Rightarrow> refuse_it (field @ '' must be a string'')
           | Null \<Rightarrow> pass cs
           | Value s \<Rightarrow>
               (if s = [] then pass cs
                else case se_uuid env s of
                       None \<Rightarrow> refuse_it (field @ '' must be a canonical 36-character UUID'')
                     | Some canonical \<Rightarrow>
                         (if length s \<noteq> canonical_uuid_len
                          then refuse_it (field @ '' must be a canonical 36-character UUID'')
                          else if cs_id cs \<noteq> [] \<and> cs_id cs \<noteq> canonical
                          then refuse_it ''id and uuid are aliases and must not disagree''
                          else pass (cs\<lparr>cs_id := canonical\<rparr>)))))"

definition parse_identity :: "'t stub_env \<Rightarrow> raw_object \<Rightarrow> 't compiled_stub step" where
  "parse_identity env doc = steps [parse_identity_field env doc ''id'', parse_identity_field env doc ''uuid'']"

definition metadata_of :: "string option \<Rightarrow> string" where
  "metadata_of raw = (case raw of None \<Rightarrow> [] | Some v \<Rightarrow> if v = ''null'' then [] else v)"

text \<open>\<^verbatim>\<open>Metadata\<close> of a stored document; the empty text is Go's nil.\<close>

definition stub_metadata :: "string \<Rightarrow> string" where
  "stub_metadata raw =
     (case struct_members raw of
        None \<Rightarrow> []
      | Some ms \<Rightarrow> metadata_of (case rev (members_for ''metadata'' ms) of [] \<Rightarrow> None | v # _ \<Rightarrow> Some v))"

definition parse_priority :: "raw_object \<Rightarrow> 't compiled_stub step" where
  "parse_priority doc cs =
     (case map_of doc ''priority'' of
        None \<Rightarrow> pass cs
      | Some v \<Rightarrow>
          (case unmarshal_int32 v of
             Invalid \<Rightarrow> complain code_malformed ''/priority'' ''priority must be an integer'' cs
           | Null \<Rightarrow> pass (cs\<lparr>cs_priority := 0\<rparr>)
           | Value p \<Rightarrow> pass (cs\<lparr>cs_priority := p\<rparr>)))"

definition scenario_fields :: "raw_object \<Rightarrow> scenario_ref step" where
  "scenario_fields doc =
     steps
       [decode_string doc ''scenarioName'' ''/scenarioName'' (\<lambda>s. sr_name_update (\<lambda>_. s)),
        decode_string doc ''requiredScenarioState'' ''/requiredScenarioState'' (\<lambda>s. sr_required_state_update (\<lambda>_. s)),
        decode_string doc ''newScenarioState'' ''/newScenarioState'' (\<lambda>s. sr_new_state_update (\<lambda>_. s))]"

definition parse_scenario :: "raw_object \<Rightarrow> 't compiled_stub step" where
  "parse_scenario doc cs =
     (case scenario_fields doc \<lparr>sr_name = [], sr_required_state = [], sr_new_state = []\<rparr> of
        (es, ref) \<Rightarrow>
          (if sr_name ref = [] then
             (es @
              (if sr_required_state ref \<noteq> []
               then addf code_malformed ''/requiredScenarioState'' ''requiredScenarioState needs a scenarioName'' [] else []) @
              (if sr_new_state ref \<noteq> []
               then addf code_malformed ''/newScenarioState'' ''newScenarioState needs a scenarioName'' [] else []), cs)
           else (es, cs\<lparr>cs_scenario := Some ref\<rparr>)))"

section \<open>Method and URL\<close>

definition to_upper :: "'t stub_env \<Rightarrow> string \<Rightarrow> string" where
  "to_upper env s = (if list_all is_ascii s then map ascii_upper s else se_upper env s)"

definition parse_method :: "'t stub_env \<Rightarrow> raw_object \<Rightarrow> 't compiled_stub step" where
  "parse_method env doc cs =
     (case decode_string doc ''method'' ''/request/method'' (\<lambda>s _. s) [] of
        (es, raw) \<Rightarrow>
          (let m = to_upper env (trim_space raw) in (es, cs\<lparr>cs_method := (if m = ''ANY'' then [] else m)\<rparr>)))"

definition url_fields :: "(string \<times> url_kind) list" where
  "url_fields =
     [(''url'', URLExactFull), (''urlPath'', URLExactPath), (''urlPattern'', URLPatternFull),
      (''urlPathPattern'', URLPatternPath), (''urlPathTemplate'', URLTemplate)]"

text \<open>The URL criteria the document states, in the order of the table, and the ones that are no strings.\<close>

definition url_criterion :: "raw_object \<Rightarrow> string \<times> url_kind \<Rightarrow> (wm_error + string \<times> url_kind \<times> string) option" where
  "url_criterion doc uf =
     (case map_of doc (fst uf) of
        None \<Rightarrow> None
      | Some v \<Rightarrow>
          (case unmarshal_string v of
             Invalid \<Rightarrow> Some (Inl (new_field_error code_malformed (''/request/'' @ fst uf) (fst uf @ '' must be a string'')))
           | Null \<Rightarrow> Some (Inr (fst uf, snd uf, []))
           | Value s \<Rightarrow> Some (Inr (fst uf, snd uf, s))))"

definition template_error_text :: "'t stub_env \<Rightarrow> string \<Rightarrow> template_error \<Rightarrow> string" where
  "template_error_text env source e =
     (case e of
        EmptyTemplate \<Rightarrow> ''path template is empty''
      | MissingLeadingSlash \<Rightarrow> ''path template '' @ go_quote env source @ '' must start with /''
      | UnnamedVariable \<Rightarrow> ''path template '' @ go_quote env source @ '' has an unnamed variable''
      | MalformedVariable part \<Rightarrow>
          ''path template '' @ go_quote env source @ '' has a malformed variable '' @ go_quote env part
      | DuplicateVariable name \<Rightarrow>
          ''path template '' @ go_quote env source @ '' binds '' @ go_quote env name @ '' more than once''
      | VariableNotWholeSegment \<Rightarrow>
          ''path template '' @ go_quote env source @ '': a variable must be a whole segment, as in /orders/{id}'')"

text \<open>
  \<^verbatim>\<open>parseURL\<close> also answers the template it compiled, whose presence is Go's
  \<^verbatim>\<open>cs.PathTemplate != nil\<close>.
\<close>

definition parse_one_url ::
    "'t stub_env \<Rightarrow> string \<Rightarrow> url_kind \<Rightarrow> string \<Rightarrow> 't compiled_stub \<Rightarrow> error_list \<times> 't compiled_stub \<times> path_template option" where
  "parse_one_url env field kind s cs0 =
     (let cs = cs0\<lparr>cs_url_kind := kind, cs_url_literal := s\<rparr>;
          here = ''/request/'' @ field
      in case kind of
           URLAny \<Rightarrow> ([], cs, None)
         | URLTemplate \<Rightarrow>
             (case parse_path_template s of
                Inl e \<Rightarrow> (addf code_malformed here (template_error_text env s e) [], cs, None)
              | Inr t \<Rightarrow> ([], cs\<lparr>cs_path_template := t, cs_literal_prefix := pt_literal_prefix t\<rparr>, Some t))
         | _ \<Rightarrow>
             (if kind = URLExactFull \<or> kind = URLExactPath then
                ((if has_prefix s ''/'' then [] else addf code_malformed here (field @ '' must start with /'') []), cs, None)
              else case ce_regex (se_matchers env) of
                     None \<Rightarrow> (addf code_regex here ''no regex engine is configured'' [], cs, None)
                   | Some compile \<Rightarrow>
                       (case compile s of
                          Inl err \<Rightarrow> (addf code_regex here (field @ '' does not compile: '' @ err) [], cs, None)
                        | Inr p \<Rightarrow> ([], cs\<lparr>cs_url_regex := p, cs_literal_prefix := se_prefix env p\<rparr>, None))))"

definition parse_url ::
    "'t stub_env \<Rightarrow> raw_object \<Rightarrow> 't compiled_stub \<Rightarrow> error_list \<times> 't compiled_stub \<times> path_template option" where
  "parse_url env doc cs =
     (let criteria = List.map_filter (url_criterion doc) url_fields;
          es = lefts criteria
      in case rights criteria of
           [] \<Rightarrow> (es, cs\<lparr>cs_url_kind := URLAny\<rparr>, None)
         | [(field, kind, s)] \<Rightarrow> (case parse_one_url env field kind s cs of (fs, r) \<Rightarrow> (es @ fs, r))
         | found \<Rightarrow>
             (es @ addf code_malformed ''/request''
                (''only one URL criterion may be given, found '' @ join_str '', '' (map fst found)) [], cs, None))"

section \<open>Criteria\<close>

definition parse_key_criteria ::
    "'t stub_env \<Rightarrow> raw_object \<Rightarrow> string \<Rightarrow> string \<Rightarrow> bool \<Rightarrow> error_list \<times> key_criterion list" where
  "parse_key_criteria env doc field pointer allow_multi =
     (case map_of doc field of
        None \<Rightarrow> ([], [])
      | Some v \<Rightarrow>
          (case unmarshal_object v of
             Invalid \<Rightarrow> (addf code_malformed pointer (field @ '' must be a JSON object'') [], [])
           | x \<Rightarrow>
               (let entries = (case x of Value ms \<Rightarrow> ms | _ \<Rightarrow> []);
                    tried = map (\<lambda>name. map_sum id (\<lambda>m. \<lparr>kc_name = name, kc_matcher = m\<rparr>)
                       (matcher_options env False allow_multi (the (map_of entries name)) (pointer @ ''/'' @ name)))
                      (sorted_keys entries)
                in (concat (map add_matcher_problems (lefts tried)), rights tried))))"

definition parse_keys ::
    "'t stub_env \<Rightarrow> raw_object \<Rightarrow> string \<Rightarrow> bool \<Rightarrow> (key_criterion list \<Rightarrow> 's \<Rightarrow> 's) \<Rightarrow> 's step" where
  "parse_keys env doc field allow_multi upd s =
     (case parse_key_criteria env doc field (''/request/'' @ field) allow_multi of (es, ks) \<Rightarrow> (es, upd ks s))"

definition parse_origin_criterion ::
    "'t stub_env \<Rightarrow> raw_object \<Rightarrow> string \<Rightarrow> (matcher option \<Rightarrow> 's \<Rightarrow> 's) \<Rightarrow> 's step" where
  "parse_origin_criterion env doc field upd s =
     (case map_of doc field of
        None \<Rightarrow> pass (upd None s)
      | Some v \<Rightarrow>
          (case matcher_options env False False v (''/request/'' @ field) of
             Inl ps \<Rightarrow> (add_matcher_problems ps, upd None s)
           | Inr m \<Rightarrow> pass (upd (Some m) s)))"

definition encode_basic_auth :: "string \<Rightarrow> string \<Rightarrow> string" where
  "encode_basic_auth username password = basic_auth_prefix @ base64_encode (username @ '':'' @ password)"

definition parse_basic_auth :: "raw_object \<Rightarrow> 't compiled_stub step" where
  "parse_basic_auth doc cs =
     (let refuse_it = (\<lambda>detail. complain code_malformed ''/request/basicAuthCredentials'' detail cs) in
      case map_of doc ''basicAuthCredentials'' of
        None \<Rightarrow> pass cs
      | Some v \<Rightarrow>
          (case Option.bind (struct_members v) (\<lambda>ms.
                  Option.bind (pointer_field unmarshal_string ''username'' ms) (\<lambda>u.
                    map_option (Pair u) (pointer_field unmarshal_string ''password'' ms))) of
             None \<Rightarrow> refuse_it ''basicAuthCredentials must be an object with username and password''
           | Some (Some u, Some p) \<Rightarrow> pass (cs\<lparr>cs_basic_auth := encode_basic_auth u p\<rparr>)
           | Some _ \<Rightarrow> refuse_it ''basicAuthCredentials needs both username and password''))"

text \<open>\<^verbatim>\<open>matcherCost\<close>: evaluation order, cheapest first.\<close>

fun matcher_cost :: "matcher \<Rightarrow> nat" where
  "matcher_cost (EqualTo s ci) = 0"
| "matcher_cost (BinaryEqualTo d s) = 0"
| "matcher_cost Absent = 0"
| "matcher_cost (Contains s negate) = 1"
| "matcher_cost (Regex p negate) = 2"
| "matcher_cost (OtherMatcher kind f d) = (case kind of TemporalKind \<Rightarrow> 3 | MultipartKind \<Rightarrow> 7 | XMLKind \<Rightarrow> 6)"
| "matcher_cost (EqualToJSON m) = 4"
| "matcher_cost (MatchesJSONSchema v) = 5"
| "matcher_cost (Not m) = matcher_cost m"
| "matcher_cost (And ms) = foldl max 0 (map matcher_cost ms)"
| "matcher_cost (Or ms) = foldl max 0 (map matcher_cost ms)"
| "matcher_cost (MatchesJSONPath path inner negate) = 6"
| "matcher_cost (MultiValue ms exact) = 6"

definition sort_by_cost :: "matcher list \<Rightarrow> matcher list" where
  "sort_by_cost ms = sort_stable (\<lambda>a b. matcher_cost a < matcher_cost b) ms"

definition compile_body_patterns :: "'t stub_env \<Rightarrow> string \<Rightarrow> string list \<Rightarrow> error_list \<times> matcher list" where
  "compile_body_patterns env pointer items =
     (let tried = map (\<lambda>(i, item). matcher_options env True False item (pointer @ ''/'' @ show_nat i)) (enumerate 0 items)
      in (concat (map add_matcher_problems (lefts tried)), rights tried))"

definition parse_body_patterns :: "'t stub_env \<Rightarrow> raw_object \<Rightarrow> 't compiled_stub step" where
  "parse_body_patterns env doc cs =
     (case map_of doc ''bodyPatterns'' of
        None \<Rightarrow> pass cs
      | Some v \<Rightarrow>
          (case unmarshal_array v of
             Invalid \<Rightarrow> complain code_malformed ''/request/bodyPatterns'' ''bodyPatterns must be an array of matchers'' cs
           | x \<Rightarrow>
               (case compile_body_patterns env ''/request/bodyPatterns'' (case x of Value items \<Rightarrow> items | _ \<Rightarrow> []) of
                  (es, ms) \<Rightarrow> (es, cs\<lparr>cs_body_matchers := sort_by_cost (cs_body_matchers cs @ ms)\<rparr>))))"

section \<open>Multipart\<close>

definition part_fields :: "string list" where
  "part_fields = [''name'', ''matchingType'', ''headers'', ''bodyPatterns'']"

definition parse_matching_type :: "'t stub_env \<Rightarrow> raw_object \<Rightarrow> string \<Rightarrow> error_list \<times> bool \<times> bool" where
  "parse_matching_type env doc pointer =
     (case map_of doc ''matchingType'' of
        None \<Rightarrow> ([], False, True)
      | Some v \<Rightarrow>
          (case unmarshal_string v of
             Invalid \<Rightarrow> (addf code_malformed (pointer @ ''/matchingType'') ''matchingType must be a string'' [], False, False)
           | x \<Rightarrow>
               (let kind = (case x of Value s \<Rightarrow> s | _ \<Rightarrow> []) in
                if kind = ''ANY'' then ([], False, True)
                else if kind = ''ALL'' then ([], True, True)
                else (addf code_malformed (pointer @ ''/matchingType'')
                       (''matchingType must be ANY or ALL, not '' @ go_quote env kind) [], False, False))))"

definition parse_part_bodies :: "'t stub_env \<Rightarrow> raw_object \<Rightarrow> string \<Rightarrow> error_list \<times> matcher list \<times> bool" where
  "parse_part_bodies env doc pointer =
     (case map_of doc ''bodyPatterns'' of
        None \<Rightarrow> ([], [], True)
      | Some v \<Rightarrow>
          (case unmarshal_array v of
             Invalid \<Rightarrow>
               (addf code_malformed (pointer @ ''/bodyPatterns'') ''bodyPatterns must be an array of matchers'' [], [], False)
           | x \<Rightarrow>
               (case compile_body_patterns env (pointer @ ''/bodyPatterns'') (case x of Value items \<Rightarrow> items | _ \<Rightarrow> []) of
                  (es, ms) \<Rightarrow> (es, sort_by_cost ms, es = []))))"

text \<open>
  One part pattern and whether it stands. A name that is no string, or a header criterion that does
  not compile, is reported but leaves the pattern standing.
\<close>

definition parse_multipart_pattern :: "'t stub_env \<Rightarrow> string \<Rightarrow> string \<Rightarrow> error_list \<times> part_pattern option" where
  "parse_multipart_pattern env raw pointer =
     (case unmarshal_object raw of
        Invalid \<Rightarrow> (addf code_malformed pointer ''a multipart pattern must be a JSON object'' [], None)
      | x \<Rightarrow>
          (let doc = (case x of Value ms \<Rightarrow> ms | _ \<Rightarrow> []);
               unknown = map (\<lambda>f. new_field_error code_malformed (pointer @ ''/'' @ f) (''unknown field '' @ f))
                           (filter (\<lambda>f. f \<notin> set part_fields) (sorted_keys doc));
               (name_errors, name) = decode_string doc ''name'' (pointer @ ''/name'') (\<lambda>s _. s) [];
               (type_errors, all, type_ok) = parse_matching_type env doc pointer;
               (header_errors, hs) = parse_key_criteria env doc ''headers'' (pointer @ ''/headers'') False;
               (body_errors, ms, body_ok) = parse_part_bodies env doc pointer
           in (unknown @ name_errors @ type_errors @ header_errors @ body_errors,
               if unknown = [] \<and> type_ok \<and> body_ok
               then Some \<lparr>pp_name = name, pp_all = all, pp_headers = hs, pp_body_matchers = ms\<rparr> else None)))"

definition parse_multipart_patterns :: "'t stub_env \<Rightarrow> raw_object \<Rightarrow> 't compiled_stub step" where
  "parse_multipart_patterns env doc cs =
     (case map_of doc ''multipartPatterns'' of
        None \<Rightarrow> pass cs
      | Some v \<Rightarrow>
          (case unmarshal_array v of
             Invalid \<Rightarrow> complain code_malformed ''/request/multipartPatterns''
               ''multipartPatterns must be an array of part patterns'' cs
           | Null \<Rightarrow> pass cs
           | Value items \<Rightarrow>
               (if items = [] then pass cs
                else
                  let parsed = map (\<lambda>(i, item).
                        parse_multipart_pattern env item (''/request/multipartPatterns/'' @ show_nat i)) (enumerate 0 items);
                      es = concat (map fst parsed);
                      patterns = List.map_filter snd parsed
                  in if length patterns \<noteq> length items then (es, cs)
                     else (es, cs\<lparr>cs_body_matchers := sort_by_cost (cs_body_matchers cs @ [se_multipart env patterns])\<rparr>))))"

section \<open>The request\<close>

definition validate_path_param_names :: "'t stub_env \<Rightarrow> path_template \<Rightarrow> key_criterion list \<Rightarrow> error_list" where
  "validate_path_param_names env t ks =
     map (\<lambda>k. new_field_error code_malformed (''/request/pathParameters/'' @ kc_name k)
            (''the template '' @ go_quote env (pt_source t) @ '' binds no variable named '' @ go_quote env (kc_name k)))
       (filter (\<lambda>k. kc_name k \<notin> set (pt_vars t)) ks)"

definition check_path_params :: "'t stub_env \<Rightarrow> path_template option \<Rightarrow> 't compiled_stub step" where
  "check_path_params env template cs =
     (case template of
        None \<Rightarrow>
          (if cs_path_params cs \<noteq> []
           then complain code_malformed ''/request/pathParameters''
                  ''pathParameters needs a urlPathTemplate to bind against'' cs
           else pass cs)
      | Some t \<Rightarrow> (validate_path_param_names env t (cs_path_params cs), cs))"

definition parse_criteria :: "'t stub_env \<Rightarrow> raw_object \<Rightarrow> 't compiled_stub step" where
  "parse_criteria env doc =
     steps
       [parse_keys env doc ''headers'' True (\<lambda>ks. cs_headers_update (\<lambda>_. ks)),
        parse_keys env doc ''queryParameters'' True (\<lambda>ks. cs_query_update (\<lambda>_. ks)),
        parse_keys env doc ''cookies'' False (\<lambda>ks. cs_cookies_update (\<lambda>_. ks)),
        parse_keys env doc ''formParameters'' False (\<lambda>ks. cs_form_update (\<lambda>_. ks)),
        parse_keys env doc ''pathParameters'' False (\<lambda>ks. cs_path_params_update (\<lambda>_. ks)),
        parse_origin_criterion env doc ''host'' (\<lambda>m. cs_host_update (\<lambda>_. m)),
        parse_origin_criterion env doc ''port'' (\<lambda>m. cs_port_update (\<lambda>_. m)),
        parse_origin_criterion env doc ''scheme'' (\<lambda>m. cs_scheme_update (\<lambda>_. m)),
        parse_basic_auth doc, parse_body_patterns env doc, parse_multipart_patterns env doc]"

definition parse_request :: "'t stub_env \<Rightarrow> string option \<Rightarrow> 't compiled_stub step" where
  "parse_request env raw cs0 =
     (let cs = cs0\<lparr>cs_url_kind := URLAny\<rparr> in
      case raw of
        None \<Rightarrow> pass cs
      | Some v \<Rightarrow>
          (case unmarshal_object v of
             Invalid \<Rightarrow> complain code_malformed ''/request'' ''request must be a JSON object'' cs
           | x \<Rightarrow>
               (let doc = (case x of Value ms \<Rightarrow> ms | _ \<Rightarrow> []);
                    (method_errors, cs1) = parse_method env doc cs;
                    (url_errors, cs2, template) = parse_url env doc cs1;
                    (es, cs3) = steps [parse_criteria env doc, check_path_params env template] cs2
                in (unsupported_fields supported_request_fields ''/request/'' doc @ method_errors @ url_errors @ es, cs3))))"

section \<open>The mapping\<close>

text \<open>The stub before anything is read; a nil pattern and a nil template are placeholders no kind reads.\<close>

definition blank_stub :: "string \<Rightarrow> u64 \<Rightarrow> 't compiled_stub" where
  "blank_stub raw sequence =
     \<lparr>cs_raw = raw, cs_id = [], cs_name = [], cs_priority = default_priority, cs_persistent = False, cs_metadata = [],
      cs_seq = sequence, cs_method = [], cs_url_kind = URLAny, cs_url_literal = [],
      cs_url_regex = \<lparr>pm_match = (\<lambda>_. False), pm_source = []\<rparr>,
      cs_path_template = \<lparr>pt_source = [], pt_segments = [], pt_vars = [], pt_literal_prefix = []\<rparr>,
      cs_literal_prefix = [], cs_host = None, cs_port = None, cs_scheme = None, cs_headers = [], cs_query = [],
      cs_cookies = [], cs_form = [], cs_path_params = [], cs_basic_auth = [], cs_body_matchers = [],
      cs_scenario = None, cs_response = empty_response\<rparr>"

definition parse_stub_response :: "'t stub_env \<Rightarrow> string option \<Rightarrow> 't compiled_stub step" where
  "parse_stub_response env raw cs = (case parse_response env raw of (es, r) \<Rightarrow> (es, cs\<lparr>cs_response := r\<rparr>))"

definition parse_mapping :: "'t stub_env \<Rightarrow> raw_object \<Rightarrow> 't compiled_stub step" where
  "parse_mapping env doc =
     steps
       [\<lambda>cs. (unsupported_fields supported_top_level ''/'' doc, cs),
        parse_identity env doc,
        decode_string doc ''name'' ''/name'' (\<lambda>s. cs_name_update (\<lambda>_. s)),
        parse_priority doc,
        decode_bool doc ''persistent'' ''/persistent'' (\<lambda>b. cs_persistent_update (\<lambda>_. b)),
        \<lambda>cs. pass (cs\<lparr>cs_metadata := metadata_of (map_of doc ''metadata'')\<rparr>),
        parse_scenario doc,
        parse_request env (map_of doc ''request''),
        parse_stub_response env (map_of doc ''response'')]"

definition compile_stub :: "'t stub_env \<Rightarrow> string \<Rightarrow> u64 \<Rightarrow> error_list + 't compiled_stub" where
  "compile_stub env raw sequence =
     (case unmarshal_object raw of
        Invalid \<Rightarrow> Inl (addf code_malformed [] (''stub mapping is not a JSON object: '' @ ce_decode_error (se_matchers env) raw) [])
      | Null \<Rightarrow> Inl (addf code_malformed [] ''stub mapping is null, not an object'' [])
      | Value doc \<Rightarrow>
          (case parse_mapping env doc (blank_stub raw sequence) of
             (es, cs) \<Rightarrow> if es \<noteq> [] then Inl es else Inr cs))"

section \<open>The stored document\<close>

definition written_values :: "string \<Rightarrow> string list option" where
  "written_values raw =
     (case unmarshal_string raw of
        Invalid \<Rightarrow>
          (case unmarshal_array raw of
             Invalid \<Rightarrow> None
           | Null \<Rightarrow> Some []
           | Value vs \<Rightarrow>
               (if list_all (\<lambda>v. case unmarshal_string v of Invalid \<Rightarrow> False | _ \<Rightarrow> True) vs then Some vs else None))
      | _ \<Rightarrow> Some [raw])"

definition folded_value :: "folded_header \<Rightarrow> string option" where
  "folded_value h =
     (case snd h of
        [e] \<Rightarrow> Some (snd e)
      | es \<Rightarrow> map_option (\<lambda>vs. ''['' @ join_str '','' (concat vs) @ '']'') (those (map (\<lambda>e. written_values (snd e)) es)))"

definition folded_headers_json :: "folded_header list \<Rightarrow> string option" where
  "folded_headers_json hs =
     (if list_all (\<lambda>h. length (snd h) = 1) hs then None
      else map_option (\<lambda>vs. ''{'' @ join_str '','' (map (\<lambda>(h, v). quote_text (fst h) @ '':'' @ v) (zip hs vs)) @ ''}'')
             (those (map folded_value hs)))"

definition fold_response_headers :: "raw_object \<Rightarrow> raw_object" where
  "fold_response_headers doc =
     (case map_of doc ''response'' of
        None \<Rightarrow> doc
      | Some raw \<Rightarrow>
          (case unmarshal_object raw of
             Value response \<Rightarrow>
               (case Option.bind (Option.bind (map_of response ''headers'') header_entries)
                       (\<lambda>entries. folded_headers_json (fold_header_spellings entries)) of
                  None \<Rightarrow> doc
                | Some hs \<Rightarrow> AList.update ''response'' (marshal_object (AList.update ''headers'' hs response)) doc)
           | _ \<Rightarrow> doc))"

definition with_identity :: "(string \<Rightarrow> string) \<Rightarrow> string \<Rightarrow> string \<Rightarrow> string + string" where
  "with_identity decode_error raw ident =
     (case unmarshal_object raw of
        Invalid \<Rightarrow> Inl (''stub mapping is not a JSON object: '' @ decode_error raw)
      | Null \<Rightarrow> Inl ''stub mapping is null, not an object''
      | Value doc \<Rightarrow>
          Inr (marshal_object (fold_response_headers
                 (AList.update ''uuid'' (quote_text ident) (AList.update ''id'' (quote_text ident) doc)))))"

section \<open>What a compiled stub is\<close>

definition keys_ok :: "bool \<Rightarrow> key_criterion list \<Rightarrow> bool" where
  "keys_ok allow_multi ks \<longleftrightarrow> (\<forall>k\<in>set ks. well_typed False allow_multi (kc_matcher k))"

definition origin_ok :: "matcher option \<Rightarrow> bool" where
  "origin_ok m \<longleftrightarrow> pred_option (well_typed False False) m"

definition bodies_ok :: "matcher list \<Rightarrow> bool" where
  "bodies_ok ms \<longleftrightarrow> sorted (map matcher_cost ms) \<and> (\<forall>m\<in>set ms. well_typed True False m)"

definition criteria_ok :: "'t compiled_stub \<Rightarrow> bool" where
  "criteria_ok cs \<longleftrightarrow>
     keys_ok True (cs_headers cs) \<and> keys_ok True (cs_query cs) \<and> keys_ok False (cs_cookies cs) \<and>
     keys_ok False (cs_form cs) \<and> keys_ok False (cs_path_params cs) \<and>
     origin_ok (cs_host cs) \<and> origin_ok (cs_port cs) \<and> origin_ok (cs_scheme cs) \<and> bodies_ok (cs_body_matchers cs)"

definition url_parts_ok ::
    "'t stub_env \<Rightarrow> url_kind \<Rightarrow> string \<Rightarrow> pattern_matcher \<Rightarrow> path_template \<Rightarrow> string \<Rightarrow> bool" where
  "url_parts_ok env kind literal pattern template lead \<longleftrightarrow>
     (case kind of
        URLAny \<Rightarrow> True
      | URLExactFull \<Rightarrow> has_prefix literal ''/''
      | URLExactPath \<Rightarrow> has_prefix literal ''/''
      | URLTemplate \<Rightarrow> parse_path_template literal = Inr template \<and> lead = pt_literal_prefix template
      | _ \<Rightarrow>
          (\<exists>compile. ce_regex (se_matchers env) = Some compile \<and> compile literal = Inr pattern) \<and>
          lead = se_prefix env pattern)"

definition url_ok :: "'t stub_env \<Rightarrow> 't compiled_stub \<Rightarrow> bool" where
  "url_ok env cs \<longleftrightarrow>
     url_parts_ok env (cs_url_kind cs) (cs_url_literal cs) (cs_url_regex cs) (cs_path_template cs) (cs_literal_prefix cs)"

definition params_ok :: "'t compiled_stub \<Rightarrow> bool" where
  "params_ok cs \<longleftrightarrow>
     (cs_path_params cs \<noteq> [] \<longrightarrow>
        cs_url_kind cs = URLTemplate \<and> (\<forall>k\<in>set (cs_path_params cs). kc_name k \<in> set (pt_vars (cs_path_template cs))))"

definition head_ok :: "'t stub_env \<Rightarrow> 't compiled_stub \<Rightarrow> bool" where
  "head_ok env cs \<longleftrightarrow>
     (cs_id cs \<noteq> [] \<longrightarrow> (\<exists>s. se_uuid env s = Some (cs_id cs) \<and> length s = 36)) \<and>
     - (2 ^ 31) \<le> cs_priority cs \<and> cs_priority cs < 2 ^ 31 \<and>
     pred_option (\<lambda>ref. sr_name ref \<noteq> []) (cs_scenario cs) \<and> response_ok (cs_response cs)"

definition compiled_ok :: "'t stub_env \<Rightarrow> 't compiled_stub \<Rightarrow> bool" where
  "compiled_ok env cs \<longleftrightarrow>
     head_ok env cs \<and> cs_method cs \<noteq> ''ANY'' \<and> url_ok env cs \<and> params_ok cs \<and> criteria_ok cs"

text \<open>What is asked of the parameters: the engines and the multipart criterion build their own kinds.\<close>

definition outside_multipart :: "'t stub_env \<Rightarrow> bool" where
  "outside_multipart env \<longleftrightarrow> (\<forall>ps. \<exists>f d. se_multipart env ps = OtherMatcher MultipartKind f d)"

definition sound_env :: "'t stub_env \<Rightarrow> bool" where
  "sound_env env \<longleftrightarrow> outside_kinds (se_matchers env) \<and> outside_multipart env"

lemma matcher_options_typed:
  "matcher_options env c m v p = Inr k \<Longrightarrow> sound_env env \<Longrightarrow> well_typed c m k"
  using compile_levels_typed [of "se_matchers env" "Suc max_nesting" c m v p k]
  by (simp add: matcher_options_def compile_matcher_def sound_env_def del: compile_levels.simps)

lemma parse_key_criteria_ok:
  assumes "sound_env env" and "parse_key_criteria env doc field p multi = (es, ks)"
  shows "keys_ok multi ks"
proof -
  have "keys_ok multi (rights (map (\<lambda>name. map_sum id (\<lambda>m. \<lparr>kc_name = name, kc_matcher = m\<rparr>)
      (matcher_options env False multi (f name) (g name))) names))" for f g names
    using matcher_options_typed [OF _ assms(1)] by (auto simp: keys_ok_def dest!: sym [of "Inr _"])
  then show ?thesis
    using assms(2) by (auto simp: parse_key_criteria_def keys_ok_def Let_def split: option.splits unmarshalled.splits)
qed

lemma sort_by_cost_ok: "(\<forall>m\<in>set ms. well_typed True False m) \<Longrightarrow> bodies_ok (sort_by_cost ms)"
proof -
  assume ms: "\<forall>m\<in>set ms. well_typed True False m"
  have "sort_by_cost ms = sort_key matcher_cost ms"
    unfolding sort_by_cost_def by (rule sort_stable_key) simp
  then show ?thesis using ms by (simp add: bodies_ok_def)
qed

lemma compile_body_patterns_ok:
  "sound_env env \<Longrightarrow> compile_body_patterns env p items = (es, ms) \<Longrightarrow> \<forall>m\<in>set ms. well_typed True False m"
  by (auto simp: compile_body_patterns_def Let_def dest!: sym [of "Inr _"] matcher_options_typed)

text \<open>The stub without its criteria: what reading the criteria leaves alone.\<close>

definition bare_stub :: "'t compiled_stub \<Rightarrow> 't compiled_stub" where
  "bare_stub cs =
     cs\<lparr>cs_host := None, cs_port := None, cs_scheme := None, cs_headers := [], cs_query := [], cs_cookies := [],
        cs_form := [], cs_path_params := [], cs_basic_auth := [], cs_body_matchers := []\<rparr>"

abbreviation criteria_inv :: "'t compiled_stub \<Rightarrow> 't compiled_stub \<Rightarrow> bool" where
  "criteria_inv b cs \<equiv> bare_stub cs = b \<and> criteria_ok cs"

lemma keeps_keys:
  assumes "sound_env env"
    and "\<And>ks s. keys_ok multi ks \<Longrightarrow> criteria_inv b s \<Longrightarrow> criteria_inv b (upd ks s)"
  shows "keeps (criteria_inv b) (parse_keys env doc field multi upd)"
  using assms(2) parse_key_criteria_ok [OF assms(1), of doc field "''/request/'' @ field" multi]
  unfolding keeps_def parse_keys_def by (auto split: prod.splits)

lemma keeps_origin:
  assumes "sound_env env"
    and "\<And>m s. origin_ok m \<Longrightarrow> criteria_inv b s \<Longrightarrow> criteria_inv b (upd m s)"
  shows "keeps (criteria_inv b) (parse_origin_criterion env doc field upd)"
proof -
  have "origin_ok None" by (simp add: origin_ok_def)
  moreover have "origin_ok (Some m)" if "matcher_options env False False v p = Inr m" for v p m
    using matcher_options_typed [OF that assms(1)] by (simp add: origin_ok_def)
  ultimately show ?thesis
    using assms(2) unfolding keeps_def parse_origin_criterion_def by (auto split: option.splits sum.splits)
qed

lemma keeps_basic_auth: "keeps (criteria_inv b) (parse_basic_auth doc)"
proof -
  have "t = s \<or> (\<exists>u p. t = s\<lparr>cs_basic_auth := encode_basic_auth u p\<rparr>)" if "parse_basic_auth doc s = ([], t)"
    for s t :: "'t compiled_stub"
    using that by (auto simp: parse_basic_auth_def Let_def split: option.splits) metis
  then show ?thesis unfolding keeps_def by (fastforce simp: bare_stub_def criteria_ok_def)
qed

lemma criteria_inv_bodies:
  assumes "criteria_inv b s" and "\<forall>m\<in>set ms. well_typed True False m"
  shows "criteria_inv b (s\<lparr>cs_body_matchers := sort_by_cost (cs_body_matchers s @ ms)\<rparr>)"
proof -
  have "bodies_ok (sort_by_cost (cs_body_matchers s @ ms))"
    using assms by (intro sort_by_cost_ok) (auto simp: criteria_ok_def bodies_ok_def)
  then show ?thesis using assms(1) by (auto simp: bare_stub_def criteria_ok_def)
qed

lemma keeps_body_patterns: "sound_env env \<Longrightarrow> keeps (criteria_inv b) (parse_body_patterns env doc)"
  unfolding keeps_def parse_body_patterns_def
  using criteria_inv_bodies compile_body_patterns_ok
  by (fastforce split: option.splits unmarshalled.splits prod.splits)

lemma keeps_multipart: "sound_env env \<Longrightarrow> keeps (criteria_inv b) (parse_multipart_patterns env doc)"
proof -
  assume env: "sound_env env"
  have "well_typed True False (se_multipart env ps)" for ps
  proof -
    obtain f d where "se_multipart env ps = OtherMatcher MultipartKind f d"
      using env unfolding sound_env_def outside_multipart_def by blast
    then show ?thesis by simp
  qed
  moreover have "t = s \<or> (\<exists>ps. t = s\<lparr>cs_body_matchers := sort_by_cost (cs_body_matchers s @ [se_multipart env ps])\<rparr>)"
    if "parse_multipart_patterns env doc s = ([], t)" for s t
    using that by (auto simp: parse_multipart_patterns_def Let_def split: option.splits unmarshalled.splits if_splits)
  ultimately show ?thesis unfolding keeps_def using criteria_inv_bodies by fastforce
qed

lemma keeps_criteria:
  assumes "sound_env env"
  shows "keeps (criteria_inv b) (parse_criteria env doc)"
proof -
  note facts = keeps_keys [OF assms] keeps_origin [OF assms] keeps_basic_auth keeps_body_patterns [OF assms] keeps_multipart [OF assms]
  show ?thesis
    unfolding parse_criteria_def
    by (rule keeps_steps, simp only: list.set insert_iff empty_iff, elim disjE FalseE; simp only:; rule facts)
       (auto simp: bare_stub_def criteria_ok_def)
qed

lemma parse_one_url_clean:
  assumes "parse_one_url env field kind l cs = ([], t, template)"
  shows "url_ok env t \<and> (\<forall>u. template = Some u \<longrightarrow> cs_url_kind t = URLTemplate \<and> u = cs_path_template t) \<and>
    head_ok env t = head_ok env cs \<and> cs_method t = cs_method cs \<and> criteria_ok t = criteria_ok cs \<and>
    cs_path_params t = cs_path_params cs \<and> cs_raw t = cs_raw cs \<and> cs_seq t = cs_seq cs"
  using assms
  by (cases kind)
     (auto simp: parse_one_url_def Let_def url_ok_def url_parts_ok_def head_ok_def criteria_ok_def split: sum.splits option.splits if_splits)

lemma parse_url_clean:
  assumes "parse_url env doc cs = ([], t, template)"
  shows "url_ok env t \<and> (\<forall>u. template = Some u \<longrightarrow> cs_url_kind t = URLTemplate \<and> u = cs_path_template t) \<and>
    head_ok env t = head_ok env cs \<and> cs_method t = cs_method cs \<and> criteria_ok t = criteria_ok cs \<and>
    cs_path_params t = cs_path_params cs \<and> cs_raw t = cs_raw cs \<and> cs_seq t = cs_seq cs"
proof (cases "rights (List.map_filter (url_criterion doc) url_fields)")
  case Nil
  then show ?thesis using assms
    by (auto simp: parse_url_def Let_def url_ok_def url_parts_ok_def head_ok_def criteria_ok_def)
next
  case (Cons c rest)
  obtain field kind l where c: "c = (field, kind, l)" by (cases c)
  then have "parse_one_url env field kind l cs = ([], t, template)"
    using assms Cons by (auto simp: parse_url_def Let_def split: list.splits prod.splits)
  then show ?thesis by (rule parse_one_url_clean)
qed

lemma criteria_inv_facts:
  assumes "bare_stub t = bare_stub s"
  shows "url_ok env t = url_ok env s" "head_ok env t = head_ok env s" "cs_method t = cs_method s"
    "cs_raw t = cs_raw s" "cs_seq t = cs_seq s" "cs_url_kind t = cs_url_kind s" "cs_path_template t = cs_path_template s"
proof -
  have bare: "url_ok env (bare_stub c) = url_ok env c" "head_ok env (bare_stub c) = head_ok env c"
    "cs_method (bare_stub c) = cs_method c" "cs_raw (bare_stub c) = cs_raw c" "cs_seq (bare_stub c) = cs_seq c"
    "cs_url_kind (bare_stub c) = cs_url_kind c" "cs_path_template (bare_stub c) = cs_path_template c" for c
    by (simp_all add: bare_stub_def url_ok_def head_ok_def)
  show "url_ok env t = url_ok env s" "head_ok env t = head_ok env s" "cs_method t = cs_method s"
    "cs_raw t = cs_raw s" "cs_seq t = cs_seq s" "cs_url_kind t = cs_url_kind s" "cs_path_template t = cs_path_template s"
    using assms by (metis bare)+
qed

definition stub_inv :: "'t stub_env \<Rightarrow> string \<Rightarrow> u64 \<Rightarrow> 't compiled_stub \<Rightarrow> bool" where
  "stub_inv env raw sequence cs \<longleftrightarrow> compiled_ok env cs \<and> cs_raw cs = raw \<and> cs_seq cs = sequence"

abbreviation early_inv :: "'t stub_env \<Rightarrow> string \<Rightarrow> u64 \<Rightarrow> 't compiled_stub \<Rightarrow> bool" where
  "early_inv env raw sequence cs \<equiv> stub_inv env raw sequence cs \<and> cs_path_params cs = []"

lemma check_path_params_clean:
  assumes "check_path_params env template s = ([], t)"
    and "\<forall>u. template = Some u \<longrightarrow> cs_url_kind s = URLTemplate \<and> u = cs_path_template s"
  shows "t = s \<and> params_ok s"
  using assms
  by (auto simp: check_path_params_def params_ok_def validate_path_param_names_def filter_empty_conv split: option.splits if_splits)

lemma parse_request_ok:
  assumes env: "sound_env env" and inv: "early_inv env r q s" and parse: "parse_request env raw s = ([], t)"
  shows "stub_inv env r q t"
proof -
  let ?s = "s\<lparr>cs_url_kind := URLAny\<rparr>"
  have any: "early_inv env r q ?s"
    using inv by (auto simp: stub_inv_def compiled_ok_def head_ok_def url_ok_def url_parts_ok_def params_ok_def criteria_ok_def)
  show ?thesis
  proof (cases "\<exists>v. raw = Some v")
    case False
    then have "raw = None" by (cases raw) auto
    then show ?thesis using parse any by (simp add: parse_request_def)
  next
    case True
    then obtain v where v: "raw = Some v" by blast
    define doc where "doc = (case unmarshal_object v of Value ms \<Rightarrow> ms | _ \<Rightarrow> [])"
    obtain m c1 c2 template where m: "parse_method env doc ?s = (m, c1)" "m = []"
      and u: "parse_url env doc c1 = ([], c2, template)"
      and rest: "steps [parse_criteria env doc, check_path_params env template] c2 = ([], t)"
      using parse
      by (auto simp: parse_request_def v doc_def Let_def simp del: steps.simps(2) split: unmarshalled.splits prod.splits)
    obtain c3 where c3: "parse_criteria env doc c2 = ([], c3)" and p: "check_path_params env template c3 = ([], t)"
      using rest by (auto simp del: steps.simps(2))
    have c1: "\<exists>x. c1 = ?s\<lparr>cs_method := x\<rparr> \<and> x \<noteq> ''ANY''"
      using m by (auto simp: parse_method_def Let_def split: prod.splits if_splits)
    have one: "head_ok env c1" "cs_method c1 \<noteq> ''ANY''" "criteria_ok c1" "cs_raw c1 = r" "cs_seq c1 = q"
      using c1 any by (auto simp: stub_inv_def compiled_ok_def head_ok_def criteria_ok_def)
    note two = parse_url_clean [OF u]
    have three: "criteria_inv (bare_stub c2) c3"
      using keeps_criteria [OF env, of "bare_stub c2" doc] c3 two one(3) unfolding keeps_def by blast
    note same = criteria_inv_facts [OF three [THEN conjunct1]]
    have "t = c3 \<and> params_ok c3"
      by (rule check_path_params_clean [OF p]) (use two same in auto)
    then show ?thesis
      using one two three same by (simp add: stub_inv_def compiled_ok_def)
  qed
qed

lemma unmarshal_int32_bounds: "unmarshal_int32 v = Value i \<Longrightarrow> - (2 ^ 31) \<le> i \<and> i < 2 ^ 31"
  by (auto simp: unmarshal_int32_def unmarshal_def read_int_def split: option.splits if_splits)

text \<open>A step that only changes fields of the head keeps the rest of the invariant.\<close>

definition same_but_head :: "'t compiled_stub \<Rightarrow> 't compiled_stub \<Rightarrow> bool" where
  "same_but_head s t \<longleftrightarrow>
     t\<lparr>cs_id := cs_id s, cs_name := cs_name s, cs_priority := cs_priority s, cs_persistent := cs_persistent s,
       cs_metadata := cs_metadata s, cs_scenario := cs_scenario s, cs_response := cs_response s\<rparr> = s"

lemma early_inv_head:
  assumes "early_inv env r q s" and "same_but_head s t" and "head_ok env t"
  shows "early_inv env r q t"
proof -
  define u where "u = t\<lparr>cs_id := cs_id s, cs_name := cs_name s, cs_priority := cs_priority s, cs_persistent := cs_persistent s,
       cs_metadata := cs_metadata s, cs_scenario := cs_scenario s, cs_response := cs_response s\<rparr>"
  have "early_inv env r q u" using assms(1,2) by (simp add: same_but_head_def u_def)
  then show ?thesis
    using assms(3) by (simp add: u_def stub_inv_def compiled_ok_def url_ok_def criteria_ok_def params_ok_def keys_ok_def)
qed

lemma keeps_head:
  assumes "\<And>s t. p s = ([], t) \<Longrightarrow> head_ok env s \<Longrightarrow> same_but_head s t \<and> head_ok env t"
  shows "keeps (early_inv env r q) p"
  unfolding keeps_def
proof (intro allI impI)
  fix s t assume s: "early_inv env r q s" and p: "p s = ([], t)"
  have "head_ok env s" using s by (simp add: stub_inv_def compiled_ok_def)
  from assms [OF p this] show "early_inv env r q t" using early_inv_head [OF s] by blast
qed

lemma parse_identity_field_clean:
  assumes "parse_identity_field env doc field s = ([], t)"
  shows "t = s \<or> (\<exists>x. t = s\<lparr>cs_id := x\<rparr> \<and> (\<exists>y. se_uuid env y = Some x \<and> length y = 36))"
  using assms
  by (auto simp: parse_identity_field_def canonical_uuid_len_def Let_def split: option.splits unmarshalled.splits if_splits)

lemma same_but_head_refl [simp]: "same_but_head s s"
  by (simp add: same_but_head_def)

lemma keeps_identity: "keeps (early_inv env r q) (parse_identity env doc)"
proof -
  have "keeps (early_inv env r q) (parse_identity_field env doc field)" for field
  proof (rule keeps_head)
    fix s t assume p: "parse_identity_field env doc field s = ([], t)" and h: "head_ok env s"
    from parse_identity_field_clean [OF p] show "same_but_head s t \<and> head_ok env t"
    proof (elim disjE exE conjE)
      fix x y assume "t = s\<lparr>cs_id := x\<rparr>" "se_uuid env y = Some x" "length y = 36"
      then show ?thesis using h by (auto simp: same_but_head_def head_ok_def)
    qed (use h in simp)
  qed
  then show ?thesis unfolding parse_identity_def by (auto intro!: keeps_steps)
qed

lemma keeps_priority: "keeps (early_inv env r q) (parse_priority doc)"
proof (rule keeps_head)
  fix s t assume p: "parse_priority doc s = ([], t)" and h: "head_ok env s"
  have "t = s \<or> (\<exists>i. t = s\<lparr>cs_priority := i\<rparr> \<and> - (2 ^ 31) \<le> i \<and> i < 2 ^ 31)"
    using p unmarshal_int32_bounds by (auto simp: parse_priority_def split: option.splits unmarshalled.splits)
  then show "same_but_head s t \<and> head_ok env t"
  proof (elim disjE exE conjE)
    fix i assume "t = s\<lparr>cs_priority := i\<rparr>" "- (2 ^ 31) \<le> i" "i < 2 ^ 31"
    then show ?thesis using h by (simp add: same_but_head_def head_ok_def)
  qed (use h in simp)
qed

lemma keeps_scenario: "keeps (early_inv env r q) (parse_scenario doc)"
proof (rule keeps_head)
  fix s t assume p: "parse_scenario doc s = ([], t)" and h: "head_ok env s"
  have "t = s \<or> (\<exists>ref. t = s\<lparr>cs_scenario := Some ref\<rparr> \<and> sr_name ref \<noteq> [])"
    using p by (auto simp: parse_scenario_def split: prod.splits if_splits)
  then show "same_but_head s t \<and> head_ok env t"
  proof (elim disjE exE conjE)
    fix ref assume "t = s\<lparr>cs_scenario := Some ref\<rparr>" "sr_name ref \<noteq> []"
    then show ?thesis using h by (simp add: same_but_head_def head_ok_def)
  qed (use h in simp)
qed

lemma keeps_name: "keeps (early_inv env r q) (decode_string doc f p (\<lambda>s. cs_name_update (\<lambda>_. s)))"
  by (rule keeps_head) (auto simp: same_but_head_def head_ok_def dest!: decode_string_clean)

lemma keeps_persistent: "keeps (early_inv env r q) (decode_bool doc f p (\<lambda>b. cs_persistent_update (\<lambda>_. b)))"
  by (rule keeps_head)
     (auto simp: same_but_head_def head_ok_def decode_bool_def decode_field_def split: option.splits unmarshalled.splits)

lemma keeps_metadata: "keeps (early_inv env r q) (\<lambda>cs. pass (cs\<lparr>cs_metadata := m\<rparr>))"
  by (rule keeps_head) (auto simp: same_but_head_def head_ok_def)

lemma keeps_unsupported: "keeps I (\<lambda>cs. (es, cs))"
  by (auto simp: keeps_def)

lemma blank_stub_inv: "early_inv env raw sequence (blank_stub raw sequence)"
  by (simp add: stub_inv_def compiled_ok_def blank_stub_def head_ok_def url_ok_def url_parts_ok_def params_ok_def
      criteria_ok_def keys_ok_def origin_ok_def bodies_ok_def default_priority_def response_ok_def empty_response_def
      templates_ok_def delays_ok_def no_delay_def)

lemma parse_mapping_ok:
  assumes env: "sound_env env" and parse: "parse_mapping env doc (blank_stub raw sequence) = ([], cs)"
  shows "stub_inv env raw sequence cs \<and>
    header_lines_ok (se_unicode env) (declared_entries (response_document (map_of doc ''response''))) (cr_headers (cs_response cs))"
proof -
  let ?early = "[\<lambda>cs. (unsupported_fields supported_top_level ''/'' doc, cs), parse_identity env doc,
      decode_string doc ''name'' ''/name'' (\<lambda>s. cs_name_update (\<lambda>_. s)), parse_priority doc,
      decode_bool doc ''persistent'' ''/persistent'' (\<lambda>b. cs_persistent_update (\<lambda>_. b)),
      \<lambda>cs. pass (cs\<lparr>cs_metadata := metadata_of (map_of doc ''metadata'')\<rparr>), parse_scenario doc]"
  obtain s1 s2 where s1: "steps ?early (blank_stub raw sequence) = ([], s1)"
    and s2: "parse_request env (map_of doc ''request'') s1 = ([], s2)"
    and s3: "parse_stub_response env (map_of doc ''response'') s2 = ([], cs)"
    using parse by (auto simp: parse_mapping_def simp del: steps.simps(2))
  have "keeps (early_inv env raw sequence) (steps ?early)"
    by (rule keeps_steps) (use keeps_identity keeps_priority keeps_scenario keeps_name keeps_persistent keeps_metadata keeps_unsupported in auto)
  then have "early_inv env raw sequence s1" using s1 blank_stub_inv unfolding keeps_def by blast
  from parse_request_ok [OF env this s2] have two: "stub_inv env raw sequence s2" .
  obtain r where r: "parse_response env (map_of doc ''response'') = ([], r)" "cs = s2\<lparr>cs_response := r\<rparr>"
    using s3 by (auto simp: parse_stub_response_def split: prod.splits)
  from parse_response_ok [OF r(1)] two show ?thesis
    by (simp add: r(2) stub_inv_def compiled_ok_def head_ok_def url_ok_def params_ok_def criteria_ok_def)
qed

lemma compile_stub_ok:
  assumes "sound_env env" and "compile_stub env raw sequence = Inr cs"
  shows "compiled_ok env cs \<and> cs_raw cs = raw \<and> cs_seq cs = sequence \<and>
    (\<exists>doc. unmarshal_object raw = Value doc \<and>
      header_lines_ok (se_unicode env) (declared_entries (response_document (map_of doc ''response'')))
        (cr_headers (cs_response cs)))"
proof (cases "unmarshal_object raw")
  case (Value doc)
  obtain es cs' where p: "parse_mapping env doc (blank_stub raw sequence) = (es, cs')" by fastforce
  show ?thesis
    using parse_mapping_ok [OF assms(1), of doc raw sequence cs'] p Value assms(2)
    by (simp add: compile_stub_def stub_inv_def split: if_splits)
qed (use assms(2) in \<open>simp_all add: compile_stub_def\<close>)

lemma compile_stub_refuses: "compile_stub env raw sequence = Inl es \<Longrightarrow> es \<noteq> []"
  by (auto simp: compile_stub_def split: unmarshalled.splits prod.splits if_splits)

text \<open>
  C34. A mapping document is refused with at least one error, or compiles to a stub that is fit to be
  served: a canonical identifier, a 32-bit priority, a named scenario, a URL criterion that compiled,
  path parameters only for variables its template binds, criteria of the types their positions
  allow, body criteria in the order of their cost, and a response with a status in range, a phrase of
  one line, a known fault without a body, templates for existing lines and at least one dribble
  chunk. The header lines of the response are, name by name and regardless of spelling, the values of
  the document in the order it wrote them, and Content-Type is there at most once.
\<close>

theorem compiled_stub_fit:
  assumes "sound_env env"
  shows "(case compile_stub env raw sequence of
      Inl es \<Rightarrow> es \<noteq> []
    | Inr cs \<Rightarrow> compiled_ok env cs \<and> cs_raw cs = raw \<and> cs_seq cs = sequence \<and>
        (\<exists>doc. unmarshal_object raw = Value doc \<and>
          header_lines_ok (se_unicode env) (declared_entries (response_document (map_of doc ''response'')))
            (cr_headers (cs_response cs))))"
  using compile_stub_ok [OF assms, of raw sequence] compile_stub_refuses [of env raw sequence]
  by (simp split: sum.splits)

definition bare_stub_env :: "unit stub_env" where
  "bare_stub_env =
     \<lparr>se_matchers = bare_env, se_template = None, se_global_templating = False, se_prefix = (\<lambda>_. []),
      se_uuid = (\<lambda>s. if s = [] then None else Some s),
      se_multipart = (\<lambda>_. OtherMatcher MultipartKind (\<lambda>_. False) []), se_upper = (\<lambda>s. s),
      se_unicode = \<lparr>uc_fold_tail = (\<lambda>_ _. False), uc_lower = (\<lambda>s. s)\<rparr>\<rparr>"

lemma bare_stub_env_sound: "sound_env bare_stub_env"
  by (simp add: sound_env_def outside_multipart_def bare_stub_env_def bare_env_kinds)

lemma stub_example:
  "case compile_stub bare_stub_env (one_field ''request'' (one_field ''urlPath'' (string_text ''/a''))) 3 of
     Inr cs \<Rightarrow> cs_url_kind cs = URLExactPath \<and> cs_url_literal cs = ''/a'' \<and> cs_priority cs = 5 \<and> cr_status (cs_response cs) = 200
   | _ \<Rightarrow> False"
  by code_simp

lemma null_priority_is_zero:
  "case compile_stub bare_stub_env (one_field ''priority'' ''null'') 3 of Inr cs \<Rightarrow> cs_priority cs = 0 | _ \<Rightarrow> False"
  by code_simp

theorem compiled_stub_fit_witness:
  "(case compile_stub bare_stub_env (one_field ''request'' (one_field ''urlPath'' (string_text ''/a''))) 3 of
      Inl es \<Rightarrow> es \<noteq> []
    | Inr cs \<Rightarrow> compiled_ok bare_stub_env cs \<and>
        cs_raw cs = one_field ''request'' (one_field ''urlPath'' (string_text ''/a'')) \<and> cs_seq cs = 3 \<and>
        (\<exists>doc. unmarshal_object (one_field ''request'' (one_field ''urlPath'' (string_text ''/a''))) = Value doc \<and>
          header_lines_ok (se_unicode bare_stub_env) (declared_entries (response_document (map_of doc ''response'')))
            (cr_headers (cs_response cs)))) \<and>
   (case compile_stub bare_stub_env (one_field ''request'' (one_field ''urlPath'' (string_text ''/a''))) 3 of
      Inr cs \<Rightarrow> cs_url_kind cs = URLExactPath \<and> cs_url_literal cs = ''/a'' \<and> cs_priority cs = 5 \<and> cr_status (cs_response cs) = 200
    | _ \<Rightarrow> False)"
  by (rule conjI [OF compiled_stub_fit [OF bare_stub_env_sound] stub_example])

end
