(* ===== verification/Near_Miss.thy ===== *)
theory Near_Miss
  imports Snapshot_Select "HOL-Library.Product_Lexorder"
begin

text \<open>
  \<^verbatim>\<open>internal/wmcompat/nearmiss.go\<close> and \<^verbatim>\<open>internal/match/nearmiss.go\<close>: which stubs nearly matched. Every
  stub is scored criterion by criterion, literal texts by their edit distance, and the closest few
  are reported. Arithmetic in \<^verbatim>\<open>float64\<close> is exact arithmetic followed by a rounding function \<open>fl\<close>.
\<close>

section \<open>Edit distance\<close>

definition min3 :: "nat \<Rightarrow> nat \<Rightarrow> nat \<Rightarrow> nat" where
  "min3 a b c = (let a = (if b < a then b else a) in if c < a then c else a)"

text \<open>
  The inner loop: \<open>left\<close> is the cell written last, and the previous row is read two cells at a time.
\<close>

fun fill_row :: "'a \<Rightarrow> nat \<Rightarrow> 'a list \<Rightarrow> nat list \<Rightarrow> nat list" where
  "fill_row x left (y # ys) (diag # upper # prev) =
     (let cell = min3 (left + 1) (upper + 1) (diag + (if x = y then 0 else 1))
      in cell # fill_row x cell ys (upper # prev))"
| "fill_row x left ys prev = []"

fun edit_rows :: "nat \<Rightarrow> 'a list \<Rightarrow> 'a list \<Rightarrow> nat list \<Rightarrow> nat list" where
  "edit_rows i [] b prev = prev"
| "edit_rows i (x # a) b prev = edit_rows (Suc i) a b (i # fill_row x i b prev)"

definition edit_distance :: "'a list \<Rightarrow> 'a list \<Rightarrow> nat" where
  "edit_distance a b = last (edit_rows 1 a b [0..<length b + 1])"

text \<open>
  What it should be: the least number of unequal columns of an alignment, which writes the two texts
  one above the other with gaps.
\<close>

type_synonym 'a alignment = "('a option \<times> 'a option) list"

definition aligns :: "'a alignment \<Rightarrow> 'a list \<Rightarrow> 'a list \<Rightarrow> bool" where
  "aligns cols a b \<longleftrightarrow> List.map_filter fst cols = a \<and> List.map_filter snd cols = b"

definition edits :: "'a alignment \<Rightarrow> nat" where
  "edits cols = length (filter (\<lambda>(p, q). p \<noteq> q) cols)"

fun levenshtein :: "'a list \<Rightarrow> 'a list \<Rightarrow> nat" where
  "levenshtein [] ys = length ys"
| "levenshtein xs [] = length xs"
| "levenshtein (x # xs) (y # ys) =
     min3 (levenshtein (x # xs) ys + 1) (levenshtein xs (y # ys) + 1) (levenshtein xs ys + (if x = y then 0 else 1))"

lemma levenshtein_Nil2 [simp]: "levenshtein xs [] = length xs"
  by (cases xs) simp_all

lemma min3_Min: "min3 a b c = Min {a, b, c}"
  by (auto simp: min3_def Let_def min_def)

lemma aligns_simps [simp]:
  "aligns [] a b \<longleftrightarrow> a = [] \<and> b = []"
  "aligns ((None, None) # cols) a b \<longleftrightarrow> aligns cols a b"
  "aligns ((Some x, None) # cols) a b \<longleftrightarrow> (\<exists>a'. a = x # a' \<and> aligns cols a' b)"
  "aligns ((None, Some y) # cols) a b \<longleftrightarrow> (\<exists>b'. b = y # b' \<and> aligns cols a b')"
  "aligns ((Some x, Some y) # cols) a b \<longleftrightarrow> (\<exists>a' b'. a = x # a' \<and> b = y # b' \<and> aligns cols a' b')"
  by (auto simp: aligns_def List.map_filter_simps)

lemma edits_simps [simp]:
  "edits [] = 0" "edits ((p, q) # cols) = (if p = q then 0 else 1) + edits cols"
  by (simp_all add: edits_def)

lemma levenshtein_step:
  "levenshtein (x # xs) ys \<le> levenshtein xs ys + 1"
  "levenshtein xs (y # ys) \<le> levenshtein xs ys + 1"
  by (cases ys; simp add: min3_Min) (cases xs; simp add: min3_Min)

lemma levenshtein_least: "aligns cols xs ys \<Longrightarrow> levenshtein xs ys \<le> edits cols"
proof (induction cols arbitrary: xs ys)
  case (Cons c cols)
  obtain p q where c: "c = (p, q)" by (cases c)
  show ?case
  proof (cases p; cases q)
    fix x assume s: "p = Some x" "q = None"
    then obtain xs' where "xs = x # xs'" "aligns cols xs' ys" using Cons.prems c by auto
    then show ?thesis using Cons.IH [of xs' ys] levenshtein_step(1) [of x xs' ys] c s by simp
  next
    fix y assume s: "p = None" "q = Some y"
    then obtain ys' where "ys = y # ys'" "aligns cols xs ys'" using Cons.prems c by auto
    then show ?thesis using Cons.IH [of xs ys'] levenshtein_step(2) [of xs y ys'] c s by simp
  next
    fix x y assume s: "p = Some x" "q = Some y"
    then obtain xs' ys' where "xs = x # xs'" "ys = y # ys'" "aligns cols xs' ys'" using Cons.prems c by auto
    then show ?thesis using Cons.IH [of xs' ys'] c s by (simp add: min3_Min)
  qed (use Cons c in auto)
qed simp

lemma levenshtein_reached: "\<exists>cols. aligns cols xs ys \<and> edits cols = levenshtein xs ys"
proof (induction xs ys rule: levenshtein.induct)
  case (1 ys)
  have "aligns (map (\<lambda>y. (None, Some y)) ys) [] ys \<and> edits (map (\<lambda>y. (None, Some y)) ys) = length ys"
    by (induction ys) auto
  then show ?case by auto
next
  case (2 x xs)
  have "aligns (map (\<lambda>x. (Some x, None)) zs) zs [] \<and> edits (map (\<lambda>x. (Some x, None)) zs) = length zs" for zs :: "'a list"
    by (induction zs) auto
  then show ?case by (metis levenshtein.simps(2))
next
  case (3 x xs y ys)
  obtain a where a: "aligns a (x # xs) ys" "edits a = levenshtein (x # xs) ys" using 3(1) by blast
  obtain b where b: "aligns b xs (y # ys)" "edits b = levenshtein xs (y # ys)" using 3(2) by blast
  obtain c where c: "aligns c xs ys" "edits c = levenshtein xs ys" using 3(3) by blast
  have "levenshtein (x # xs) (y # ys) \<in>
      {levenshtein (x # xs) ys + 1, levenshtein xs (y # ys) + 1, levenshtein xs ys + (if x = y then 0 else 1)}"
    by (simp add: min3_def Let_def)
  then consider "levenshtein (x # xs) (y # ys) = edits ((None, Some y) # a)"
    | "levenshtein (x # xs) (y # ys) = edits ((Some x, None) # b)"
    | "levenshtein (x # xs) (y # ys) = edits ((Some x, Some y) # c)"
    using a(2) b(2) c(2) by (auto simp del: levenshtein.simps)
  then show ?case
  proof cases
    case 1
    moreover have "aligns ((None, Some y) # a) (x # xs) (y # ys)" using a(1) by simp
    ultimately show ?thesis by metis
  next
    case 2
    moreover have "aligns ((Some x, None) # b) (x # xs) (y # ys)" using b(1) by simp
    ultimately show ?thesis by metis
  next
    case 3
    moreover have "aligns ((Some x, Some y) # c) (x # xs) (y # ys)" using c(1) by simp
    ultimately show ?thesis by metis
  qed
qed

text \<open>The row of a prefix, and that the loops compute it.\<close>

fun distance_row :: "'a list \<Rightarrow> 'a list \<Rightarrow> 'a list \<Rightarrow> nat list" where
  "distance_row xs acc [] = [levenshtein xs acc]"
| "distance_row xs acc (y # ys) = levenshtein xs acc # distance_row xs (y # acc) ys"

lemma distance_row_hd: "\<exists>rest. distance_row xs acc ys = levenshtein xs acc # rest"
  by (cases ys) simp_all

lemma fill_row_distances:
  "fill_row x (levenshtein (x # xs) acc) ys (distance_row xs acc ys) = tl (distance_row (x # xs) acc ys)"
proof (induction ys arbitrary: acc)
  case (Cons y ys)
  obtain rest where r: "distance_row xs (y # acc) ys = levenshtein xs (y # acc) # rest" using distance_row_hd by blast
  obtain rest' where r': "distance_row (x # xs) (y # acc) ys = levenshtein (x # xs) (y # acc) # rest'"
    using distance_row_hd by blast
  show ?case using Cons.IH [of "y # acc"] r r' by (cases "x = y") (simp_all add: Let_def)
qed simp

lemma edit_rows_distances:
  "i = Suc (length xs) \<Longrightarrow> edit_rows i a b (distance_row xs [] b) = distance_row (rev a @ xs) [] b"
proof (induction a arbitrary: i xs)
  case (Cons x a)
  have "i # fill_row x i b (distance_row xs [] b) = distance_row (x # xs) [] b"
    using fill_row_distances [of x xs "[]" b] distance_row_hd [of "x # xs" "[]" b] Cons.prems by auto
  then show ?case using Cons.IH [of "Suc i" "x # xs"] Cons.prems by simp
qed simp

lemma distance_row_last: "last (distance_row xs acc ys) = levenshtein xs (rev ys @ acc)"
  by (induction ys arbitrary: acc) (simp_all, metis distance_row_hd list.distinct(1))

lemma distance_row_Nil: "distance_row [] acc ys = [length acc..<length acc + length ys + 1]"
  by (induction ys arbitrary: acc) (simp_all add: upt_rec)

lemma edit_distance_levenshtein: "edit_distance a b = levenshtein (rev a) (rev b)"
  using edit_rows_distances [of 1 "[]" a b] distance_row_Nil [of "[]" b]
  by (simp add: edit_distance_def distance_row_last del: upt_Suc)

lemma aligns_rev: "aligns (rev cols) (rev a) (rev b) \<longleftrightarrow> aligns cols a b"
  by (simp add: aligns_def List.map_filter_def rev_filter [symmetric] rev_map [symmetric])

lemma edits_rev: "edits (rev cols) = edits cols"
  by (simp add: edits_def rev_filter [symmetric])

text \<open>
  C35. The two-row distance is the edit distance: the least number of insertions, deletions and
  substitutions with which some alignment of the texts makes one of the other.
\<close>

theorem edit_distance_least:
  "edit_distance a b = (LEAST d. \<exists>cols. aligns cols a b \<and> edits cols = d)"
proof -
  obtain cols where "aligns cols (rev a) (rev b)" "edits cols = levenshtein (rev a) (rev b)"
    using levenshtein_reached by blast
  then have "aligns (rev cols) a b \<and> edits (rev cols) = edit_distance a b"
    using aligns_rev [of "rev cols" a b] by (simp add: edits_rev edit_distance_levenshtein)
  moreover have "edit_distance a b \<le> edits cols" if "aligns cols a b" for cols
    using levenshtein_least [of "rev cols" "rev a" "rev b"] that
    by (simp add: aligns_rev edits_rev edit_distance_levenshtein)
  ultimately have "(LEAST d. \<exists>cols. aligns cols a b \<and> edits cols = d) = edit_distance a b"
    by (intro Least_equality) blast+
  then show ?thesis by (rule sym)
qed

section \<open>Scoring\<close>

definition max_edit_distance_input :: nat where "max_edit_distance_input = 512"
definition near_miss_count :: nat where "near_miss_count = 3"

definition normalized_edit_distance :: "(rat \<Rightarrow> rat) \<Rightarrow> string \<Rightarrow> string \<Rightarrow> rat" where
  "normalized_edit_distance fl a b =
     (if a = b then 0
      else if a = [] \<or> b = [] then 1
      else
        let a = take max_edit_distance_input a;
            b = take max_edit_distance_input b;
            longest = (if length a < length b then length b else length a);
            d = edit_distance a b
        in if longest \<le> d then 1 else fl (of_nat d / of_nat longest))"

record difference =
  df_kind :: string
  df_name :: string
  df_expected :: string
  df_actual :: string

record near_miss =
  nm_stub_id :: string
  nm_stub_name :: string
  nm_distance :: rat
  nm_differences :: "difference list"

record scorer =
  sc_total :: rat
  sc_count :: nat
  sc_differences :: "difference list"

definition new_scorer :: scorer where
  "new_scorer = \<lparr>sc_total = 0, sc_count = 0, sc_differences = []\<rparr>"

definition scorer_exact :: "scorer \<Rightarrow> scorer" where
  "scorer_exact sc = sc\<lparr>sc_count := Suc (sc_count sc)\<rparr>"

definition scorer_missed :: "(rat \<Rightarrow> rat) \<Rightarrow> difference \<Rightarrow> scorer \<Rightarrow> scorer" where
  "scorer_missed fl d sc =
     sc\<lparr>sc_count := Suc (sc_count sc), sc_total := fl (sc_total sc + 1), sc_differences := sc_differences sc @ [d]\<rparr>"

definition scorer_near :: "(rat \<Rightarrow> rat) \<Rightarrow> difference \<Rightarrow> scorer \<Rightarrow> scorer" where
  "scorer_near fl d sc =
     (let x = normalized_edit_distance fl (df_expected d) (df_actual d);
          sc = sc\<lparr>sc_count := Suc (sc_count sc), sc_total := fl (sc_total sc + x)\<rparr>
      in if 0 < x then sc\<lparr>sc_differences := sc_differences sc @ [d]\<rparr> else sc)"

definition scorer_result :: "(rat \<Rightarrow> rat) \<Rightarrow> string \<Rightarrow> string \<Rightarrow> scorer \<Rightarrow> near_miss" where
  "scorer_result fl stub_id stub_name sc =
     \<lparr>nm_stub_id = stub_id, nm_stub_name = stub_name,
      nm_distance = (if 0 < sc_count sc then fl (sc_total sc / of_nat (sc_count sc)) else 0),
      nm_differences = sc_differences sc\<rparr>"

definition difference_of :: "string \<Rightarrow> string \<Rightarrow> string \<Rightarrow> string \<Rightarrow> difference" where
  "difference_of kind name expected actual =
     \<lparr>df_kind = kind, df_name = name, df_expected = expected, df_actual = actual\<rparr>"

definition truncate_body :: "bytes \<Rightarrow> string" where
  "truncate_body body = (if 200 < length body then take 200 body @ ellipsis else body)"

definition first_value :: "string list \<Rightarrow> string" where
  "first_value vs = (case vs of [] \<Rightarrow> [] | v # _ \<Rightarrow> v)"

definition score_method :: "(rat \<Rightarrow> rat) \<Rightarrow> 't compiled_stub \<Rightarrow> string \<Rightarrow> scorer \<Rightarrow> scorer" where
  "score_method fl cs meth sc =
     (if cs_method cs = [] \<or> cs_method cs = meth then scorer_exact sc
      else scorer_missed fl (difference_of ''method'' [] (cs_method cs) meth) sc)"

definition score_url :: "(rat \<Rightarrow> rat) \<Rightarrow> 't compiled_stub \<Rightarrow> string \<Rightarrow> string \<Rightarrow> scorer \<Rightarrow> scorer" where
  "score_url fl cs full path sc =
     (let literal = cs_url_literal cs;
          near = (\<lambda>expected actual. scorer_near fl (difference_of ''url'' [] expected actual) sc);
          missed = (\<lambda>actual. scorer_missed fl (difference_of ''url'' [] literal actual) sc)
      in case cs_url_kind cs of
           URLAny \<Rightarrow> scorer_exact sc
         | URLExactFull \<Rightarrow> if literal = full then scorer_exact sc else near literal full
         | URLExactPath \<Rightarrow> if literal = path then scorer_exact sc else near literal path
         | URLPatternFull \<Rightarrow> if pm_match (cs_url_regex cs) full then scorer_exact sc else missed full
         | URLPatternPath \<Rightarrow> if pm_match (cs_url_regex cs) path then scorer_exact sc else missed path
         | URLTemplate \<Rightarrow>
             if fst (template_match (cs_path_template cs) path) then scorer_exact sc
             else near (pt_source (cs_path_template cs)) path)"

text \<open>The criteria that are scored, in order, with the kind and name their difference would carry.\<close>

definition scored_keys :: "string \<Rightarrow> (string \<Rightarrow> field) \<Rightarrow> key_criterion list \<Rightarrow> (string \<times> string \<times> field \<times> matcher) list" where
  "scored_keys kind f ks = map (\<lambda>k. (kind, kc_name k, f (kc_name k), kc_matcher k)) ks"

definition scored_criteria :: "'t compiled_stub \<Rightarrow> (string \<times> string \<times> field \<times> matcher) list" where
  "scored_criteria cs =
     scored_keys ''header'' FHeader (cs_headers cs) @ scored_keys ''query'' FQuery (cs_query cs) @
     scored_keys ''cookie'' FCookie (cs_cookies cs) @ map (\<lambda>m. (''body'', [], FBody, m)) (cs_body_matchers cs)"

definition score_one ::
    "(rat \<Rightarrow> rat) \<Rightarrow> ('x, 'p) reader \<Rightarrow> string \<times> string \<times> field \<times> matcher \<Rightarrow> subject \<Rightarrow> bytes \<Rightarrow> scorer \<Rightarrow> scorer" where
  "score_one fl rd c subj body sc =
     (let (kind, name, f, m) = c in
      if matches rd m subj then scorer_exact sc
      else if f = FBody then scorer_missed fl (difference_of kind name (describe (rd_json rd) m) (truncate_body body)) sc
      else scorer_near fl (difference_of kind name (describe (rd_json rd) m) (first_value (subject_values rd subj))) sc)"

fun score_criteria ::
    "(rat \<Rightarrow> rat) \<Rightarrow> ('x, 'p) reader \<Rightarrow> (string \<times> string \<times> field \<times> matcher) list \<Rightarrow> ('x, 'p, 'e) parsed_request \<Rightarrow>
     scorer \<Rightarrow> scorer \<times> ('x, 'p, 'e) parsed_request" where
  "score_criteria fl rd [] r sc = (sc, r)"
| "score_criteria fl rd (c # cs) r sc =
     (case read_field rd (fst (snd (snd c))) r of
        (subj, r) \<Rightarrow> score_criteria fl rd cs r (score_one fl rd c subj (pr_body r) sc))"

definition score_stub ::
    "(rat \<Rightarrow> rat) \<Rightarrow> ('x, 'p) reader \<Rightarrow> 't compiled_stub \<Rightarrow> ('x, 'p, 'e) parsed_request \<Rightarrow>
     near_miss \<times> ('x, 'p, 'e) parsed_request" where
  "score_stub fl rd cs r =
     (let sc = score_url fl cs (pr_full_url r) (pr_path r) (score_method fl cs (pr_method r) new_scorer)
      in case score_criteria fl rd (scored_criteria cs) r sc of
           (sc, r) \<Rightarrow> (scorer_result fl (cs_id cs) (cs_name cs) sc, r))"

fun score_stubs ::
    "(rat \<Rightarrow> rat) \<Rightarrow> ('x, 'p) reader \<Rightarrow> 't compiled_stub list \<Rightarrow> ('x, 'p, 'e) parsed_request \<Rightarrow>
     near_miss list \<times> ('x, 'p, 'e) parsed_request" where
  "score_stubs fl rd [] r = ([], r)"
| "score_stubs fl rd (cs # css) r =
     (case score_stub fl rd cs r of (m, r) \<Rightarrow> case score_stubs fl rd css r of (ms, r) \<Rightarrow> (m # ms, r))"

section \<open>Ranking and rendering\<close>

definition near_less :: "near_miss \<Rightarrow> near_miss \<Rightarrow> bool" where
  "near_less a b =
     (if nm_distance a \<noteq> nm_distance b then nm_distance a < nm_distance b else string_less (nm_stub_id a) (nm_stub_id b))"

definition top_near_misses :: "near_miss list \<Rightarrow> nat \<Rightarrow> near_miss list" where
  "top_near_misses ms limit =
     (let ms = sort_stable near_less ms in if 0 < limit \<and> limit < length ms then take limit ms else ms)"

definition near_misses ::
    "(rat \<Rightarrow> rat) \<Rightarrow> ('x, 'p) reader \<Rightarrow> ('t, 'g) snapshot \<Rightarrow> nat \<Rightarrow> ('x, 'p, 'e) parsed_request \<Rightarrow>
     near_miss list \<times> ('x, 'p, 'e) parsed_request" where
  "near_misses fl rd s limit r =
     (if sn_ordered s = [] then ([], r)
      else case score_stubs fl rd (sn_ordered s) r of (ms, r) \<Rightarrow> (top_near_misses ms limit, r))"

definition truncate_for_diagnostic :: "string \<Rightarrow> string" where
  "truncate_for_diagnostic s =
     (if s = [] then ''<absent>'' else if 120 < length s then take 120 s @ ellipsis else s)"

definition newline :: string where "newline = [CHR 0x0A]"

definition render_difference :: "difference \<Rightarrow> string" where
  "render_difference d =
     ''    '' @ df_kind d @ (if df_name d \<noteq> [] then '' '' @ df_name d else []) @ '': expected '' @
     truncate_for_diagnostic (df_expected d) @ '', got '' @ truncate_for_diagnostic (df_actual d) @ newline"

definition render_near_miss :: "near_miss \<Rightarrow> string" where
  "render_near_miss m =
     newline @ ''  '' @
     (if nm_stub_name m \<noteq> [] then nm_stub_name m @ '' ('' @ nm_stub_id m @ '')'' else nm_stub_id m) @ newline @
     concat (map render_difference (nm_differences m))"

definition render_near_misses :: "near_miss list \<Rightarrow> string" where
  "render_near_misses ms =
     (if ms = [] then [] else newline @ ''Closest stubs:'' @ newline @ concat (map render_near_miss ms))"

definition unmatched_body :: string where "unmatched_body = ''Request was not matched''"

definition diagnostic_body ::
    "(rat \<Rightarrow> rat) \<Rightarrow> ('x, 'p) reader \<Rightarrow> ('t, 'g) snapshot \<Rightarrow> ('x, 'p, 'e) parsed_request \<Rightarrow> string" where
  "diagnostic_body fl rd s r =
     (let ms = fst (near_misses fl rd s near_miss_count r) in
      if ms = [] then unmatched_body
      else unmatched_body @ newline @ trim_prefix (render_near_misses ms) newline)"

section \<open>Distances and the ranking\<close>

text \<open>
  What rounding to \<^verbatim>\<open>float64\<close> does: it is monotone, repeating it changes nothing, and it keeps every
  dyadic fraction of moderate size.
\<close>

definition float_rounding :: "(rat \<Rightarrow> rat) \<Rightarrow> bool" where
  "float_rounding fl \<longleftrightarrow>
     mono fl \<and> (\<forall>x. fl (fl x) = fl x) \<and>
     (\<forall>n k :: nat. n \<le> 2 ^ 53 \<longrightarrow> k \<le> 60 \<longrightarrow> fl (of_nat n / 2 ^ k) = of_nat n / 2 ^ k)"

lemma float_nat: "float_rounding fl \<Longrightarrow> n \<le> 2 ^ 53 \<Longrightarrow> fl (of_nat n) = of_nat n"
  unfolding float_rounding_def by (metis div_by_1 le0 power_0)

lemma float_mono: "float_rounding fl \<Longrightarrow> x \<le> y \<Longrightarrow> fl x \<le> fl y"
  by (auto simp: float_rounding_def dest: monoD)

lemma float_dyadic: "float_rounding fl \<Longrightarrow> k \<le> 60 \<Longrightarrow> fl (1 / 2 ^ k) = 1 / 2 ^ k"
  unfolding float_rounding_def by (elim conjE allE [of _ 1] allE [of _ k]) simp

lemma float_between: "float_rounding fl \<Longrightarrow> 0 \<le> x \<Longrightarrow> x \<le> of_nat n \<Longrightarrow> n \<le> 2 ^ 53 \<Longrightarrow> 0 \<le> fl x \<and> fl x \<le> of_nat n"
  using float_mono [of fl 0 x] float_mono [of fl x "of_nat n"] float_nat [of fl 0] float_nat [of fl n] by simp

lemma normalized_distance_bounds:
  assumes "float_rounding fl"
  shows "(let d = normalized_edit_distance fl a b in 0 \<le> d \<and> d \<le> 1 \<and> (d \<noteq> 0 \<longrightarrow> 1 / 2 ^ 9 \<le> d))"
proof -
  let ?a = "take max_edit_distance_input a" and ?b = "take max_edit_distance_input b"
  let ?n = "max (length ?a) (length ?b)" and ?d = "edit_distance ?a ?b"
  show ?thesis
  proof (cases "a = b \<or> a = [] \<or> b = [] \<or> ?n \<le> ?d")
    case True
    then show ?thesis by (auto simp: normalized_edit_distance_def Let_def max_def split: if_splits)
  next
    case False
    then have nd: "normalized_edit_distance fl a b = fl (of_nat ?d / of_nat ?n)" and less: "?d < ?n"
      by (auto simp: normalized_edit_distance_def Let_def max_def split: if_splits)
    have "0 \<le> fl (of_nat ?d / of_nat ?n) \<and> fl (of_nat ?d / of_nat ?n) \<le> of_nat 1"
      by (rule float_between [OF assms]) (use less in \<open>auto simp: divide_le_eq\<close>)
    moreover have "1 / 2 ^ 9 \<le> fl (of_nat ?d / of_nat ?n)" if "?d \<noteq> 0"
    proof -
      have "?n \<le> 512" by (simp add: max_edit_distance_input_def)
      then have "rat_of_nat ?n \<le> 512 * rat_of_nat ?d" using that by (simp add: of_nat_mono order_trans) linarith
      then have "1 / 2 ^ 9 \<le> rat_of_nat ?d / rat_of_nat ?n" using less by (simp add: field_simps)
      then show ?thesis using float_mono [OF assms] float_dyadic [OF assms, of 9] by fastforce
    qed
    moreover have "fl (of_nat ?d / of_nat ?n) = 0" if "?d = 0" using that float_nat [OF assms, of 0] by simp
    ultimately show ?thesis unfolding nd Let_def by (cases "?d = 0") auto
  qed
qed

definition scorer_ok :: "(rat \<Rightarrow> rat) \<Rightarrow> scorer \<Rightarrow> bool" where
  "scorer_ok fl sc \<longleftrightarrow>
     0 \<le> sc_total sc \<and> sc_total sc \<le> of_nat (sc_count sc) \<and> fl (sc_total sc) = sc_total sc \<and>
     (sc_differences sc = [] \<longleftrightarrow> sc_total sc = 0) \<and> (sc_total sc \<noteq> 0 \<longrightarrow> 1 / 2 ^ 9 \<le> sc_total sc)"

lemma new_scorer_ok: "float_rounding fl \<Longrightarrow> scorer_ok fl new_scorer"
  using float_nat [of fl 0] by (simp add: scorer_ok_def new_scorer_def)

lemma scorer_exact_ok: "scorer_ok fl sc \<Longrightarrow> scorer_ok fl (scorer_exact sc)"
  by (auto simp: scorer_ok_def scorer_exact_def)

lemma scorer_add:
  assumes fl: "float_rounding fl" and ok: "scorer_ok fl sc" and room: "sc_count sc < 2 ^ 53"
    and x: "0 \<le> x" "x \<le> 1" "x \<noteq> 0 \<longrightarrow> 1 / 2 ^ 9 \<le> x"
  shows "scorer_ok fl (sc\<lparr>sc_count := Suc (sc_count sc), sc_total := fl (sc_total sc + x),
      sc_differences := sc_differences sc @ (if 0 < x then [d] else [])\<rparr>)"
proof (cases "x = 0")
  case True
  then show ?thesis using ok by (auto simp: scorer_ok_def)
next
  case False
  have range: "0 \<le> fl (sc_total sc + x) \<and> fl (sc_total sc + x) \<le> of_nat (Suc (sc_count sc))"
    by (rule float_between [OF fl]) (use ok x(1,2) room in \<open>auto simp: scorer_ok_def\<close>)
  have "1 / 2 ^ 9 \<le> sc_total sc + x" using x(3) False ok by (simp add: scorer_ok_def)
  then have low: "1 / 2 ^ 9 \<le> fl (sc_total sc + x)"
    using float_mono [OF fl] float_dyadic [OF fl, of 9] by fastforce
  have idem: "fl (fl (sc_total sc + x)) = fl (sc_total sc + x)" using fl unfolding float_rounding_def by blast
  have "fl (sc_total sc + x) \<noteq> 0" using low by auto
  then show ?thesis using range low idem False x(1) by (simp add: scorer_ok_def)
qed

lemma scorer_missed_ok:
  "float_rounding fl \<Longrightarrow> scorer_ok fl sc \<Longrightarrow> sc_count sc < 2 ^ 53 \<Longrightarrow> scorer_ok fl (scorer_missed fl d sc)"
  using scorer_add [of fl sc 1 d] by (simp add: scorer_missed_def)

lemma scorer_near_ok:
  assumes "float_rounding fl" and "scorer_ok fl sc" and "sc_count sc < 2 ^ 53"
  shows "scorer_ok fl (scorer_near fl d sc)"
proof -
  let ?x = "normalized_edit_distance fl (df_expected d) (df_actual d)"
  have "0 \<le> ?x" "?x \<le> 1" "?x \<noteq> 0 \<longrightarrow> 1 / 2 ^ 9 \<le> ?x"
    using normalized_distance_bounds [OF assms(1)] by (simp_all add: Let_def)
  from scorer_add [OF assms this, of d] show ?thesis
    by (cases "0 < ?x") (simp_all add: scorer_near_def Let_def)
qed

lemma scorer_count [simp]:
  "sc_count (scorer_exact sc) = Suc (sc_count sc)" "sc_count (scorer_missed fl d sc) = Suc (sc_count sc)"
  "sc_count (scorer_near fl d sc) = Suc (sc_count sc)"
  by (simp_all add: scorer_exact_def scorer_missed_def scorer_near_def Let_def)

lemma score_head_ok:
  assumes "float_rounding fl"
  shows "scorer_ok fl (score_url fl cs full path (score_method fl cs meth new_scorer)) \<and>
    sc_count (score_url fl cs full path (score_method fl cs meth new_scorer)) = 2"
proof -
  have m: "scorer_ok fl (score_method fl cs meth new_scorer)" "sc_count (score_method fl cs meth new_scorer) = 1"
    using new_scorer_ok [OF assms] scorer_exact_ok scorer_missed_ok [OF assms]
    by (auto simp: score_method_def new_scorer_def)
  then show ?thesis
    using scorer_exact_ok [OF m(1)] scorer_missed_ok [OF assms m(1)] scorer_near_ok [OF assms m(1)]
    by (cases "cs_url_kind cs") (auto simp: score_url_def Let_def)
qed

lemma score_one_ok:
  assumes "float_rounding fl" and "scorer_ok fl sc" and "sc_count sc < 2 ^ 53"
  shows "scorer_ok fl (score_one fl rd c subj body sc) \<and> sc_count (score_one fl rd c subj body sc) = Suc (sc_count sc)"
  using scorer_exact_ok [OF assms(2)] scorer_missed_ok [OF assms] scorer_near_ok [OF assms]
  by (auto simp: score_one_def Let_def split: prod.splits)

text \<open>The scoring of criteria without the lazily filled readings.\<close>

definition scored :: "(rat \<Rightarrow> rat) \<Rightarrow> ('x, 'p) reader \<Rightarrow> ('x, 'p, 'e) parsed_request \<Rightarrow>
    (string \<times> string \<times> field \<times> matcher) list \<Rightarrow> scorer \<Rightarrow> scorer" where
  "scored fl rd r cs sc = foldl (\<lambda>sc c. score_one fl rd c (field_subject rd (fst (snd (snd c))) r) (pr_body r) sc) sc cs"

definition stub_score ::
    "(rat \<Rightarrow> rat) \<Rightarrow> ('x, 'p) reader \<Rightarrow> ('x, 'p, 'e) parsed_request \<Rightarrow> 't compiled_stub \<Rightarrow> near_miss" where
  "stub_score fl rd r cs =
     scorer_result fl (cs_id cs) (cs_name cs) (scored fl rd r (scored_criteria cs)
       (score_url fl cs (pr_full_url r) (pr_path r) (score_method fl cs (pr_method r) new_scorer)))"

lemma scored_same: "same_request r r' \<Longrightarrow> scored fl rd r' cs sc = scored fl rd r cs sc"
proof -
  assume same: "same_request r r'"
  have "pr_body r' = pr_body r" using same unfolding same_request_def by blast
  then show ?thesis unfolding scored_def field_subject_same [OF same] by simp
qed

lemma score_criteria_pure:
  "request_inv rd r \<Longrightarrow>
   fst (score_criteria fl rd cs r sc) = scored fl rd r cs sc \<and>
   request_inv rd (snd (score_criteria fl rd cs r sc)) \<and> same_request r (snd (score_criteria fl rd cs r sc))"
proof (induction cs arbitrary: r sc)
  case Nil
  then show ?case by (simp add: scored_def)
next
  case (Cons c cs)
  let ?f = "fst (snd (snd c))"
  let ?sc = "score_one fl rd c (field_subject rd ?f r) (pr_body r) sc"
  define r1 where "r1 = snd (read_field rd ?f r)"
  note read = read_field_ok [OF Cons.prems, of ?f]
  have f: "read_field rd ?f r = (field_subject rd ?f r, r1)" using read unfolding r1_def by (metis prod.collapse)
  have inv: "request_inv rd r1" and same: "same_request r r1" using read unfolding r1_def by blast+
  have body: "pr_body r1 = pr_body r" using same unfolding same_request_def by blast
  have step: "score_criteria fl rd (c # cs) r sc = score_criteria fl rd cs r1 ?sc"
    unfolding score_criteria.simps f prod.case body ..
  have "scored fl rd r (c # cs) sc = scored fl rd r1 cs ?sc"
    unfolding scored_same [OF same] by (simp add: scored_def)
  then show ?case
    using Cons.IH [OF inv, of ?sc] same_request_trans [OF same] unfolding step by metis
qed

lemma score_stub_pure:
  "request_inv rd r \<Longrightarrow>
   fst (score_stub fl rd cs r) = stub_score fl rd r cs \<and>
   request_inv rd (snd (score_stub fl rd cs r)) \<and> same_request r (snd (score_stub fl rd cs r))"
  using score_criteria_pure [of rd r fl "scored_criteria cs"]
  by (simp add: score_stub_def stub_score_def Let_def case_prod_beta)

lemma stub_score_same: "same_request r r' \<Longrightarrow> stub_score fl rd r' cs = stub_score fl rd r cs"
proof -
  assume same: "same_request r r'"
  have "pr_full_url r' = pr_full_url r \<and> pr_path r' = pr_path r \<and> pr_method r' = pr_method r"
    using same unfolding same_request_def by blast
  then show ?thesis unfolding stub_score_def scored_same [OF same] by simp
qed

lemma score_stubs_pure:
  "request_inv rd r \<Longrightarrow> fst (score_stubs fl rd css r) = map (stub_score fl rd r) css"
proof (induction css arbitrary: r)
  case (Cons cs css)
  then show ?case
    using score_stub_pure [OF Cons.prems, of fl cs] stub_score_same
    by (auto simp: case_prod_beta)
qed simp

lemma scored_ok:
  assumes "float_rounding fl" and "scorer_ok fl sc" and "sc_count sc + length cs \<le> 2 ^ 53"
  shows "scorer_ok fl (scored fl rd r cs sc) \<and> sc_count (scored fl rd r cs sc) = sc_count sc + length cs"
  using assms(2,3)
proof (induction cs arbitrary: sc)
  case (Cons c cs)
  then have "sc_count sc < 2 ^ 53" by simp
  note one = score_one_ok [OF assms(1) Cons.prems(1) this, of rd c "field_subject rd (fst (snd (snd c))) r" "pr_body r"]
  let ?sc = "score_one fl rd c (field_subject rd (fst (snd (snd c))) r) (pr_body r) sc"
  have "scored fl rd r (c # cs) sc = scored fl rd r cs ?sc" by (simp add: scored_def)
  then show ?case using Cons.IH [of ?sc] one Cons.prems(2) by simp
qed (simp add: scored_def)

lemma stub_score_bounds:
  assumes fl: "float_rounding fl" and few: "length (scored_criteria cs) \<le> 2 ^ 40"
  shows "(let m = stub_score fl rd r cs in
      0 \<le> nm_distance m \<and> nm_distance m \<le> 1 \<and> (nm_distance m = 0 \<longleftrightarrow> nm_differences m = []))"
proof -
  let ?h = "score_url fl cs (pr_full_url r) (pr_path r) (score_method fl cs (pr_method r) new_scorer)"
  let ?s = "scored fl rd r (scored_criteria cs) ?h"
  note h = score_head_ok [OF fl, of cs "pr_full_url r" "pr_path r" "pr_method r"]
  have s: "scorer_ok fl ?s" and n: "sc_count ?s = 2 + length (scored_criteria cs)"
    using scored_ok [OF fl, of ?h "scored_criteria cs" rd r] h few by simp_all
  have dist: "nm_distance (stub_score fl rd r cs) = fl (sc_total ?s / of_nat (sc_count ?s))"
    using n by (simp add: stub_score_def scorer_result_def)
  have pos: "0 < rat_of_nat (sc_count ?s)" using n by simp
  have "0 \<le> fl (sc_total ?s / of_nat (sc_count ?s)) \<and> fl (sc_total ?s / of_nat (sc_count ?s)) \<le> of_nat 1"
    by (rule float_between [OF fl]) (use s pos in \<open>auto simp: scorer_ok_def divide_le_eq\<close>)
  moreover have "fl (sc_total ?s / of_nat (sc_count ?s)) = 0 \<longleftrightarrow> sc_total ?s = 0"
  proof
    assume z: "fl (sc_total ?s / of_nat (sc_count ?s)) = 0"
    show "sc_total ?s = 0"
    proof (rule ccontr)
      assume "sc_total ?s \<noteq> 0"
      then have low: "1 / 2 ^ 9 \<le> sc_total ?s" using s by (simp add: scorer_ok_def)
      have "rat_of_nat (sc_count ?s) \<le> 2 ^ 41"
        using n few of_nat_mono [of "sc_count ?s" "2 ^ 41", where ?'a = rat] by simp
      then have "(1 / 2 ^ 50) * rat_of_nat (sc_count ?s) \<le> sc_total ?s" using low by simp
      then have "1 / 2 ^ 50 \<le> sc_total ?s / of_nat (sc_count ?s)" using pos by (simp add: pos_le_divide_eq)
      from float_mono [OF fl this] float_dyadic [OF fl, of 50] z show False by simp
    qed
  next
    assume "sc_total ?s = 0"
    then show "fl (sc_total ?s / of_nat (sc_count ?s)) = 0" using float_nat [OF fl, of 0] by simp
  qed
  moreover have "nm_differences (stub_score fl rd r cs) = sc_differences ?s"
    by (simp add: stub_score_def scorer_result_def)
  ultimately show ?thesis using s by (simp add: dist Let_def scorer_ok_def)
qed

lemma score_one_match:
  "matches rd (snd (snd (snd c))) subj \<Longrightarrow> score_one fl rd c subj body sc = scorer_exact sc"
  by (cases c) (simp add: score_one_def)

lemma scored_all_match:
  assumes "\<forall>c\<in>set cs. matches rd (snd (snd (snd c))) (field_subject rd (fst (snd (snd c))) r)"
  shows "sc_differences (scored fl rd r cs sc) = sc_differences sc"
  using assms
proof (induction cs arbitrary: sc)
  case (Cons c cs)
  have "scored fl rd r (c # cs) sc = scored fl rd r cs (scorer_exact sc)"
    using Cons.prems by (simp add: scored_def score_one_match)
  then show ?case using Cons by (simp add: scorer_exact_def)
qed (simp add: scored_def)

lemma matching_stub_no_differences:
  assumes "stub_matches rd cs r"
  shows "nm_differences (stub_score fl rd r cs) = []"
proof -
  have fields: "field_subject rd f (bound_request cs r) = field_subject rd f r" if "\<forall>n. f \<noteq> FPathVar n" for f
    using that by (cases f) (auto simp: field_subject_def bound_request_def)
  have "(f, m) \<in> set (criteria_before_auth cs @ criteria_after_auth cs) \<and> (\<forall>n. f \<noteq> FPathVar n)"
    if "(kind, name, f, m) \<in> set (scored_criteria cs)" for kind name f m
    using that by (auto simp: scored_criteria_def scored_keys_def criteria_before_auth_def criteria_after_auth_def key_criteria_def)
  moreover have "matches rd m (field_subject rd f (bound_request cs r))"
    if "(f, m) \<in> set (criteria_before_auth cs @ criteria_after_auth cs)" for f m
    using assms that unfolding stub_matches_def by blast
  ultimately have "matches rd m (field_subject rd f r)" if "(kind, name, f, m) \<in> set (scored_criteria cs)" for kind name f m
    using that fields by metis
  then have criteria: "\<forall>c\<in>set (scored_criteria cs). matches rd (snd (snd (snd c))) (field_subject rd (fst (snd (snd c))) r)"
    by auto
  have "sc_differences (score_url fl cs (pr_full_url r) (pr_path r) (score_method fl cs (pr_method r) new_scorer)) = []"
    using assms
    by (cases "cs_url_kind cs")
       (auto simp: stub_matches_def matches_method_def match_url_def score_method_def score_url_def scorer_exact_def
          new_scorer_def Let_def split: if_splits prod.splits)
  then show ?thesis
    using scored_all_match [OF criteria] by (simp add: stub_score_def scorer_result_def)
qed

definition near_key :: "near_miss \<Rightarrow> rat \<times> nat list" where
  "near_key m = (nm_distance m, byte_key (nm_stub_id m))"

lemma near_less_key: "near_less a b \<longleftrightarrow> near_key a < near_key b"
  by (auto simp: near_less_def near_key_def string_less_key less_prod_def)

lemma top_near_misses_closest:
  fixes ms :: "near_miss list" and limit :: nat
  defines "best \<equiv> top_near_misses ms limit"
  shows "length best = (if limit = 0 then length ms else min limit (length ms))" "mset best \<subseteq># mset ms"
    "sorted_wrt (\<lambda>a b. \<not> near_less b a) best" "m \<in># mset ms - mset best \<Longrightarrow> k \<in> set best \<Longrightarrow> \<not> near_less m k"
proof -
  define l where "l = (if limit = 0 then length ms else limit)"
  let ?s = "sort_key near_key ms"
  have srt: "sort_stable near_less ms = ?s" by (rule sort_stable_key) (rule near_less_key)
  have best: "best = take l ?s" by (auto simp: best_def top_near_misses_def srt l_def Let_def)
  show "length best = (if limit = 0 then length ms else min limit (length ms))" by (simp add: best l_def min.commute)
  have split: "mset ms = mset (take l ?s) + mset (drop l ?s)" by (metis append_take_drop_id mset_append mset_sort)
  then show "mset best \<subseteq># mset ms" by (simp add: best)
  have srt2: "sorted_wrt (\<lambda>a b. \<not> near_less b a) ?s"
    using sorted_sort_key [of near_key ms] by (simp add: near_less_key not_less sorted_wrt_map)
  then show "sorted_wrt (\<lambda>a b. \<not> near_less b a) best" by (simp add: best sorted_wrt_take)
  have "\<forall>k\<in>set (take l ?s). \<forall>m\<in>set (drop l ?s). \<not> near_less m k"
    using srt2 append_take_drop_id [of l ?s] sorted_wrt_append by metis
  moreover have "mset ms - mset best = mset (drop l ?s)" by (simp add: split best)
  ultimately show "m \<in># mset ms - mset best \<Longrightarrow> k \<in> set best \<Longrightarrow> \<not> near_less m k" by (simp add: best)
qed

text \<open>
  C36. Near misses: the report is the closest candidates of all stubs, in order of distance and then of
  identifier, as many as asked for; nothing left out is closer than anything reported. Every
  distance lies between 0 and 1, is 0 exactly when no difference is reported, and a stub the request
  matches has distance 0.
\<close>

theorem near_misses_closest:
  assumes "float_rounding fl" and "request_inv rd r" and "\<forall>cs\<in>set (sn_ordered s). length (scored_criteria cs) \<le> 2 ^ 40"
  shows "(let reported = fst (near_misses fl rd s limit r); candidates = map (stub_score fl rd r) (sn_ordered s) in
      length reported = (if limit = 0 then length candidates else min limit (length candidates)) \<and>
      mset reported \<subseteq># mset candidates \<and> sorted_wrt (\<lambda>a b. \<not> near_less b a) reported \<and>
      (\<forall>m k. m \<in># mset candidates - mset reported \<longrightarrow> k \<in> set reported \<longrightarrow> \<not> near_less m k) \<and>
      (\<forall>m\<in>set candidates. 0 \<le> nm_distance m \<and> nm_distance m \<le> 1 \<and> (nm_distance m = 0 \<longleftrightarrow> nm_differences m = [])) \<and>
      (\<forall>cs\<in>set (sn_ordered s). stub_matches rd cs r \<longrightarrow> nm_distance (stub_score fl rd r cs) = 0))"
proof -
  let ?c = "map (stub_score fl rd r) (sn_ordered s)"
  have reported: "fst (near_misses fl rd s limit r) = top_near_misses ?c limit"
    using score_stubs_pure [OF assms(2), of fl "sn_ordered s"]
    by (auto simp: near_misses_def top_near_misses_def sort_stable_def case_prod_beta)
  have bounds: "0 \<le> nm_distance (stub_score fl rd r cs) \<and> nm_distance (stub_score fl rd r cs) \<le> 1 \<and>
      (nm_distance (stub_score fl rd r cs) = 0 \<longleftrightarrow> nm_differences (stub_score fl rd r cs) = [])" if "cs \<in> set (sn_ordered s)" for cs
    using stub_score_bounds [OF assms(1), of cs rd r] assms(3) that by (simp add: Let_def)
  show ?thesis
    unfolding Let_def reported using top_near_misses_closest [where ms = ?c and limit = limit] bounds matching_stub_no_differences by auto
qed

lemma identity_rounding: "float_rounding (\<lambda>x. x)"
  by (simp add: float_rounding_def mono_def)

theorem near_misses_closest_witness:
  "\<forall>rd :: (unit, unit) reader.
   let s = build_snapshot [(catch_all_stub 1)\<lparr>cs_id := ''b'', cs_method := ''GET''\<rparr>, (catch_all_stub 2)\<lparr>cs_id := ''a''\<rparr>] 0
         :: (unit, unit) snapshot;
       r = new_request :: (unit, unit, unit) parsed_request;
       reported = fst (near_misses (\<lambda>x. x) rd s 1 r); candidates = map (stub_score (\<lambda>x. x) rd r) (sn_ordered s) in
   length reported = 1 \<and> mset reported \<subseteq># mset candidates \<and>
   (\<forall>cs\<in>set (sn_ordered s). stub_matches rd cs r \<longrightarrow> nm_distance (stub_score (\<lambda>x. x) rd r cs) = 0)"
proof
  fix rd :: "(unit, unit) reader"
  let ?stubs = "[(catch_all_stub 1)\<lparr>cs_id := ''b'', cs_method := ''GET''\<rparr>, (catch_all_stub 2)\<lparr>cs_id := ''a''\<rparr>]"
  let ?s = "build_snapshot ?stubs 0 :: (unit, unit) snapshot"
  have o: "sn_ordered ?s = sort_selection_order ?stubs" by (rule build_snapshot_ordered)
  have few: "\<forall>cs\<in>set (sn_ordered ?s). length (scored_criteria cs) \<le> 2 ^ 40"
    unfolding o sort_selection_order_def set_sort_stable
    by (simp add: scored_criteria_def scored_keys_def catch_all_stub_def)
  have two: "length (sn_ordered ?s) = 2" unfolding o by (simp add: sort_selection_order_def)
  show "let s = ?s; r = new_request :: (unit, unit, unit) parsed_request;
       reported = fst (near_misses (\<lambda>x. x) rd s 1 r); candidates = map (stub_score (\<lambda>x. x) rd r) (sn_ordered s) in
   length reported = 1 \<and> mset reported \<subseteq># mset candidates \<and>
   (\<forall>cs\<in>set (sn_ordered s). stub_matches rd cs r \<longrightarrow> nm_distance (stub_score (\<lambda>x. x) rd r cs) = 0)"
    using near_misses_closest [where rd = rd and r = "new_request :: (unit, unit, unit) parsed_request" and s = ?s and limit = 1,
        OF identity_rounding request_inv_new few]
    unfolding Let_def by (simp add: two)
qed

text \<open>
  Two texts that agree in their first 512 bytes have distance 0, and connection, form, path and
  credential criteria are not scored, so a stub at distance 0 need not match.
\<close>

lemma long_texts_look_equal:
  "length p = 512 \<Longrightarrow> p @ a \<noteq> p @ b \<Longrightarrow> float_rounding fl \<Longrightarrow> normalized_edit_distance fl (p @ a) (p @ b) = 0"
proof -
  assume p: "length p = 512" and "p @ a \<noteq> p @ b" and fl: "float_rounding fl"
  have "aligns (map (\<lambda>c. (Some c, Some c)) q) q q \<and> edits (map (\<lambda>c. (Some c, Some c)) q) = 0" for q :: string
    by (induction q) simp_all
  then have "edit_distance q q = 0" for q :: string using edit_distance_levenshtein [of q q] levenshtein_least [of _ "rev q" "rev q"]
    by (metis le_zero_eq)
  then show ?thesis
    using p float_nat [OF fl, of 0] by (auto simp: normalized_edit_distance_def max_edit_distance_input_def Let_def)
qed

end
