(* ===== verification/Java_Syntax.thy ===== *)
theory Java_Syntax
  imports Utf8
begin

text \<open>
  \<^verbatim>\<open>internal/regexx/javasyntax.go\<close>: patterns are written for Java and run on RE2 or a .NET-style engine,
  so a one-pass scanner rewrites what those would read differently and refuses what neither has. The
  index into the pattern is the text that is left of it. What a scanned pattern means is compared
  with a grammar of patterns whose rewriting is written down rule by rule.
\<close>

section \<open>Character classes\<close>

type_synonym rune_range = "nat \<times> nat"

definition max_rune :: nat where "max_rune = 1114111"

definition posix_classes :: "(string \<times> rune_range list) list" where
  "posix_classes =
     [(''Lower'', [(97, 122)]), (''Upper'', [(65, 90)]), (''ASCII'', [(0, 127)]), (''Alpha'', [(65, 90), (97, 122)]),
      (''Digit'', [(48, 57)]), (''Alnum'', [(48, 57), (65, 90), (97, 122)]),
      (''Punct'', [(33, 47), (58, 64), (91, 96), (123, 126)]), (''Graph'', [(33, 126)]), (''Print'', [(32, 126)]),
      (''Blank'', [(9, 9), (32, 32)]), (''Cntrl'', [(0, 31), (127, 127)]), (''XDigit'', [(48, 57), (65, 70), (97, 102)]),
      (''Space'', [(9, 13), (32, 32)])]"

definition letter_classes :: "(char \<times> rune_range list) list" where
  "letter_classes =
     [(CHR ''h'', [(9, 9), (32, 32), (160, 160), (5760, 5760), (6158, 6158), (8192, 8202), (8239, 8239), (8287, 8287),
        (12288, 12288)]),
      (CHR ''v'', [(10, 13), (133, 133), (8232, 8233)]),
      (CHR ''s'', [(9, 13), (32, 32)])]"

text \<open>\<open>complementRanges\<close>: the loop carries the first code point not yet covered.\<close>

fun complement_from :: "nat \<Rightarrow> rune_range list \<Rightarrow> rune_range list" where
  "complement_from next [] = (if next \<le> max_rune then [(next, max_rune)] else [])"
| "complement_from next ((lo, hi) # rs) = (if next < lo then [(next, lo - 1)] else []) @ complement_from (hi + 1) rs"

definition complement_ranges :: "rune_range list \<Rightarrow> rune_range list" where
  "complement_ranges rs = complement_from 0 rs"

definition upper_hex_digit :: "nat \<Rightarrow> char" where
  "upper_hex_digit d = char_of (if d < 10 then 48 + d else 55 + d)"

fun show_upper_hex :: "nat \<Rightarrow> string" where
  "show_upper_hex n =
     (if n < 16 then [upper_hex_digit n] else show_upper_hex (n div 16) @ [upper_hex_digit (n mod 16)])"

declare show_upper_hex.simps [simp del]

definition esc_char :: char where "esc_char = CHR 0x5C"

definition is_alnum_byte :: "nat \<Rightarrow> bool" where
  "is_alnum_byte r \<longleftrightarrow> (48 \<le> r \<and> r \<le> 57) \<or> (65 \<le> r \<and> r \<le> 90) \<or> (97 \<le> r \<and> r \<le> 122)"

definition class_rune :: "nat \<Rightarrow> string" where
  "class_rune r =
     (if r < 128 \<and> is_alnum_byte r then [char_of r]
      else [esc_char] @ ''x{'' @ (if r < 16 then ''0'' else []) @ show_upper_hex r @ ''}'')"

definition ranges_text :: "rune_range list \<Rightarrow> string" where
  "ranges_text rs =
     concat (map (\<lambda>(lo, hi). class_rune lo @ (if hi \<noteq> lo then ''-'' @ class_rune hi else [])) rs)"

section \<open>Delimiting what is scanned\<close>

definition rune_width :: "string \<Rightarrow> nat" where
  "rune_width s = snd (decode_rune s)"

lemma rune_width_pos: "s \<noteq> [] \<Longrightarrow> 0 < rune_width s"
  using decode_rune_width by (cases s) (auto simp: rune_width_def simp del: decode_rune.simps)

lemma drop_shorter: "s \<noteq> [] \<Longrightarrow> 0 < n \<Longrightarrow> length (drop n s) < length s"
  by (cases s) auto

definition digit_run :: "nat \<Rightarrow> (char \<Rightarrow> bool) \<Rightarrow> string \<Rightarrow> nat" where
  "digit_run limit is s = length (takeWhile is (take limit s))"

definition is_octal_digit :: "char \<Rightarrow> bool" where
  "is_octal_digit c \<longleftrightarrow> 48 \<le> byte_of c \<and> byte_of c \<le> 55"

definition is_hex_digit :: "char \<Rightarrow> bool" where
  "is_hex_digit c \<longleftrightarrow> is_digit c \<or> (97 \<le> byte_of c \<and> byte_of c \<le> 102) \<or> (65 \<le> byte_of c \<and> byte_of c \<le> 70)"

text \<open>\<^verbatim>\<open>strings.Index\<close>.\<close>

fun index_str :: "string \<Rightarrow> string \<Rightarrow> nat option" where
  "index_str [] p = (if p = [] then Some 0 else None)"
| "index_str (c # s) p = (if has_prefix (c # s) p then Some 0 else map_option Suc (index_str s p))"

text \<open>The length of the sequence to a closing byte, or of all that is left.\<close>

definition run_to :: "char \<Rightarrow> string \<Rightarrow> nat" where
  "run_to c s = (case index_byte s c of Some k \<Rightarrow> k + 1 | None \<Rightarrow> length s)"

text \<open>
  \<open>escapeEnd\<close>: how many bytes the escape takes at whose backslash the text begins; after the backslash
  that is \<open>escape_tail\<close> of the letter and the text behind it.
\<close>

definition escape_tail :: "char \<Rightarrow> string \<Rightarrow> nat" where
  "escape_tail c t =
     (if c = CHR ''Q'' then
        1 + (case index_str t [esc_char, CHR ''E''] of Some k \<Rightarrow> k + 2 | None \<Rightarrow> length t)
      else if c \<in> {CHR ''p'', CHR ''P'', CHR ''N''} then
        1 + (if has_prefix t ''{'' then run_to (CHR ''}'') t else rune_width t)
      else if c = CHR ''x'' then
        1 + (if has_prefix t ''{'' then run_to (CHR ''}'') t else digit_run 2 is_hex_digit t)
      else if c = CHR ''u'' then 1 + digit_run 4 is_hex_digit t
      else if c = CHR ''c'' then 1 + rune_width t
      else if c = CHR ''k'' then
        1 + (if has_prefix t ''<'' then (case index_byte t (CHR ''>'') of Some k \<Rightarrow> k + 1 | None \<Rightarrow> 0) else 0)
      else if c = CHR ''0'' then
        1 + (let n = digit_run 3 is_octal_digit t in if n = 3 \<and> 51 < byte_of (hd t) then 2 else n)
      else if is_digit c then 1 + digit_run (length t) is_digit t
      else rune_width (c # t))"

definition escape_len :: "string \<Rightarrow> nat" where
  "escape_len s = (case tl s of [] \<Rightarrow> 1 | c # t \<Rightarrow> 1 + escape_tail c t)"

definition counted_closure :: "string \<Rightarrow> nat option" where
  "counted_closure s =
     (let t = tl s; n = digit_run (length t) is_digit t in
      if n = 0 then None
      else let t = drop n t;
               m = (if has_prefix t '','' then 1 + digit_run (length t) is_digit (tl t) else 0);
               t = drop m t
           in if has_prefix t ''}'' then Some (1 + n + m + 1) else None)"

section \<open>What an escape becomes\<close>

definition property_name :: "string \<Rightarrow> (string \<times> bool) option" where
  "property_name esc =
     (if length esc < 5 \<or> esc ! 0 \<noteq> esc_char \<or> (esc ! 1 \<noteq> CHR ''p'' \<and> esc ! 1 \<noteq> CHR ''P'') then None
      else if esc ! 2 \<noteq> CHR ''{'' \<or> last esc \<noteq> CHR ''}'' then None
      else Some (butlast (drop 3 esc), esc ! 1 = CHR ''P''))"

definition class_of :: "bool \<Rightarrow> rune_range list option \<Rightarrow> rune_range list option" where
  "class_of negated rs = map_option (\<lambda>rs. if negated then complement_ranges rs else rs) rs"

definition java_class_escape :: "string \<Rightarrow> rune_range list option" where
  "java_class_escape esc =
     (if length esc = 2 then
        class_of (is_upper (esc ! 1)) (map_of letter_classes (char_of (Bit_Operations.or (byte_of (esc ! 1)) 32)))
      else case property_name esc of
             None \<Rightarrow> None
           | Some (name, negated) \<Rightarrow> class_of negated (map_of posix_classes name))"

text \<open>The table of scripts is the standard library's.\<close>

definition java_script_property :: "(string \<Rightarrow> bool) \<Rightarrow> string \<Rightarrow> string option" where
  "java_script_property scripts esc =
     (case property_name esc of
        None \<Rightarrow> None
      | Some (name, negated) \<Rightarrow>
          if has_prefix name ''Is'' \<and> scripts (drop 2 name)
          then Some ([esc_char] @ (if negated then ''P{'' else ''p{'') @ drop 2 name @ ''}'') else None)"

definition java_octal_escape :: "string \<Rightarrow> nat option" where
  "java_octal_escape esc =
     (if length esc < 3 \<or> esc ! 1 \<noteq> CHR ''0'' then None
      else Some (foldl (\<lambda>r c. r * 8 + (byte_of c - 48)) 0 (drop 2 esc)))"

definition quoted_text :: "string \<Rightarrow> string" where
  "quoted_text esc =
     (let t = drop 2 esc in
      if has_suffix t [esc_char, CHR ''E''] then take (length t - 2) t else t)"

definition line_break_text :: string where
  "line_break_text =
     ''(?:'' @ class_rune 13 @ class_rune 10 @ ''|['' @ ranges_text [(10, 13), (133, 133), (8232, 8233)] @ ''])''"

section \<open>The scanner\<close>

text \<open>\<open>javaTranslator\<close>; the innermost open group is the head of \<open>jt_groups\<close>, no atom is -1 in the code.\<close>

record java_translator =
  jt_out :: string
  jt_atom :: "nat option"
  jt_groups :: "nat list"
  jt_changed :: bool
  jt_err :: "string option"

definition max_translated_bytes :: nat where "max_translated_bytes = 1048576"

definition emit :: "string \<Rightarrow> java_translator \<Rightarrow> java_translator" where
  "emit text t = t\<lparr>jt_out := jt_out t @ text\<rparr>"

text \<open>The next thing emitted is an atom.\<close>

definition begin_atom :: "java_translator \<Rightarrow> java_translator" where
  "begin_atom t = t\<lparr>jt_atom := Some (length (jt_out t))\<rparr>"

function write_quoted_chars :: "string \<Rightarrow> java_translator \<Rightarrow> java_translator" where
  "write_quoted_chars text t =
     (case text of
        [] \<Rightarrow> t
      | c # rest \<Rightarrow>
          (let t = begin_atom t in
           if byte_of c < 128 then write_quoted_chars rest (emit (class_rune (byte_of c)) t)
           else write_quoted_chars (drop (rune_width text) text) (emit (take (rune_width text) text) t)))"
  by pat_completeness auto

termination
proof (relation "measure (\<lambda>(text, t). length text)", goal_cases)
  case (3 s t c rest t')
  then show ?case using drop_shorter [OF _ rune_width_pos, of s s] by simp
qed simp_all

declare write_quoted_chars.simps [simp del]

definition write_quoted :: "string \<Rightarrow> java_translator \<Rightarrow> java_translator" where
  "write_quoted text t = (write_quoted_chars text t)\<lparr>jt_changed := True\<rparr>"

definition is_quote_block :: "string \<Rightarrow> bool" where
  "is_quote_block esc \<longleftrightarrow> has_prefix esc [esc_char, CHR ''Q'']"

definition is_line_break :: "string \<Rightarrow> bool" where
  "is_line_break esc \<longleftrightarrow> esc = [esc_char, CHR ''R'']"

text \<open>
  What the two contexts put for an escape that is neither a quoted block nor a line break: the
  members of its class, a script, a code point, or nothing of ours.
\<close>

datatype lowered = LowerClass "rune_range list" | LowerText string | LowerNot

definition lower_escape :: "(string \<Rightarrow> bool) \<Rightarrow> string \<Rightarrow> lowered" where
  "lower_escape scripts esc =
     (case java_class_escape esc of
        Some rs \<Rightarrow> LowerClass rs
      | None \<Rightarrow>
          (case java_script_property scripts esc of
             Some s \<Rightarrow> LowerText s
           | None \<Rightarrow> (case java_octal_escape esc of Some r \<Rightarrow> LowerText (class_rune r) | None \<Rightarrow> LowerNot)))"

definition scan_escape :: "(string \<Rightarrow> bool) \<Rightarrow> string \<Rightarrow> java_translator \<Rightarrow> java_translator" where
  "scan_escape scripts esc t =
     (if is_quote_block esc then write_quoted (quoted_text esc) t
      else if is_line_break esc then (emit line_break_text (begin_atom t))\<lparr>jt_changed := True\<rparr>
      else case lower_escape scripts esc of
             LowerClass rs \<Rightarrow> (emit (''['' @ ranges_text rs @ '']'') (begin_atom t))\<lparr>jt_changed := True\<rparr>
           | LowerText s \<Rightarrow> (emit s (begin_atom t))\<lparr>jt_changed := True\<rparr>
           | LowerNot \<Rightarrow> emit esc (begin_atom t))"

definition class_escape :: "(string \<Rightarrow> bool) \<Rightarrow> nat \<Rightarrow> string \<Rightarrow> java_translator \<Rightarrow> string + java_translator" where
  "class_escape scripts offset esc t =
     (if is_quote_block esc then Inr (write_quoted (quoted_text esc) t)
      else if is_line_break esc then
        Inl ([esc_char] @ ''R (at offset '' @ show_nat offset @
             '') matches a sequence, so it has no meaning inside a character class'')
      else Inr (case lower_escape scripts esc of
                  LowerClass rs \<Rightarrow> (emit (ranges_text rs) t)\<lparr>jt_changed := True\<rparr>
                | LowerText s \<Rightarrow> (emit s t)\<lparr>jt_changed := True\<rparr>
                | LowerNot \<Rightarrow> emit esc t))"

definition intersection_error :: "nat \<Rightarrow> string" where
  "intersection_error offset =
     ''character-class intersection (&& at offset '' @ show_nat offset @
     '') has no equivalent in either regex engine; write the resulting class out explicitly''"

definition nested_class_error :: "nat \<Rightarrow> string" where
  "nested_class_error offset =
     ''a nested character class ([ at offset '' @ show_nat offset @
     '') has no equivalent in either regex engine; write the union out as a single class''"

lemma escape_len_pos: "0 < escape_len s"
  by (simp add: escape_len_def split: list.split)

text \<open>The members of a class up to its bracket; \<open>len\<close> is the length of the pattern, for the offsets.\<close>

function class_members ::
    "(string \<Rightarrow> bool) \<Rightarrow> nat \<Rightarrow> nat \<Rightarrow> string \<Rightarrow> java_translator \<Rightarrow> string + string \<times> java_translator" where
  "class_members scripts len start s t =
     (case s of
        [] \<Rightarrow> Inr ([], t\<lparr>jt_atom := Some start\<rparr>)
      | c # rest \<Rightarrow>
          if c = CHR '']'' then Inr (rest, (emit '']'' t)\<lparr>jt_atom := Some start\<rparr>)
          else if c = CHR ''&'' \<and> has_prefix rest ''&'' then Inl (intersection_error (len - length s))
          else if c = CHR ''['' then Inl (nested_class_error (len - length s))
          else if c = esc_char then
            (case class_escape scripts (len - length s) (take (escape_len s) s) t of
               Inl e \<Rightarrow> Inl e
             | Inr t \<Rightarrow> class_members scripts len start (drop (escape_len s) s) t)
          else class_members scripts len start rest (emit [c] t))"
  by pat_completeness auto

termination
proof (relation "measure (\<lambda>(scripts, len, start, s, t). length s)", goal_cases)
  case (2 scripts len start s t c rest t')
  then show ?case using drop_shorter [OF _ escape_len_pos, of s s] by simp
qed simp_all

declare class_members.simps [simp del]

definition scan_class ::
    "(string \<Rightarrow> bool) \<Rightarrow> nat \<Rightarrow> string \<Rightarrow> java_translator \<Rightarrow> string + string \<times> java_translator" where
  "scan_class scripts len s t =
     (let start = length (jt_out t); t = emit ''['' t; s = tl s in
      if has_prefix s ''^'' then class_members scripts len start (tl s) (emit ''^'' t)
      else class_members scripts len start s t)"

definition make_atomic :: "nat \<Rightarrow> java_translator \<Rightarrow> java_translator" where
  "make_atomic a t = t\<lparr>jt_out := take a (jt_out t) @ ''(?>'' @ drop a (jt_out t) @ '')'', jt_changed := True\<rparr>"

definition is_quantifier_char :: "char \<Rightarrow> bool" where
  "is_quantifier_char c \<longleftrightarrow> c \<in> {CHR ''*'', CHR ''+'', CHR ''?'', CHR ''{''}"

definition possessive_error :: "nat \<Rightarrow> string" where
  "possessive_error offset =
     ''a quantifier cannot follow a possessive quantifier (at offset '' @ show_nat offset @
     ''); Java rejects this and so does WireMock''"

definition quantifier_suffix :: "nat \<Rightarrow> string \<Rightarrow> java_translator \<Rightarrow> string \<times> java_translator" where
  "quantifier_suffix len s t =
     (case s of
        c # rest \<Rightarrow>
          if c = CHR ''+'' \<and> jt_atom t \<noteq> None then
            (let t = (make_atomic (the (jt_atom t)) t)\<lparr>jt_atom := None\<rparr>
             in (rest,
                 if rest \<noteq> [] \<and> is_quantifier_char (hd rest)
                 then t\<lparr>jt_err := Some (possessive_error (len - length rest))\<rparr> else t))
          else if c = CHR ''?'' then (rest, (emit ''?'' t)\<lparr>jt_atom := None\<rparr>)
          else (s, t\<lparr>jt_atom := None\<rparr>)
      | [] \<Rightarrow> (s, t\<lparr>jt_atom := None\<rparr>))"

definition open_group :: "string \<Rightarrow> java_translator \<Rightarrow> string \<times> java_translator" where
  "open_group s t =
     (let t = emit ''('' (t\<lparr>jt_groups := length (jt_out t) # jt_groups t\<rparr>) in
      if has_prefix s ''?'' then (tl s, (emit ''?'' t)\<lparr>jt_atom := None\<rparr>) else (s, t\<lparr>jt_atom := None\<rparr>))"

definition close_group :: "java_translator \<Rightarrow> java_translator" where
  "close_group t =
     (case jt_groups t of
        g # gs \<Rightarrow> (emit '')'' t)\<lparr>jt_atom := Some g, jt_groups := gs\<rparr>
      | [] \<Rightarrow> (emit '')'' t)\<lparr>jt_atom := None\<rparr>)"

text \<open>One round of the loop's \<^verbatim>\<open>switch\<close>.\<close>

definition scan_step ::
    "(string \<Rightarrow> bool) \<Rightarrow> nat \<Rightarrow> string \<Rightarrow> java_translator \<Rightarrow> string + string \<times> java_translator" where
  "scan_step scripts len s t =
     (let c = hd s in
      if c = esc_char then Inr (drop (escape_len s) s, scan_escape scripts (take (escape_len s) s) t)
      else if c = CHR ''['' then scan_class scripts len s t
      else if c = CHR ''('' then Inr (open_group (tl s) t)
      else if c = CHR '')'' then Inr (tl s, close_group t)
      else if c \<in> {CHR ''*'', CHR ''+'', CHR ''?''} then Inr (quantifier_suffix len (tl s) (emit [c] t))
      else if c = CHR ''{'' then
        (case counted_closure s of
           Some n \<Rightarrow> Inr (quantifier_suffix len (drop n s) (emit (take n s) t))
         | None \<Rightarrow> Inr (tl s, emit ''{'' (begin_atom t)))
      else if c \<in> {CHR ''|'', CHR ''^'', CHR ''$''} then Inr (tl s, (emit [c] t)\<lparr>jt_atom := None\<rparr>)
      else Inr (drop (rune_width s) s, emit (take (rune_width s) s) (begin_atom t)))"

definition expansion_error :: string where
  "expansion_error =
     ''the pattern expands past 1048576 bytes once its Java-only syntax is written out; the class escapes in it cover most of Unicode''"

lemma class_members_shorter:
  "class_members scripts len start s t = Inr (s', t') \<Longrightarrow> length s' \<le> length s"
proof (induction scripts len start s t arbitrary: s' t' rule: class_members.induct)
  case (1 scripts len start s t)
  show ?case
  proof (cases s)
    case (Cons c rest)
    show ?thesis
    proof (cases "c = esc_char")
      case esc: True
      then have n: "c \<noteq> CHR '']''" "c \<noteq> CHR ''&''" "c \<noteq> CHR ''[''" by (simp_all add: esc_char_def)
      obtain t1 where "class_escape scripts (len - length s) (take (escape_len s) s) t = Inr t1"
        "class_members scripts len start (drop (escape_len s) s) t1 = Inr (s', t')"
        using "1.prems" Cons n esc by (subst (asm) class_members.simps) (auto split: sum.splits)
      from "1.IH"(1) [OF Cons _ _ _ _ this] n esc show ?thesis by simp
    next
      case False
      have "length s' \<le> length rest"
      proof (cases "c = CHR '']'' \<or> c = CHR ''&'' \<and> has_prefix rest ''&'' \<or> c = CHR ''[''")
        case True
        then show ?thesis using "1.prems" Cons by (subst (asm) class_members.simps) auto
      next
        case f: False
        then have "class_members scripts len start rest (emit [c] t) = Inr (s', t')"
          using "1.prems" Cons False by (subst (asm) class_members.simps) (simp split: if_split_asm)
        from "1.IH"(2) [OF Cons _ _ _ _ this] f False show ?thesis by simp
      qed
      then show ?thesis using Cons by simp
    qed
  qed (use "1.prems" in \<open>simp add: class_members.simps\<close>)
qed

lemma scan_class_shorter: "s \<noteq> [] \<Longrightarrow> scan_class scripts len s t = Inr (s', t') \<Longrightarrow> length s' < length s"
  by (auto simp: scan_class_def Let_def dest!: class_members_shorter split: if_splits)
    (cases s; cases "tl s"; simp)+

lemma quantifier_suffix_shorter: "quantifier_suffix len s t = (s', t') \<Longrightarrow> length s' \<le> length s"
  by (auto simp: quantifier_suffix_def Let_def split: list.splits if_splits)

lemma counted_closure_pos: "counted_closure s = Some n \<Longrightarrow> 0 < n"
  by (auto simp: counted_closure_def Let_def split: if_splits)

text \<open>The branches of the \<^verbatim>\<open>switch\<close>.\<close>

lemma scan_cases:
  obtains (esc) "c = esc_char" | (cls) "c = CHR ''[''" | (opn) "c = CHR ''(''" | (cls2) "c = CHR '')''"
    | (qnt) "c = CHR ''*'' \<or> c = CHR ''+'' \<or> c = CHR ''?''" | (brace) "c = CHR ''{''"
    | (mark) "c = CHR ''|'' \<or> c = CHR ''^'' \<or> c = CHR ''$''"
    | (lit) "c \<noteq> esc_char" "c \<noteq> CHR ''[''" "c \<noteq> CHR ''(''" "c \<noteq> CHR '')''" "c \<noteq> CHR ''*''" "c \<noteq> CHR ''+''" "c \<noteq> CHR ''?''"
      "c \<noteq> CHR ''{''" "c \<noteq> CHR ''|''" "c \<noteq> CHR ''^''" "c \<noteq> CHR ''$''"
  by metis

lemma scan_step_shorter:
  assumes "s \<noteq> []" and "scan_step scripts len s t = Inr (s', t')"
  shows "length s' < length s"
proof -
  obtain c rest where s: "s = c # rest" using assms(1) by (cases s) auto
  have drop: "0 < n \<Longrightarrow> length (drop n s) < length s" for n using assms(1) by (rule drop_shorter)
  show ?thesis
  proof (cases rule: scan_cases [of c])
    case esc
    then show ?thesis using assms(2) s drop [OF escape_len_pos, of s] by (auto simp: scan_step_def)
  next
    case cls
    then show ?thesis using assms(2) s scan_class_shorter [OF assms(1), of scripts len t s' t']
      by (simp add: scan_step_def esc_char_def)
  next
    case opn
    then show ?thesis using assms(2) s by (auto simp: scan_step_def esc_char_def open_group_def Let_def split: if_splits)
  next
    case cls2
    then show ?thesis using assms(2) s by (auto simp: scan_step_def esc_char_def)
  next
    case qnt
    then have "quantifier_suffix len rest (emit [c] t) = (s', t')" using assms(2) s by (auto simp: scan_step_def esc_char_def)
    then show ?thesis using quantifier_suffix_shorter s by fastforce
  next
    case brace
    show ?thesis
    proof (cases "counted_closure s")
      case None
      then show ?thesis using assms(2) s brace by (auto simp: scan_step_def esc_char_def)
    next
      case (Some n)
      then have "quantifier_suffix len (drop n s) (emit (take n s) t) = (s', t')"
        using assms(2) s brace by (simp add: scan_step_def esc_char_def Let_def)
      from quantifier_suffix_shorter [OF this] drop [OF counted_closure_pos [OF Some]] show ?thesis by linarith
    qed
  next
    case mark
    then show ?thesis using assms(2) s by (auto simp: scan_step_def esc_char_def)
  next
    case lit
    then show ?thesis using assms(2) s drop [OF rune_width_pos, of s] by (auto simp: scan_step_def)
  qed
qed

function translate_loop ::
    "(string \<Rightarrow> bool) \<Rightarrow> nat \<Rightarrow> string \<Rightarrow> java_translator \<Rightarrow> string + java_translator" where
  "translate_loop scripts len s t =
     (case jt_err t of
        Some e \<Rightarrow> Inl e
      | None \<Rightarrow>
          if s = [] then Inr t
          else if max_translated_bytes < length (jt_out t) then Inl expansion_error
          else case scan_step scripts len s t of
                 Inl e \<Rightarrow> Inl e
               | Inr (s, t) \<Rightarrow> translate_loop scripts len s t)"
  by pat_completeness auto

termination
proof (relation "measure (\<lambda>(scripts, len, s, t). length s)", goal_cases)
  case (2 scripts len s t y s' t')
  then show ?case using scan_step_shorter [of s scripts len t s' t'] by (cases y) simp
qed simp

declare translate_loop.simps [simp del]

definition new_translator :: java_translator where
  "new_translator = \<lparr>jt_out = [], jt_atom = None, jt_groups = [], jt_changed = False, jt_err = None\<rparr>"

definition run_translator :: "(string \<Rightarrow> bool) \<Rightarrow> string \<Rightarrow> string + java_translator" where
  "run_translator scripts src = translate_loop scripts (length src) src new_translator"

definition translate_java :: "(string \<Rightarrow> bool) \<Rightarrow> string \<Rightarrow> string + string" where
  "translate_java scripts src =
     (if \<not> contains_any src [esc_char, CHR ''['', CHR ''+''] then Inr src
      else case run_translator scripts src of
             Inl e \<Rightarrow> Inl e
           | Inr t \<Rightarrow> Inr (if jt_changed t then jt_out t else src))"

section \<open>A scan that rewrites nothing has copied\<close>

definition copies :: "string \<Rightarrow> java_translator \<Rightarrow> java_translator \<Rightarrow> bool" where
  "copies used t t' \<longleftrightarrow> (\<not> jt_changed t' \<longrightarrow> \<not> jt_changed t \<and> jt_out t' = jt_out t @ used)"

lemma copies_trans: "copies a t t1 \<Longrightarrow> copies b t1 t2 \<Longrightarrow> copies (a @ b) t t2"
  by (simp add: copies_def)

lemma copies_changed [simp]: "copies a t (t'\<lparr>jt_changed := True\<rparr>)"
  by (simp add: copies_def)

lemma copies_emit [simp]:
  "copies a t (emit b t') \<longleftrightarrow> (\<not> jt_changed t' \<longrightarrow> \<not> jt_changed t \<and> jt_out t' @ b = jt_out t @ a)"
  "copies a t (t'\<lparr>jt_atom := x\<rparr>) = copies a t t'" "copies a t (t'\<lparr>jt_groups := g\<rparr>) = copies a t t'"
  "copies a t (t'\<lparr>jt_err := e\<rparr>) = copies a t t'" "copies a t (begin_atom t') = copies a t t'"
  "copies [] t t" "copies a t (make_atomic n t')"
  by (simp_all add: copies_def emit_def begin_atom_def make_atomic_def)

lemma translator_fields [simp]:
  "jt_out (emit a t) = jt_out t @ a" "jt_changed (emit a t) = jt_changed t" "jt_err (emit a t) = jt_err t"
  "jt_groups (emit a t) = jt_groups t" "jt_atom (emit a t) = jt_atom t"
  "jt_out (begin_atom t) = jt_out t" "jt_changed (begin_atom t) = jt_changed t" "jt_err (begin_atom t) = jt_err t"
  "jt_groups (begin_atom t) = jt_groups t" "jt_atom (begin_atom t) = Some (length (jt_out t))"
  by (simp_all add: emit_def begin_atom_def)

lemma scan_escape_copies: "copies esc t (scan_escape scripts esc t)"
  by (simp add: scan_escape_def write_quoted_def split: lowered.split)

lemma class_escape_copies: "class_escape scripts offset esc t = Inr t' \<Longrightarrow> copies esc t t'"
  by (auto simp: class_escape_def write_quoted_def split: lowered.splits if_splits)

lemma class_members_copies:
  "class_members scripts len start s t = Inr (s', t') \<Longrightarrow> \<exists>used. s = used @ s' \<and> copies used t t'"
proof (induction scripts len start s t arbitrary: s' t' rule: class_members.induct)
  case (1 scripts len start s t)
  show ?case
  proof (cases s)
    case Nil
    then show ?thesis using "1.prems" by (auto simp: class_members.simps)
  next
    case (Cons c rest)
    show ?thesis
    proof (cases "c = esc_char")
      case esc: True
      let ?n = "escape_len s"
      from esc have n: "c \<noteq> CHR '']''" "c \<noteq> CHR ''&''" "c \<noteq> CHR ''[''" by (simp_all add: esc_char_def)
      obtain t1 where t1: "class_escape scripts (len - length s) (take ?n s) t = Inr t1"
        and m: "class_members scripts len start (drop ?n s) t1 = Inr (s', t')"
        using "1.prems" Cons n esc by (subst (asm) class_members.simps) (auto split: sum.splits)
      from "1.IH"(1) [OF Cons _ _ _ _ t1 m] n esc
      obtain used where "drop ?n s = used @ s'" "copies used t1 t'" by auto
      then have "s = (take ?n s @ used) @ s' \<and> copies (take ?n s @ used) t t'"
        using copies_trans [OF class_escape_copies [OF t1]] by (metis append.assoc append_take_drop_id)
      then show ?thesis by blast
    next
      case False
      consider "c = CHR '']''" "rest = s'" "t' = (emit '']'' t)\<lparr>jt_atom := Some start\<rparr>"
        | "c \<noteq> CHR '']''" "\<not> (c = CHR ''&'' \<and> has_prefix rest ''&'')" "c \<noteq> CHR ''[''"
          "class_members scripts len start rest (emit [c] t) = Inr (s', t')"
        using "1.prems" Cons False by (subst (asm) class_members.simps) (auto split: if_splits)
      then show ?thesis
      proof cases
        case 1
        then show ?thesis using Cons by (intro exI [of _ "[c]"]) (simp add: copies_def)
      next
        case 2
        from "1.IH"(2) [OF Cons 2(1,2,3) False 2(4)]
        obtain used where "rest = used @ s'" "copies used (emit [c] t) t'" by blast
        then show ?thesis using Cons by (intro exI [of _ "c # used"]) (simp add: copies_def)
      qed
    qed
  qed
qed

lemma quantifier_suffix_copies:
  "quantifier_suffix len s t = (s', t') \<Longrightarrow> \<exists>used. s = used @ s' \<and> copies used t t'"
  by (auto simp: quantifier_suffix_def Let_def split: list.splits if_splits)

lemma scan_class_copies:
  assumes "hd s = CHR ''[''" and "s \<noteq> []" and "scan_class scripts len s t = Inr (s', t')"
  shows "\<exists>used. s = used @ s' \<and> copies used t t'"
proof -
  have s: "s = ''['' @ tl s" using assms(1,2) by (cases s) auto
  have e: "copies a t (emit a t)" for a t by simp
  show ?thesis
  proof (cases "has_prefix (tl s) ''^''")
    case True
    then have t: "tl s = ''^'' @ tl (tl s)" by (cases "tl s") auto
    from True assms(3) have "class_members scripts len (length (jt_out t)) (tl (tl s)) (emit ''^'' (emit ''['' t)) = Inr (s', t')"
      by (simp add: scan_class_def)
    from class_members_copies [OF this] obtain used where "tl (tl s) = used @ s'" "copies used (emit ''^'' (emit ''['' t)) t'"
      by blast
    then have "s = (''['' @ ''^'' @ used) @ s'" "copies (''['' @ ''^'' @ used) t t'"
      using s t copies_trans [OF e copies_trans [OF e]] by (metis append.assoc)+
    then show ?thesis by blast
  next
    case False
    then have "class_members scripts len (length (jt_out t)) (tl s) (emit ''['' t) = Inr (s', t')"
      using assms(3) by (simp add: scan_class_def)
    from class_members_copies [OF this] obtain used where "tl s = used @ s'" "copies used (emit ''['' t) t'" by blast
    then have "s = (''['' @ used) @ s'" "copies (''['' @ used) t t'"
      using s copies_trans [OF e] by (metis append.assoc)+
    then show ?thesis by blast
  qed
qed

lemma scan_step_copies:
  assumes "s \<noteq> []" and "scan_step scripts len s t = Inr (s', t')"
  shows "\<exists>used. s = used @ s' \<and> copies used t t'"
proof -
  obtain c rest where s: "s = c # rest" using assms(1) by (cases s) auto
  have quant: "\<exists>used. s = used @ s' \<and> copies used t t'"
    if "quantifier_suffix len (drop n s) (emit (take n s) t) = (s', t')" for n
  proof -
    from quantifier_suffix_copies [OF that] obtain used where "drop n s = used @ s'" "copies used (emit (take n s) t) t'" by blast
    moreover have "copies (take n s) t (emit (take n s) t)" by simp
    ultimately have "s = (take n s @ used) @ s'" "copies (take n s @ used) t t'"
      using copies_trans by (metis append.assoc append_take_drop_id, blast)
    then show ?thesis by blast
  qed
  have eaten: "\<exists>used. s = used @ s' \<and> copies used t t'" if "s' = drop n s" "copies (take n s) t t'" for n
    using that by (intro exI [of _ "take n s"]) simp
  show ?thesis
  proof (cases rule: scan_cases [of c])
    case esc
    then show ?thesis using assms(2) s by (intro eaten [of "escape_len s"]) (auto simp: scan_step_def scan_escape_copies)
  next
    case cls
    then show ?thesis using assms(2) s scan_class_copies [of s scripts len t s' t'] by (simp add: scan_step_def esc_char_def)
  next
    case opn
    then have "open_group rest t = (s', t')" using assms(2) s by (simp add: scan_step_def esc_char_def)
    then show ?thesis using s opn
      by (intro eaten [of "if has_prefix rest ''?'' then 2 else 1"]; cases rest)
        (auto simp: open_group_def Let_def split: if_splits)
  next
    case cls2
    then have "s' = rest" "t' = close_group t" using assms(2) s by (simp_all add: scan_step_def esc_char_def)
    then show ?thesis using s cls2 by (intro eaten [of 1]) (auto simp: close_group_def split: list.splits)
  next
    case qnt
    then have "quantifier_suffix len rest (emit [c] t) = (s', t')" using assms(2) s by (auto simp: scan_step_def esc_char_def)
    then show ?thesis using quant [of 1] s by simp
  next
    case brace
    show ?thesis
    proof (cases "counted_closure s")
      case None
      then have "s' = rest" "t' = emit ''{'' (begin_atom t)" using assms(2) s brace by (auto simp: scan_step_def esc_char_def)
      then show ?thesis using s brace by (intro eaten [of 1]) auto
    next
      case (Some n)
      then have "quantifier_suffix len (drop n s) (emit (take n s) t) = (s', t')"
        using assms(2) s brace by (simp add: scan_step_def esc_char_def Let_def)
      then show ?thesis by (rule quant)
    qed
  next
    case mark
    then have "s' = rest" "copies [c] t t'" using assms(2) s by (auto simp: scan_step_def esc_char_def)
    then show ?thesis using s by (intro eaten [of 1]) auto
  next
    case lit
    then show ?thesis using assms(2) s by (intro eaten [of "rune_width s"]) (auto simp: scan_step_def)
  qed
qed

lemma translate_loop_copies: "translate_loop scripts len s t = Inr t' \<Longrightarrow> copies s t t'"
proof (induction scripts len s t arbitrary: t' rule: translate_loop.induct)
  case (1 scripts len s t)
  show ?case
  proof (cases "s = []")
    case True
    then show ?thesis using "1.prems" by (subst (asm) translate_loop.simps) (auto split: option.splits)
  next
    case False
    then obtain s1 t1 where e: "jt_err t = None" "\<not> max_translated_bytes < length (jt_out t)"
      and step: "scan_step scripts len s t = Inr (s1, t1)" and rest: "translate_loop scripts len s1 t1 = Inr t'"
      using "1.prems" by (subst (asm) translate_loop.simps) (auto split: option.splits if_splits sum.splits)
    from scan_step_copies [OF False step] obtain used where u: "s = used @ s1" "copies used t t1" by blast
    from "1.IH" [OF e(1) False e(2) step refl rest] u show ?thesis using copies_trans by blast
  qed
qed

text \<open>Without the three characters that start a rewrite nothing is rewritten and nothing refused.\<close>

definition rewritable :: "string \<Rightarrow> bool" where
  "rewritable src \<longleftrightarrow> contains_any src [esc_char, CHR ''['', CHR ''+'']"

lemma rewritable_append: "rewritable (a @ b) \<longleftrightarrow> rewritable a \<or> rewritable b"
  by (simp add: rewritable_def contains_any_def list_ex_iff bex_Un)

lemma plain_step:
  assumes "s \<noteq> []" and "\<not> rewritable s" and "\<not> jt_changed t" and "jt_err t = None"
  shows "\<exists>s' t'. scan_step scripts len s t = Inr (s', t') \<and> \<not> jt_changed t' \<and> jt_err t' = None"
proof -
  obtain c rest where s: "s = c # rest" using assms(1) by (cases s) auto
  have c: "c \<noteq> esc_char" "c \<noteq> CHR ''[''" "c \<noteq> CHR ''+''" and plus: "CHR ''+'' \<notin> set s"
    using assms(2) s by (auto simp: rewritable_def contains_any_def list_ex_iff)
  have quant: "\<exists>s' t'. quantifier_suffix len s1 (emit a t) = (s', t') \<and> \<not> jt_changed t' \<and> jt_err t' = None"
    if "CHR ''+'' \<notin> set s1" for s1 a
    using that assms(3,4) by (cases s1) (auto simp: quantifier_suffix_def)
  have "CHR ''+'' \<notin> set rest" using plus s by simp
  moreover have "CHR ''+'' \<notin> set (drop n s)" for n using plus by (meson in_set_dropD)
  ultimately have rest: "CHR ''+'' \<notin> set rest" "CHR ''+'' \<notin> set (drop n s)" for n by blast+
  show ?thesis
  proof (cases rule: scan_cases [of c])
    case opn
    then show ?thesis using s assms(3,4) by (simp add: scan_step_def esc_char_def open_group_def Let_def)
  next
    case cls2
    then show ?thesis using s assms(3,4) by (simp add: scan_step_def esc_char_def close_group_def Let_def split: list.split)
  next
    case qnt
    then show ?thesis using s quant [OF rest(1), of "[c]"] c by (auto simp: scan_step_def esc_char_def)
  next
    case brace
    show ?thesis
    proof (cases "counted_closure s")
      case None
      then show ?thesis using s brace assms(3,4) by (simp add: scan_step_def esc_char_def Let_def)
    next
      case (Some n)
      then show ?thesis using s brace quant [OF rest(2), of n "take n s"] by (simp add: scan_step_def esc_char_def Let_def)
    qed
  next
    case mark
    then show ?thesis using s assms(3,4) by (auto simp: scan_step_def esc_char_def)
  next
    case lit
    then show ?thesis using s assms(3,4) by (simp add: scan_step_def)
  qed (use c in simp_all)
qed

lemma plain_loop:
  assumes "\<not> rewritable s" and "\<not> jt_changed t" and "translate_loop scripts len s t = Inr t'"
  shows "\<not> jt_changed t'"
  using assms
proof (induction scripts len s t arbitrary: t' rule: translate_loop.induct)
  case (1 scripts len s t)
  show ?case
  proof (cases "s = []")
    case True
    then show ?thesis using "1.prems" by (auto simp: translate_loop.simps [of scripts len "[]" t] split: option.splits)
  next
    case False
    obtain s1 t1 where e: "jt_err t = None" "\<not> max_translated_bytes < length (jt_out t)"
      and step: "scan_step scripts len s t = Inr (s1, t1)" and rest: "translate_loop scripts len s1 t1 = Inr t'"
      using "1.prems"(3) False by (subst (asm) translate_loop.simps) (auto split: option.splits if_splits sum.splits)
    have plain: "\<not> rewritable s1"
      using scan_step_copies [OF False step] "1.prems"(1) rewritable_append by blast
    have unchanged: "\<not> jt_changed t1"
      using plain_step [OF False "1.prems"(1,2) e(1), of scripts len] step by simp
    from "1.IH" [OF e(1) False e(2) step refl plain unchanged rest] show ?thesis .
  qed
qed

lemma translation_is_output:
  assumes "run_translator scripts src = Inr t"
  shows "translate_java scripts src = Inr (jt_out t)"
proof -
  have "copies src new_translator t" using translate_loop_copies assms unfolding run_translator_def by blast
  then have out: "\<not> jt_changed t \<Longrightarrow> jt_out t = src" by (simp add: copies_def new_translator_def)
  show ?thesis
  proof (cases "rewritable src")
    case True
    then show ?thesis using assms out by (simp add: translate_java_def rewritable_def)
  next
    case False
    have "\<not> jt_changed t"
      using plain_loop [OF False _ assms [unfolded run_translator_def]] by (simp add: new_translator_def)
    then show ?thesis using False out by (simp add: translate_java_def rewritable_def)
  qed
qed

section \<open>What a class text denotes\<close>

definition in_ranges :: "nat \<Rightarrow> rune_range list \<Rightarrow> bool" where
  "in_ranges r rs \<longleftrightarrow> list_ex (\<lambda>(lo, hi). lo \<le> r \<and> r \<le> hi) rs"

fun ranges_from :: "nat \<Rightarrow> rune_range list \<Rightarrow> bool" where
  "ranges_from n [] \<longleftrightarrow> n \<le> max_rune + 1"
| "ranges_from n ((lo, hi) # rs) \<longleftrightarrow> n \<le> lo \<and> lo \<le> hi \<and> ranges_from (hi + 1) rs"

lemma in_ranges_simps [simp]:
  "in_ranges r [] = False" "in_ranges r ((lo, hi) # rs) \<longleftrightarrow> (lo \<le> r \<and> r \<le> hi) \<or> in_ranges r rs"
  "in_ranges r (rs @ rs') \<longleftrightarrow> in_ranges r rs \<or> in_ranges r rs'"
  by (simp_all add: in_ranges_def)

lemma ranges_from_least: "ranges_from n rs \<Longrightarrow> in_ranges r rs \<Longrightarrow> n \<le> r"
  by (induction n rs rule: ranges_from.induct) auto

lemma complement_from_exact:
  "ranges_from n rs \<Longrightarrow> r \<le> max_rune \<Longrightarrow> in_ranges r (complement_from n rs) \<longleftrightarrow> n \<le> r \<and> \<not> in_ranges r rs"
proof (induction n rs rule: ranges_from.induct)
  case (2 n lo hi rs)
  then show ?case using ranges_from_least [of "hi + 1" rs r] by auto
qed auto

lemma complement_exact:
  "ranges_from 0 rs \<Longrightarrow> r \<le> max_rune \<Longrightarrow> in_ranges r (complement_ranges rs) \<longleftrightarrow> \<not> in_ranges r rs"
  by (simp add: complement_ranges_def complement_from_exact)

lemma class_tables_ok:
  "map_of posix_classes name = Some rs \<Longrightarrow> ranges_from 0 rs"
  "map_of letter_classes c = Some rs \<Longrightarrow> ranges_from 0 rs"
proof -
  have "list_all (\<lambda>(n, rs). ranges_from 0 rs) posix_classes" "list_all (\<lambda>(n, rs). ranges_from 0 rs) letter_classes"
    by (simp_all add: posix_classes_def letter_classes_def max_rune_def)
  then show "map_of posix_classes name = Some rs \<Longrightarrow> ranges_from 0 rs"
    "map_of letter_classes c = Some rs \<Longrightarrow> ranges_from 0 rs"
    by (auto simp: list_all_iff dest!: map_of_SomeD)
qed

text \<open>Reading a class body as both engines do: code points, alone or with a dash between them.\<close>

definition upper_hex_value :: "char \<Rightarrow> nat option" where
  "upper_hex_value c =
     (if is_digit c then Some (byte_of c - 48)
      else if 65 \<le> byte_of c \<and> byte_of c \<le> 70 then Some (byte_of c - 55) else None)"

fun read_hex_to :: "nat \<Rightarrow> string \<Rightarrow> (nat \<times> string) option" where
  "read_hex_to n [] = None"
| "read_hex_to n (c # s) =
     (if c = CHR ''}'' then Some (n, s)
      else case upper_hex_value c of None \<Rightarrow> None | Some d \<Rightarrow> read_hex_to (16 * n + d) s)"

definition read_class_rune :: "string \<Rightarrow> (nat \<times> string) option" where
  "read_class_rune s =
     (if has_prefix s [esc_char, CHR ''x'', CHR ''{''] then read_hex_to 0 (drop 3 s)
      else if s \<noteq> [] \<and> is_alnum_byte (byte_of (hd s)) then Some (byte_of (hd s), tl s) else None)"

lemma read_hex_shorter: "read_hex_to n s = Some (r, s') \<Longrightarrow> length s' < length s"
  by (induction n s rule: read_hex_to.induct) (auto split: if_splits option.splits)

lemma read_class_rune_shorter: "read_class_rune s = Some (r, s') \<Longrightarrow> length s' < length s"
  by (auto simp: read_class_rune_def split: if_splits dest!: read_hex_shorter)

function read_ranges :: "string \<Rightarrow> rune_range list option" where
  "read_ranges s =
     (if s = [] then Some []
      else case read_class_rune s of
             None \<Rightarrow> None
           | Some (lo, s) \<Rightarrow>
               if has_prefix s ''-'' then
                 (case read_class_rune (tl s) of
                    None \<Rightarrow> None
                  | Some (hi, s) \<Rightarrow> map_option (Cons (lo, hi)) (read_ranges s))
               else map_option (Cons (lo, lo)) (read_ranges s))"
  by pat_completeness auto

termination
proof (relation "measure length", goal_cases)
  case (2 s y lo s1 z hi s2)
  then have "length s2 < length (tl s1)" "length s1 < length s" using read_class_rune_shorter by metis+
  then show ?case by simp
next
  case (3 s y lo s1)
  then show ?case using read_class_rune_shorter [of s lo s1] by simp
qed simp

declare read_ranges.simps [simp del]

lemma upper_hex_digit_value: "d < 16 \<Longrightarrow> upper_hex_value (upper_hex_digit d) = Some d \<and> upper_hex_digit d \<noteq> CHR ''}''"
proof -
  assume "d < 16"
  moreover have "list_all (\<lambda>d. upper_hex_value (upper_hex_digit d) = Some d \<and> upper_hex_digit d \<noteq> CHR ''}'') [0..<16]"
    by code_simp
  ultimately show ?thesis by (simp add: list_all_iff)
qed

lemma read_show_hex: "read_hex_to m (show_upper_hex n @ s) = read_hex_to (m * 16 ^ length (show_upper_hex n) + n) s"
proof (induction n arbitrary: m s rule: show_upper_hex.induct)
  case (1 n)
  show ?case
  proof (cases "n < 16")
    case True
    then show ?thesis using upper_hex_digit_value [OF True] by (simp add: show_upper_hex.simps [of n] mult.commute)
  next
    case False
    then show ?thesis using 1 [OF False] upper_hex_digit_value [of "n mod 16"]
      by (simp add: show_upper_hex.simps [of n] algebra_simps)
  qed
qed

lemma read_class_rune_back: "read_class_rune (class_rune r @ s) = Some (r, s)"
proof (cases "r < 128 \<and> is_alnum_byte r")
  case True
  have "byte_of esc_char = 92" by (simp add: esc_char_def byte_of_def)
  moreover have "r \<noteq> 92" "r < 256" using True by (auto simp: is_alnum_byte_def)
  ultimately have "char_of r \<noteq> esc_char" using byte_of_char_of [of r] by metis
  then show ?thesis using True by (simp add: read_class_rune_def class_rune_def)
next
  case False
  have z: "upper_hex_value (CHR ''0'') = Some 0" by code_simp
  show ?thesis using False
    by (auto simp: class_rune_def read_class_rune_def read_show_hex z simp del: append_assoc)
      (simp_all add: read_show_hex z)
qed

lemma class_rune_start: "class_rune r \<noteq> [] \<and> hd (class_rune r) \<noteq> CHR ''-''"
  by (auto simp: class_rune_def esc_char_def is_alnum_byte_def dest!: arg_cong [of _ _ byte_of]) (simp_all add: byte_of_def)

lemma ranges_text_Cons:
  "ranges_text ((lo, hi) # rs) = class_rune lo @ (if hi \<noteq> lo then ''-'' @ class_rune hi else []) @ ranges_text rs"
  by (simp add: ranges_text_def)

lemma ranges_text_start: "\<not> has_prefix (ranges_text rs) ''-''"
proof (cases rs)
  case (Cons p rs')
  then show ?thesis using class_rune_start [of "fst p"]
    by (cases p; cases "class_rune (fst p)") (auto simp: ranges_text_Cons)
qed (simp add: ranges_text_def)

lemma read_ranges_back: "read_ranges (ranges_text rs) = Some rs"
proof (induction rs)
  case Nil
  then show ?case by (simp add: ranges_text_def read_ranges.simps)
next
  case (Cons p rs)
  obtain lo hi where p: "p = (lo, hi)" by fastforce
  have ne: "ranges_text (p # rs) \<noteq> []" using class_rune_start [of lo] by (simp add: p ranges_text_Cons)
  show ?case
    using ne Cons ranges_text_start [of rs]
    by (subst read_ranges.simps) (simp add: p ranges_text_Cons read_class_rune_back)
qed

text \<open>The escape with its letter in the other case, which negates it.\<close>

definition flip_case :: "string \<Rightarrow> string" where
  "flip_case esc = esc[1 := (if is_upper (esc ! 1) then ascii_lower (esc ! 1) else ascii_upper (esc ! 1))]"

lemma letter_class_key:
  assumes "map_of letter_classes (char_of (Bit_Operations.or (byte_of c) 32)) = Some rs"
  shows "c \<in> {CHR ''h'', CHR ''H'', CHR ''v'', CHR ''V'', CHR ''s'', CHR ''S''}"
proof -
  let ?n = "byte_of c"
  have or: "Bit_Operations.or ?n 32 = ?n + (if bit ?n 5 then 0 else 32)"
    using set_bit_eq_or [of 5 ?n] set_bit_eq [of 5 ?n] by (cases "bit ?n 5") (simp_all add: push_bit_eq_mult)
  then have "Bit_Operations.or ?n 32 < 512" using byte_of_less [of c] by simp
  have key: "byte_of (char_of (Bit_Operations.or ?n 32)) = Bit_Operations.or ?n 32 mod 256"
    by (simp add: byte_of_def)
  have "char_of (Bit_Operations.or ?n 32) \<in> {CHR ''h'', CHR ''v'', CHR ''s''}"
    using assms by (auto simp: letter_classes_def split: if_splits)
  then have "byte_of (char_of (Bit_Operations.or ?n 32)) \<in> byte_of ` {CHR ''h'', CHR ''v'', CHR ''s''}" by (rule imageI)
  then have "Bit_Operations.or ?n 32 mod 256 \<in> {104, 118, 115}"
    unfolding key by (simp add: byte_of_def)
  moreover have "Bit_Operations.or ?n 32 < 256"
  proof -
    have "bit ?n 5" if "224 \<le> ?n"
    proof -
      have "?n div 32 = 7" using that byte_of_less [of c] by simp
      then show ?thesis by (simp add: bit_iff_odd)
    qed
    then show ?thesis using or byte_of_less [of c] by (cases "224 \<le> ?n") auto
  qed
  ultimately have "?n \<in> {104, 118, 115, 72, 86, 83}" using or by (auto split: if_splits)
  then have "char_of ?n \<in> {CHR ''h'', CHR ''H'', CHR ''v'', CHR ''V'', CHR ''s'', CHR ''S''}"
    by (elim insertE) (simp_all add: char_of_def, simp_all add: bit_simps)
  then show ?thesis by simp
qed

lemma class_of_flip:
  assumes "class_of negated (map_of table k) = Some rs" and "\<And>rs. map_of table k = Some rs \<Longrightarrow> ranges_from 0 rs"
  shows "\<exists>rs'. class_of (\<not> negated) (map_of table k) = Some rs' \<and>
     (\<forall>r. r \<le> max_rune \<longrightarrow> in_ranges r rs' = (\<not> in_ranges r rs))"
  using assms complement_exact by (cases negated) (auto simp: class_of_def)

lemma java_class_flip:
  assumes "java_class_escape esc = Some rs"
  shows "\<exists>rs'. java_class_escape (flip_case esc) = Some rs' \<and>
     (\<forall>r. r \<le> max_rune \<longrightarrow> in_ranges r rs' = (\<not> in_ranges r rs))"
proof (cases "length esc = 2")
  case True
  then obtain x c where esc: "esc = [x, c]" by (metis length_0_conv length_Suc_conv numeral_2_eq_2)
  let ?key = "\<lambda>c. char_of (Bit_Operations.or (byte_of c) 32) :: char"
  from assms esc have rs: "class_of (is_upper c) (map_of letter_classes (?key c)) = Some rs"
    by (simp add: java_class_escape_def)
  then obtain z where "map_of letter_classes (?key c) = Some z" by (auto simp: class_of_def)
  from letter_class_key [OF this] have "c \<in> {CHR ''h'', CHR ''H'', CHR ''v'', CHR ''V'', CHR ''s'', CHR ''S''}" .
  then have d: "?key (flip_case esc ! 1) = ?key c" "is_upper (flip_case esc ! 1) = (\<not> is_upper c)"
    unfolding esc
    by (elim insertE, simp_all add: flip_case_def is_upper_def is_lower_def ascii_lower_def ascii_upper_def byte_of_def)+
  have "length (flip_case esc) = 2" by (simp add: esc flip_case_def)
  then have "java_class_escape (flip_case esc) = class_of (\<not> is_upper c) (map_of letter_classes (?key c))"
    unfolding d [symmetric] by (simp only: java_class_escape_def refl if_True)
  then show ?thesis using class_of_flip [OF rs class_tables_ok(2)] by simp
next
  case False
  then obtain name negated where n: "property_name esc = Some (name, negated)"
    and rs: "class_of negated (map_of posix_classes name) = Some rs"
    using assms by (auto simp: java_class_escape_def split: option.splits)
  have p: "ascii_upper (CHR ''p'') = CHR ''P''" "ascii_lower (CHR ''P'') = CHR ''p''" "is_upper (CHR ''P'')" "\<not> is_upper (CHR ''p'')"
    by code_simp+
  from n have "esc \<noteq> []" "5 \<le> length esc" by (auto simp: property_name_def split: if_splits)
  then have "last (flip_case esc) = last esc" by (auto simp: flip_case_def last_list_update)
  with n have "property_name (flip_case esc) = Some (name, \<not> negated)" and "length (flip_case esc) = length esc"
    by (auto simp: property_name_def flip_case_def p drop_update_swap split: if_splits)
  then show ?thesis using class_of_flip [OF rs class_tables_ok(1)] False by (simp add: java_class_escape_def)
qed

section \<open>A grammar of patterns\<close>

text \<open>
  Patterns as trees, read from the left: every constructor holds what follows it. A quantifier is
  kept as its text. What each construct is rewritten to is \<open>lower_pattern\<close>, and nothing there knows of
  offsets.
\<close>

datatype java_quantifier = Once | Greedy string | Lazy string | Possessive string

datatype java_member = Member char | MemberEscape string

datatype java_pattern =
    Nothing
  | Mark char java_pattern
  | Literal char java_quantifier java_pattern
  | Escape string java_quantifier java_pattern
  | Bracket bool "java_member list" java_quantifier java_pattern
  | Group string java_pattern java_quantifier java_pattern

fun show_quantifier :: "java_quantifier \<Rightarrow> string" where
  "show_quantifier Once = []"
| "show_quantifier (Greedy q) = q"
| "show_quantifier (Lazy q) = q @ ''?''"
| "show_quantifier (Possessive q) = q @ ''+''"

fun show_member :: "java_member \<Rightarrow> string" where
  "show_member (Member c) = [c]"
| "show_member (MemberEscape e) = e"

fun show_java :: "java_pattern \<Rightarrow> string" where
  "show_java Nothing = []"
| "show_java (Mark c p) = c # show_java p"
| "show_java (Literal c q p) = c # show_quantifier q @ show_java p"
| "show_java (Escape e q p) = e @ show_quantifier q @ show_java p"
| "show_java (Bracket neg ms q p) =
     ''['' @ (if neg then ''^'' else []) @ concat (map show_member ms) @ '']'' @ show_quantifier q @ show_java p"
| "show_java (Group h b q p) = ''('' @ h @ show_java b @ '')'' @ show_quantifier q @ show_java p"

fun lower_quantifier :: "java_quantifier \<Rightarrow> string \<Rightarrow> string" where
  "lower_quantifier Once a = a"
| "lower_quantifier (Greedy q) a = a @ q"
| "lower_quantifier (Lazy q) a = a @ q @ ''?''"
| "lower_quantifier (Possessive q) a = ''(?>'' @ a @ q @ '')''"

fun lower_member :: "(string \<Rightarrow> bool) \<Rightarrow> java_member \<Rightarrow> string" where
  "lower_member scripts (Member c) = [c]"
| "lower_member scripts (MemberEscape e) =
     (case lower_escape scripts e of LowerClass rs \<Rightarrow> ranges_text rs | LowerText s \<Rightarrow> s | LowerNot \<Rightarrow> e)"

definition lower_alone :: "(string \<Rightarrow> bool) \<Rightarrow> string \<Rightarrow> string" where
  "lower_alone scripts e =
     (if is_line_break e then line_break_text
      else case lower_escape scripts e of
             LowerClass rs \<Rightarrow> ''['' @ ranges_text rs @ '']'' | LowerText s \<Rightarrow> s | LowerNot \<Rightarrow> e)"

fun lower_pattern :: "(string \<Rightarrow> bool) \<Rightarrow> java_pattern \<Rightarrow> string" where
  "lower_pattern scripts Nothing = []"
| "lower_pattern scripts (Mark c p) = c # lower_pattern scripts p"
| "lower_pattern scripts (Literal c q p) = lower_quantifier q [c] @ lower_pattern scripts p"
| "lower_pattern scripts (Escape e q p) = lower_quantifier q (lower_alone scripts e) @ lower_pattern scripts p"
| "lower_pattern scripts (Bracket neg ms q p) =
     lower_quantifier q (''['' @ (if neg then ''^'' else []) @ concat (map (lower_member scripts) ms) @ '']'') @
     lower_pattern scripts p"
| "lower_pattern scripts (Group h b q p) =
     lower_quantifier q (''('' @ h @ lower_pattern scripts b @ '')'') @ lower_pattern scripts p"

text \<open>The trees that are patterns: literals are plain, escapes delimit themselves, quantifiers are well formed.\<close>

definition plain_char :: "char \<Rightarrow> bool" where
  "plain_char c \<longleftrightarrow> byte_of c < 128 \<and> c \<notin> {esc_char, CHR ''['', CHR ''('', CHR '')'', CHR ''*'', CHR ''+'', CHR ''?'', CHR ''{'',
     CHR ''|'', CHR ''^'', CHR ''$''}"

fun plain_escape :: "string \<Rightarrow> bool" where
  "plain_escape [b, c] \<longleftrightarrow> b = esc_char \<and> byte_of c < 128 \<and> \<not> is_digit c \<and>
     c \<notin> {CHR ''Q'', CHR ''p'', CHR ''P'', CHR ''N'', CHR ''x'', CHR ''u'', CHR ''c'', CHR ''k''}"
| "plain_escape (b # c # br # name) \<longleftrightarrow> b = esc_char \<and> (c = CHR ''p'' \<or> c = CHR ''P'') \<and> br = CHR ''{'' \<and>
     index_byte name (CHR ''}'') = Some (length name - 1)"
| "plain_escape _ = False"

definition quantifier_text :: "string \<Rightarrow> bool" where
  "quantifier_text q \<longleftrightarrow>
     q \<in> {''*'', ''+'', ''?''} \<or>
     (2 < length q \<and> hd q = CHR ''{'' \<and> last q = CHR ''}'' \<and>
      (let (a, b, found) = cut_at (butlast (tl q)) (CHR '','') in a \<noteq> [] \<and> list_all is_digit a \<and> list_all is_digit b))"

fun quantifier_ok :: "java_quantifier \<Rightarrow> bool" where
  "quantifier_ok Once = True"
| "quantifier_ok (Greedy q) = quantifier_text q"
| "quantifier_ok (Lazy q) = quantifier_text q"
| "quantifier_ok (Possessive q) = quantifier_text q"

fun member_ok :: "java_member \<Rightarrow> bool" where
  "member_ok (Member c) \<longleftrightarrow> c \<notin> {esc_char, CHR ''['', CHR '']'', CHR ''&'', CHR ''^''}"
| "member_ok (MemberEscape e) \<longleftrightarrow> plain_escape e \<and> \<not> is_line_break e"

fun pattern_ok :: "java_pattern \<Rightarrow> bool" where
  "pattern_ok Nothing = True"
| "pattern_ok (Mark c p) \<longleftrightarrow> c \<in> {CHR ''|'', CHR ''^'', CHR ''$''} \<and> pattern_ok p"
| "pattern_ok (Literal c q p) \<longleftrightarrow> plain_char c \<and> quantifier_ok q \<and> pattern_ok p"
| "pattern_ok (Escape e q p) \<longleftrightarrow> plain_escape e \<and> quantifier_ok q \<and> pattern_ok p"
| "pattern_ok (Bracket neg ms q p) \<longleftrightarrow> list_all member_ok ms \<and> quantifier_ok q \<and> pattern_ok p"
| "pattern_ok (Group h b q p) \<longleftrightarrow>
     h \<in> {[], ''?:'', ''?='', ''?!'', ''?<='', ''?<!'', ''?>''} \<and> pattern_ok b \<and> quantifier_ok q \<and> pattern_ok p"

section \<open>The scanner follows the grammar\<close>

lemma letter_escape_len:
  assumes "plain_escape [b, c]"
  shows "escape_len (b # c # r) = 2"
proof -
  have c: "byte_of c < 128" "\<not> is_digit c" "c \<noteq> CHR ''Q''" "c \<noteq> CHR ''p''" "c \<noteq> CHR ''P''" "c \<noteq> CHR ''N''" "c \<noteq> CHR ''x''"
    "c \<noteq> CHR ''u''" "c \<noteq> CHR ''c''" "c \<noteq> CHR ''k''"
    using assms by simp_all
  moreover have "is_digit (CHR ''0'')" by code_simp
  ultimately have "c \<noteq> CHR ''0''" by auto
  then have "escape_tail c r = rune_width (c # r)"
    using c by (simp only: escape_tail_def if_False insert_iff empty_iff simp_thms)
  moreover have "rune_width (c # r) = 1" using c(1) by (simp add: rune_width_def Let_def)
  ultimately show ?thesis by (simp add: escape_len_def)
qed

lemma property_escape_len:
  assumes "plain_escape (b # c # br # name)"
  shows "escape_len (b # c # br # name @ r) = 3 + length name"
proof -
  from assms have i: "index_byte name (CHR ''}'') = Some (length name - 1)" and c: "c = CHR ''p'' \<or> c = CHR ''P''" and br: "br = CHR ''{''"
    by simp_all
  from index_byte_Some [OF i] have n: "name = butlast name @ [CHR ''}'']" "CHR ''}'' \<notin> set (butlast name)"
    by (auto simp: butlast_conv_take)
  have "index_byte (name @ r) (CHR ''}'') = Some (length name - 1)"
    using index_byte_append [OF n(2), of r] n(1) by (metis append.assoc append_Cons append_Nil length_butlast)
  then have "run_to (CHR ''}'') (br # name @ r) = 1 + length name"
    using index_byte_Some [OF i] br by (simp add: run_to_def) linarith
  then have "escape_tail c (br # name @ r) = 2 + length name"
    using c br by (elim disjE) (simp_all add: escape_tail_def)
  then show ?thesis by (simp add: escape_len_def)
qed

lemma plain_escape_len:
  assumes "plain_escape e"
  shows "escape_len (e @ r) = length e" and "hd e = esc_char" and "e \<noteq> []" and "\<not> is_quote_block e"
proof -
  have "escape_len (e @ r) = length e \<and> hd e = esc_char \<and> e \<noteq> [] \<and> \<not> is_quote_block e"
    using assms
  proof (cases e rule: plain_escape.cases)
    case (1 b c)
    then show ?thesis using assms letter_escape_len [of b c r] by (simp add: is_quote_block_def)
  next
    case (2 b c br name)
    have "escape_len (b # c # br # name @ r) = 3 + length name"
      by (rule property_escape_len) (use assms 2 in blast)
    moreover have "b = esc_char" "c \<noteq> CHR ''Q''" using assms unfolding 2 plain_escape.simps by auto
    ultimately show ?thesis unfolding 2 by (simp add: is_quote_block_def)
  qed simp_all
  then show "escape_len (e @ r) = length e" "hd e = esc_char" "e \<noteq> []" "\<not> is_quote_block e" by blast+
qed

lemma digit_run_all: "list_all is_digit a \<Longrightarrow> \<not> is_digit c \<Longrightarrow> digit_run (length (a @ c # r)) is_digit (a @ c # r) = length a"
  by (induction a) (simp_all add: digit_run_def)

lemma counted_closure_text:
  assumes "quantifier_text q" and "q \<notin> {''*'', ''+'', ''?''}"
  shows "counted_closure (q @ r) = Some (length q)" and "hd q = CHR ''{''" and "q \<noteq> []"
proof -
  from assms obtain a b f where q: "2 < length q" "hd q = CHR ''{''" "last q = CHR ''}''"
    and c: "cut_at (butlast (tl q)) (CHR '','') = (a, b, f)" and d: "a \<noteq> []" "list_all is_digit a" "list_all is_digit b"
    by (auto simp: quantifier_text_def split: prod.splits)
  show "hd q = CHR ''{''" by (rule q(2))
  from q(1) show ne: "q \<noteq> []" by auto
  define body where "body = butlast (tl q)"
  obtain x y z where q': "q = x # y # z" using q(1) by (cases q rule: plain_escape.cases) auto
  then have "last (y # z) = CHR ''}''" using q(3) by simp
  then have tl: "tl q = body @ ''}''"
    using append_butlast_last_id [of "y # z"] q' by (simp add: body_def)
  have close: "\<not> is_digit (CHR ''}'')" "\<not> is_digit (CHR '','')" by code_simp+
  have len: "length q = Suc (Suc (length body))" using tl ne by (cases q) auto
  have tlr: "tl (q @ r) = body @ CHR ''}'' # r" using tl ne by (cases q) auto
  show "counted_closure (q @ r) = Some (length q)"
  proof (cases f)
    case True
    then have body: "body = a @ CHR '','' # b" using cut_found [of body "CHR '',''" a b] c by (simp add: body_def)
    have 1: "digit_run (length (body @ CHR ''}'' # r)) is_digit (body @ CHR ''}'' # r) = length a"
      using digit_run_all [OF d(2) close(2), of "b @ CHR ''}'' # r"] by (simp add: body)
    have 2: "digit_run (Suc (length (b @ CHR ''}'' # r))) is_digit (b @ CHR ''}'' # r) = length b"
      using d(3) close(1) by (simp add: digit_run_def list_all_iff takeWhile_append2)
    show ?thesis
      using 1 2 d(1) unfolding counted_closure_def tlr Let_def by (simp add: body len)
  next
    case False
    then have body: "body = a" "b = []" using cut_not_found [of body "CHR '',''" a b] c by (simp_all add: body_def)
    show ?thesis
      using digit_run_all [OF d(2) close(1), of r] d(1) unfolding counted_closure_def tlr Let_def by (simp add: body len)
  qed
qed

lemma loop_step:
  assumes "scan_step scripts len s t = Inr (s', t')" and "jt_err t = None" and "s \<noteq> []"
    and "length (jt_out t) \<le> max_translated_bytes"
  shows "translate_loop scripts len s t = translate_loop scripts len s' t'"
  using assms by (subst translate_loop.simps) simp

lemma loop_end: "jt_err t = None \<Longrightarrow> translate_loop scripts len [] t = Inr t"
  by (subst translate_loop.simps) simp

lemma scan_quantifier_text:
  assumes "quantifier_text q"
  shows "scan_step scripts len (q @ s) t = Inr (quantifier_suffix len s (emit q t))" and "q \<noteq> []"
proof -
  have "scan_step scripts len (q @ s) t = Inr (quantifier_suffix len s (emit q t)) \<and> q \<noteq> []"
  proof (cases "q \<in> {''*'', ''+'', ''?''}")
    case True
    then show ?thesis by (auto simp: scan_step_def esc_char_def)
  next
    case False
    note c = counted_closure_text [OF assms False]
    obtain x q' where q: "q = x # q'" using c(3) by (cases q) auto
    with c(2) have x: "x = CHR ''{''" by simp
    show ?thesis using c(1) [of s] unfolding q x by (simp add: scan_step_def esc_char_def Let_def)
  qed
  then show "scan_step scripts len (q @ s) t = Inr (quantifier_suffix len s (emit q t))" "q \<noteq> []" by blast+
qed

lemma take_drop_append: "take a xs @ drop a xs @ ys = xs @ ys"
  by (metis append.assoc append_take_drop_id)

definition stops_quantifier :: "string \<Rightarrow> bool" where
  "stops_quantifier r \<longleftrightarrow> r = [] \<or> \<not> is_quantifier_char (hd r)"

lemma scan_quantifier:
  assumes "jt_err t = None" and "jt_atom t = Some a" and "a \<le> length (jt_out t)" and "quantifier_ok q"
    and "length (jt_out t) \<le> max_translated_bytes" and "stops_quantifier r"
  shows "\<exists>t'. translate_loop scripts len (show_quantifier q @ r) t = translate_loop scripts len r t' \<and>
    jt_err t' = None \<and> jt_groups t' = jt_groups t \<and> jt_out t' = take a (jt_out t) @ lower_quantifier q (drop a (jt_out t))"
proof -
  have r: "r = [] \<or> (hd r \<noteq> CHR ''+'' \<and> hd r \<noteq> CHR ''?'')"
    using assms(6) by (auto simp: stops_quantifier_def is_quantifier_char_def)
  have go: "\<exists>t'. translate_loop scripts len (b @ s) t = translate_loop scripts len r t' \<and>
      jt_err t' = None \<and> jt_groups t' = jt_groups t \<and> jt_out t' = out"
    if "quantifier_text b" "quantifier_suffix len s (emit b t) = (r, t')" "jt_err t' = None" "jt_groups t' = jt_groups t"
      "jt_out t' = out" for b s t' out
    using loop_step [OF _ assms(1) _ assms(5), of scripts len "b @ s" r t'] scan_quantifier_text [OF that(1)] that by auto
  show ?thesis
  proof (cases q)
    case Once
    then show ?thesis using assms(1) by auto
  next
    case (Greedy b)
    have "quantifier_suffix len r (emit b t) = (r, (emit b t)\<lparr>jt_atom := None\<rparr>)"
      using r by (cases r) (auto simp: quantifier_suffix_def)
    from go [OF _ this] show ?thesis using Greedy assms(1,4) by (simp add: emit_def take_drop_append)
  next
    case (Lazy b)
    have "quantifier_suffix len (''?'' @ r) (emit b t) = (r, (emit ''?'' (emit b t))\<lparr>jt_atom := None\<rparr>)"
      by (simp add: quantifier_suffix_def)
    from go [OF _ this] show ?thesis using Lazy assms(1,4) by (simp add: emit_def take_drop_append)
  next
    case (Possessive b)
    have "\<not> (r \<noteq> [] \<and> is_quantifier_char (hd r))" using assms(6) by (auto simp: stops_quantifier_def)
    then have "quantifier_suffix len (''+'' @ r) (emit b t) = (r, (make_atomic a (emit b t))\<lparr>jt_atom := None\<rparr>)"
      using assms(2) by (auto simp: quantifier_suffix_def Let_def)
    from go [OF _ this] show ?thesis using Possessive assms(1,3,4) by (simp add: emit_def make_atomic_def)
  qed
qed

lemma plain_char_facts:
  assumes "plain_char c"
  shows "scan_step scripts len (c # s) t = Inr (s, emit [c] (begin_atom t))" and "\<not> is_quantifier_char c"
proof -
  have "rune_width (c # s) = 1" using assms by (simp add: plain_char_def rune_width_def Let_def)
  then show "scan_step scripts len (c # s) t = Inr (s, emit [c] (begin_atom t))"
    using assms by (simp add: scan_step_def plain_char_def)
  show "\<not> is_quantifier_char c" using assms by (simp add: plain_char_def is_quantifier_char_def)
qed

lemma scan_plain:
  assumes "list_all plain_char cs" and "jt_err t = None" and "length (jt_out t) + length cs \<le> max_translated_bytes"
  shows "\<exists>t'. translate_loop scripts len (cs @ s) t = translate_loop scripts len s t' \<and> jt_err t' = None \<and>
    jt_groups t' = jt_groups t \<and> jt_out t' = jt_out t @ cs"
  using assms
proof (induction cs arbitrary: t)
  case (Cons c cs)
  let ?t = "emit [c] (begin_atom t)"
  have "translate_loop scripts len ((c # cs) @ s) t = translate_loop scripts len (cs @ s) ?t"
    using Cons.prems plain_char_facts(1) [of c scripts len "cs @ s" t] by (intro loop_step) simp_all
  with Cons.IH [of ?t] Cons.prems show ?case by simp
qed auto

lemma member_start:
  assumes "member_ok m"
  shows "show_member m \<noteq> [] \<and> hd (show_member m) \<noteq> CHR ''^'' \<and> hd (show_member m) \<noteq> CHR ''&''"
  using assms plain_escape_len(2,3) by (cases m) (auto simp: esc_char_def)

lemma members_start:
  "list_all member_ok ms \<Longrightarrow> \<not> has_prefix (concat (map show_member ms) @ CHR '']'' # r) ''^''"
proof (cases ms)
  case (Cons m ms')
  assume "list_all member_ok ms"
  then show ?thesis using member_start [of m] Cons by (cases "show_member m") auto
qed simp

lemma scan_members:
  assumes "list_all member_ok ms"
  shows "\<exists>ch. class_members scripts len start (concat (map show_member ms) @ CHR '']'' # r) t =
     Inr (r, t\<lparr>jt_out := jt_out t @ concat (map (lower_member scripts) ms) @ '']'', jt_atom := Some start, jt_changed := ch\<rparr>)"
  using assms
proof (induction ms arbitrary: t)
  case Nil
  then show ?case by (intro exI [of _ "jt_changed t"]) (simp add: class_members.simps emit_def)
next
  case (Cons m ms)
  let ?s = "concat (map show_member ms) @ CHR '']'' # r"
  have "\<exists>ch. class_members scripts len start (show_member m @ ?s) t =
      class_members scripts len start ?s (t\<lparr>jt_out := jt_out t @ lower_member scripts m, jt_changed := ch\<rparr>)"
  proof (cases m)
    case (Member c)
    then show ?thesis using Cons.prems
      by (intro exI [of _ "jt_changed t"]) (simp add: class_members.simps [of _ _ _ "c # _"] emit_def)
  next
    case (MemberEscape e)
    then have e: "plain_escape e" "\<not> is_line_break e" using Cons.prems by simp_all
    note f = plain_escape_len [OF e(1)]
    obtain x e' where x: "e = x # e'" using f(3) by (cases e) auto
    have n: "esc_char \<noteq> CHR '']''" "esc_char \<noteq> CHR ''&''" "esc_char \<noteq> CHR ''[''" by (simp_all add: esc_char_def)
    have s: "class_members scripts len start (e @ ?s) t =
       (case class_escape scripts (len - length (e @ ?s)) e t of
          Inl er \<Rightarrow> Inl er | Inr t \<Rightarrow> class_members scripts len start ?s t)"
    proof -
      have "take (escape_len (e @ ?s)) (e @ ?s) = e" "drop (escape_len (e @ ?s)) (e @ ?s) = ?s" by (simp_all add: f(1))
      then show ?thesis using f(2) n x by (subst class_members.simps) (simp cong: sum.case_cong)
    qed
    show ?thesis
    proof (cases "lower_escape scripts e")
      case (LowerClass rs)
      then show ?thesis using s f(4) e(2) MemberEscape by (intro exI [of _ True]) (simp add: class_escape_def emit_def)
    next
      case (LowerText u)
      then show ?thesis using s f(4) e(2) MemberEscape by (intro exI [of _ True]) (simp add: class_escape_def emit_def)
    next
      case LowerNot
      then show ?thesis using s f(4) e(2) MemberEscape
        by (intro exI [of _ "jt_changed t"]) (simp add: class_escape_def emit_def)
    qed
  qed
  then obtain ch where "class_members scripts len start (show_member m @ ?s) t =
      class_members scripts len start ?s (t\<lparr>jt_out := jt_out t @ lower_member scripts m, jt_changed := ch\<rparr>)" by blast
  with Cons.IH [of "t\<lparr>jt_out := jt_out t @ lower_member scripts m, jt_changed := ch\<rparr>"] Cons.prems
  show ?case by simp
qed

text \<open>One atom: what is emitted, and where it starts.\<close>

definition atom_scanned ::
    "(string \<Rightarrow> bool) \<Rightarrow> nat \<Rightarrow> string \<Rightarrow> string \<Rightarrow> string \<Rightarrow> java_translator \<Rightarrow> bool" where
  "atom_scanned scripts len a lowered s t \<longleftrightarrow>
     (\<exists>t'. translate_loop scripts len (a @ s) t = translate_loop scripts len s t' \<and> jt_err t' = None \<and>
        jt_groups t' = jt_groups t \<and> jt_atom t' = Some (length (jt_out t)) \<and> jt_out t' = jt_out t @ lowered)"

lemma scan_literal:
  assumes "plain_char c" and "jt_err t = None" and "length (jt_out t) \<le> max_translated_bytes"
  shows "atom_scanned scripts len [c] [c] s t"
proof -
  have "scan_step scripts len (c # s) t = Inr (s, emit [c] (begin_atom t))" by (rule plain_char_facts(1) [OF assms(1)])
  from loop_step [OF this assms(2) _ assms(3)] assms(2) show ?thesis
    by (auto simp: atom_scanned_def intro!: exI [of _ "emit [c] (begin_atom t)"])
qed

lemma scan_escape_atom:
  assumes "plain_escape e" and "jt_err t = None" and "length (jt_out t) \<le> max_translated_bytes"
  shows "atom_scanned scripts len e (lower_alone scripts e) s t"
proof -
  note f = plain_escape_len [OF assms(1)]
  have "scan_step scripts len (e @ s) t = Inr (s, scan_escape scripts e t)"
    using f(1) [of s] f(2,3) by (simp add: scan_step_def)
  from loop_step [OF this assms(2) _ assms(3)] f(3)
  have "translate_loop scripts len (e @ s) t = translate_loop scripts len s (scan_escape scripts e t)" by simp
  then show ?thesis using f(4) assms(2)
    by (auto simp: atom_scanned_def scan_escape_def lower_alone_def split: lowered.splits
        intro!: exI [of _ "scan_escape scripts e t"])
qed

lemma scan_bracket:
  assumes "list_all member_ok ms" and "jt_err t = None" and "length (jt_out t) \<le> max_translated_bytes"
  shows "atom_scanned scripts len (''['' @ (if neg then ''^'' else []) @ concat (map show_member ms) @ '']'')
     (''['' @ (if neg then ''^'' else []) @ concat (map (lower_member scripts) ms) @ '']'') s t"
proof -
  let ?ms = "concat (map show_member ms) @ CHR '']'' # s"
  let ?t = "emit (''['' @ (if neg then ''^'' else [])) t"
  obtain ch where m: "class_members scripts len (length (jt_out t)) ?ms ?t =
     Inr (s, ?t\<lparr>jt_out := jt_out ?t @ concat (map (lower_member scripts) ms) @ '']'', jt_atom := Some (length (jt_out t)),
        jt_changed := ch\<rparr>)"
    using scan_members [OF assms(1)] by blast
  have "scan_step scripts len (''['' @ (if neg then ''^'' else []) @ ?ms) t =
     class_members scripts len (length (jt_out t)) ?ms ?t"
    using members_start [OF assms(1), of s] by (simp add: scan_step_def scan_class_def Let_def esc_char_def emit_def)
  from loop_step [OF this [unfolded m] assms(2) _ assms(3)] show ?thesis
    using assms(2) by (auto simp: atom_scanned_def intro!: exI)
qed

lemma lower_quantifier_length: "length a \<le> length (lower_quantifier q a)"
  by (cases q) simp_all

lemma scan_quantified:
  assumes "atom_scanned scripts len a lowered (show_quantifier q @ s) t" and "quantifier_ok q" and "stops_quantifier s"
    and "length (jt_out t) + length (lower_quantifier q lowered) \<le> max_translated_bytes"
  shows "\<exists>t'. translate_loop scripts len (a @ show_quantifier q @ s) t = translate_loop scripts len s t' \<and>
    jt_err t' = None \<and> jt_groups t' = jt_groups t \<and> jt_out t' = jt_out t @ lower_quantifier q lowered"
proof -
  obtain t1 where t1: "translate_loop scripts len (a @ show_quantifier q @ s) t = translate_loop scripts len (show_quantifier q @ s) t1"
      "jt_err t1 = None" "jt_groups t1 = jt_groups t" "jt_atom t1 = Some (length (jt_out t))" "jt_out t1 = jt_out t @ lowered"
    using assms(1) unfolding atom_scanned_def by blast
  have "length (jt_out t1) \<le> max_translated_bytes" using assms(4) lower_quantifier_length [of lowered q] t1(5) by simp
  from scan_quantifier [OF t1(2,4) _ assms(2) this assms(3), of scripts len] show ?thesis using t1 by auto
qed

lemma quantifier_follows:
  assumes "pattern_ok p" and "stops_quantifier r"
  shows "stops_quantifier (show_java p @ r)"
proof (cases p)
  case Nothing
  then show ?thesis using assms(2) by simp
next
  case (Literal c q p')
  then show ?thesis using assms(1) plain_char_facts(2) by (simp add: stops_quantifier_def)
next
  case (Escape e q p')
  then show ?thesis using assms(1) plain_escape_len(2,3) [of e]
    by (simp add: stops_quantifier_def is_quantifier_char_def esc_char_def)
qed (use assms(1) in \<open>auto simp: stops_quantifier_def is_quantifier_char_def\<close>)

lemma scan_group_header:
  assumes "h \<in> {[], ''?:'', ''?='', ''?!'', ''?<='', ''?<!'', ''?>''}" and "jt_err t = None" and "stops_quantifier s"
    and "length (jt_out t) + 1 + length h \<le> max_translated_bytes"
  shows "\<exists>t'. translate_loop scripts len (CHR ''('' # h @ s) t = translate_loop scripts len s t' \<and>
    jt_err t' = None \<and> jt_groups t' = length (jt_out t) # jt_groups t \<and> jt_out t' = jt_out t @ CHR ''('' # h"
proof (cases "h = []")
  case True
  have "\<not> has_prefix s ''?''" using assms(3) by (cases s) (auto simp: stops_quantifier_def is_quantifier_char_def)
  then have "scan_step scripts len (CHR ''('' # s) t =
      Inr (s, (emit ''('' (t\<lparr>jt_groups := length (jt_out t) # jt_groups t\<rparr>))\<lparr>jt_atom := None\<rparr>)"
    by (simp add: scan_step_def esc_char_def open_group_def Let_def)
  from loop_step [OF this assms(2)] assms(2,4) True show ?thesis by auto
next
  case False
  then obtain h' where h: "h = CHR ''?'' # h'" and h': "list_all plain_char h'"
    using assms(1) by (auto simp: plain_char_def esc_char_def byte_of_def)
  let ?t = "(emit ''?'' (emit ''('' (t\<lparr>jt_groups := length (jt_out t) # jt_groups t\<rparr>)))\<lparr>jt_atom := None\<rparr>"
  have "scan_step scripts len (CHR ''('' # h @ s) t = Inr (h' @ s, ?t)"
    by (simp add: scan_step_def esc_char_def open_group_def Let_def h)
  from loop_step [OF this assms(2)] assms(4)
  have "translate_loop scripts len (CHR ''('' # h @ s) t = translate_loop scripts len (h' @ s) ?t" by simp
  with scan_plain [OF h', of ?t scripts len s] show ?thesis using assms(2,4) h by simp
qed

lemma scan_group_end:
  assumes "jt_err t = None" and "jt_groups t = g # gs" and "length (jt_out t) \<le> max_translated_bytes"
  shows "translate_loop scripts len (CHR '')'' # s) t =
    translate_loop scripts len s (t\<lparr>jt_out := jt_out t @ '')'', jt_atom := Some g, jt_groups := gs\<rparr>)"
  by (rule loop_step) (use assms in \<open>simp_all add: scan_step_def esc_char_def close_group_def emit_def\<close>)

lemma scan_pattern:
  assumes "pattern_ok p" and "jt_err t = None" and "stops_quantifier r"
    and "length (jt_out t) + length (lower_pattern scripts p) \<le> max_translated_bytes"
  shows "\<exists>t'. translate_loop scripts len (show_java p @ r) t = translate_loop scripts len r t' \<and>
    jt_err t' = None \<and> jt_groups t' = jt_groups t \<and> jt_out t' = jt_out t @ lower_pattern scripts p"
  using assms
proof (induction p arbitrary: t r)
  case Nothing
  then show ?case by auto
next
  case (Mark c p)
  have "scan_step scripts len (c # show_java p @ r) t = Inr (show_java p @ r, (emit [c] t)\<lparr>jt_atom := None\<rparr>)"
    using Mark.prems(1) by (auto simp: scan_step_def esc_char_def)
  from loop_step [OF this Mark.prems(2)] Mark.prems(4)
  have "translate_loop scripts len (show_java (Mark c p) @ r) t =
      translate_loop scripts len (show_java p @ r) ((emit [c] t)\<lparr>jt_atom := None\<rparr>)" by simp
  with Mark.IH [of "(emit [c] t)\<lparr>jt_atom := None\<rparr>" r] Mark.prems show ?case by simp
next
  case (Literal c q p)
  have "atom_scanned scripts len [c] [c] (show_quantifier q @ show_java p @ r) t"
    by (rule scan_literal) (use Literal.prems in simp_all)
  from scan_quantified [OF this] quantifier_follows [of p r] Literal.prems
  obtain t1 where "translate_loop scripts len ([c] @ show_quantifier q @ show_java p @ r) t = translate_loop scripts len (show_java p @ r) t1"
    "jt_err t1 = None" "jt_groups t1 = jt_groups t" "jt_out t1 = jt_out t @ lower_quantifier q [c]" by auto
  with Literal.IH [of t1 r] Literal.prems show ?case by simp
next
  case (Escape e q p)
  have "length (jt_out t) \<le> max_translated_bytes" using Escape.prems(4) by simp
  with Escape.prems have "atom_scanned scripts len e (lower_alone scripts e) (show_quantifier q @ show_java p @ r) t"
    by (intro scan_escape_atom) simp_all
  from scan_quantified [OF this] quantifier_follows [of p r] Escape.prems
  obtain t1 where "translate_loop scripts len (e @ show_quantifier q @ show_java p @ r) t = translate_loop scripts len (show_java p @ r) t1"
    "jt_err t1 = None" "jt_groups t1 = jt_groups t" "jt_out t1 = jt_out t @ lower_quantifier q (lower_alone scripts e)" by auto
  with Escape.IH [of t1 r] Escape.prems show ?case by simp
next
  case (Bracket neg ms q p)
  let ?a = "''['' @ (if neg then ''^'' else []) @ concat (map show_member ms) @ '']''"
  let ?b = "''['' @ (if neg then ''^'' else []) @ concat (map (lower_member scripts) ms) @ '']''"
  have "length (jt_out t) \<le> max_translated_bytes" using Bracket.prems(4) by simp
  with Bracket.prems have "atom_scanned scripts len ?a ?b (show_quantifier q @ show_java p @ r) t"
    by (intro scan_bracket) simp_all
  from scan_quantified [OF this] quantifier_follows [of p r] Bracket.prems
  obtain t1 where "translate_loop scripts len (?a @ show_quantifier q @ show_java p @ r) t = translate_loop scripts len (show_java p @ r) t1"
    "jt_err t1 = None" "jt_groups t1 = jt_groups t" "jt_out t1 = jt_out t @ lower_quantifier q ?b" by auto
  with Bracket.IH [of t1 r] Bracket.prems show ?case by simp
next
  case (Group h b q p)
  let ?s = "show_quantifier q @ show_java p @ r" and ?low = "CHR ''('' # h @ lower_pattern scripts b @ '')''"
  have bound: "length (jt_out t) + length ?low \<le> max_translated_bytes"
    using Group.prems(4) lower_quantifier_length [of ?low q] by simp
  have close: "stops_quantifier (CHR '')'' # ?s)" by (simp add: stops_quantifier_def is_quantifier_char_def)
  have "stops_quantifier (show_java b @ CHR '')'' # ?s)" using quantifier_follows [OF _ close] Group.prems(1) by simp
  from scan_group_header [of h t, OF _ _ this] Group.prems(1,2) bound
  obtain t1 where t1: "translate_loop scripts len (CHR ''('' # h @ show_java b @ CHR '')'' # ?s) t =
      translate_loop scripts len (show_java b @ CHR '')'' # ?s) t1"
    "jt_err t1 = None" "jt_groups t1 = length (jt_out t) # jt_groups t" "jt_out t1 = jt_out t @ CHR ''('' # h" by auto
  from Group.IH(1) [OF _ t1(2) close] Group.prems(1) bound t1(4)
  obtain t2 where t2: "translate_loop scripts len (show_java b @ CHR '')'' # ?s) t1 = translate_loop scripts len (CHR '')'' # ?s) t2"
    "jt_err t2 = None" "jt_groups t2 = length (jt_out t) # jt_groups t"
    "jt_out t2 = jt_out t @ CHR ''('' # h @ lower_pattern scripts b" using t1(3) by auto
  let ?t3 = "t2\<lparr>jt_out := jt_out t2 @ '')'', jt_atom := Some (length (jt_out t)), jt_groups := jt_groups t\<rparr>"
  have "translate_loop scripts len (CHR '')'' # ?s) t2 = translate_loop scripts len ?s ?t3"
    by (rule scan_group_end) (use t2 bound in simp_all)
  then have "atom_scanned scripts len (CHR ''('' # h @ show_java b @ '')'') ?low ?s t"
    using t1 t2 unfolding atom_scanned_def by (intro exI [of _ ?t3]) simp
  from scan_quantified [OF this] quantifier_follows [of p r] Group.prems
  obtain t4 where "translate_loop scripts len ((CHR ''('' # h @ show_java b @ '')'') @ ?s) t = translate_loop scripts len (show_java p @ r) t4"
    "jt_err t4 = None" "jt_groups t4 = jt_groups t" "jt_out t4 = jt_out t @ lower_quantifier q ?low" by auto
  with Group.IH(2) [of t4 r] Group.prems show ?case by simp
qed

section \<open>Properties\<close>

text \<open>
  C21. The translator writes a pattern of the grammar as the grammar's rules say: a possessive quantifier
  becomes an atomic group around exactly its atom, however deep groups nest and whatever was rewritten
  inside it, a Java class becomes the class of its code points, and everything else is copied.
\<close>

theorem translation_follows_grammar:
  assumes "pattern_ok p" and "length (lower_pattern scripts p) \<le> max_translated_bytes"
  shows "translate_java scripts (show_java p) = Inr (lower_pattern scripts p)"
proof -
  have "\<exists>t'. translate_loop scripts (length (show_java p)) (show_java p @ []) new_translator =
      translate_loop scripts (length (show_java p)) [] t' \<and> jt_err t' = None \<and> jt_groups t' = jt_groups new_translator \<and>
      jt_out t' = jt_out new_translator @ lower_pattern scripts p"
    by (rule scan_pattern) (use assms in \<open>simp_all add: stops_quantifier_def new_translator_def\<close>)
  then obtain t' where "run_translator scripts (show_java p) = Inr t'" "jt_out t' = lower_pattern scripts p"
    by (auto simp: run_translator_def new_translator_def loop_end)
  then show ?thesis using translation_is_output by metis
qed

text \<open>Evaluating class escapes and their texts; code points are too large for unary arithmetic.\<close>

lemmas class_text_simps = ranges_text_def class_rune_def is_alnum_byte_def show_upper_hex.simps upper_hex_digit_def esc_char_def

definition not_horizontal :: "rune_range list" where
  "not_horizontal =
     [(0, 8), (10, 31), (33, 159), (161, 5759), (5761, 6157), (6159, 8191), (8203, 8238), (8240, 8286), (8288, 12287),
      (12289, 1114111)]"

lemma class_escapes:
  "java_class_escape [esc_char, CHR ''v''] = Some [(10, 13), (133, 133), (8232, 8233)]"
  "java_class_escape [esc_char, CHR ''s''] = Some [(9, 13), (32, 32)]"
  "java_class_escape [esc_char, CHR ''H''] = Some not_horizontal"
proof -
  have "char_of (118 :: nat) = CHR ''v''" "char_of (115 :: nat) = CHR ''s''" "char_of (104 :: nat) = CHR ''h''" by code_simp+
  then show "java_class_escape [esc_char, CHR ''v''] = Some [(10, 13), (133, 133), (8232, 8233)]"
    "java_class_escape [esc_char, CHR ''s''] = Some [(9, 13), (32, 32)]"
    "java_class_escape [esc_char, CHR ''H''] = Some not_horizontal"
    by (simp_all add: java_class_escape_def class_of_def letter_classes_def byte_of_def is_upper_def complement_ranges_def
        max_rune_def not_horizontal_def)
qed

text \<open>A possessive group with a rewritten escape inside, and a class.\<close>

definition sample_pattern :: java_pattern where
  "sample_pattern =
     Group ''?:'' (Escape [esc_char, CHR ''v''] (Possessive ''+'') (Mark (CHR ''|'') (Literal (CHR ''a'') Once Nothing)))
       (Possessive ''{2,3}'')
       (Bracket True [Member (CHR ''x''), MemberEscape [esc_char, CHR ''s'']] (Lazy ''*'') Nothing)"

lemma sample_pattern_texts:
  "show_java sample_pattern =
     ''(?:'' @ [esc_char] @ ''v++|a){2,3}+[^x'' @ [esc_char] @ ''s]*?''"
  "lower_pattern (\<lambda>_. False) sample_pattern =
     ''(?>(?:(?>['' @ ranges_text [(10, 13), (133, 133), (8232, 8233)] @ '']+)|a){2,3})[^x'' @
     ranges_text [(9, 13), (32, 32)] @ '']*?''"
  by (simp_all add: sample_pattern_def lower_alone_def lower_escape_def class_escapes is_line_break_def)

theorem translation_follows_grammar_witness:
  "translate_java (\<lambda>_. False) (''(?:'' @ [esc_char] @ ''v++|a){2,3}+[^x'' @ [esc_char] @ ''s]*?'') =
     Inr (''(?>(?:(?>['' @ ranges_text [(10, 13), (133, 133), (8232, 8233)] @ '']+)|a){2,3})[^x'' @
       ranges_text [(9, 13), (32, 32)] @ '']*?'')"
proof -
  have "pattern_ok sample_pattern" by code_simp
  moreover have "length (lower_pattern (\<lambda>_. False) sample_pattern) \<le> max_translated_bytes"
    unfolding sample_pattern_texts by (simp add: class_text_simps max_translated_bytes_def)
  ultimately show ?thesis
    using translation_follows_grammar [of sample_pattern "\<lambda>_. False"] unfolding sample_pattern_texts by simp
qed

text \<open>
  The text written for a Java class is read back to the ranges it stands for, and the escape in the
  other case is its exact complement over all code points.
\<close>

lemma class_escape_denotes:
  assumes "java_class_escape esc = Some rs"
  shows "read_ranges (ranges_text rs) = Some rs \<and>
    (\<exists>rs'. java_class_escape (flip_case esc) = Some rs' \<and>
       (\<forall>r. r \<le> max_rune \<longrightarrow> in_ranges r rs' = (\<not> in_ranges r rs)))"
  using read_ranges_back java_class_flip [OF assms] by blast

lemma class_escape_denotes_witness:
  "read_ranges (ranges_text [(10, 13), (133, 133), (8232, 8233)]) = Some [(10, 13), (133, 133), (8232, 8233)] \<and>
   (\<exists>rs'. java_class_escape (flip_case [esc_char, CHR ''v'']) = Some rs' \<and>
      (\<forall>r. r \<le> max_rune \<longrightarrow> in_ranges r rs' = (\<not> in_ranges r [(10, 13), (133, 133), (8232, 8233)])))"
  by (rule class_escape_denotes [OF class_escapes(1)])

text \<open>
  The two shortcuts change nothing: what is answered is what the scanner emitted, whether or not it
  was consulted or noted a change, and an error is the scanner's, except that a pattern with nothing
  to rewrite is never refused.
\<close>

lemma shortcuts_agree:
  "translate_java scripts src =
     (case run_translator scripts src of
        Inr t \<Rightarrow> Inr (jt_out t)
      | Inl e \<Rightarrow> if rewritable src then Inl e else Inr src)"
proof (cases "run_translator scripts src")
  case (Inl e)
  then show ?thesis by (simp add: translate_java_def rewritable_def)
next
  case (Inr t)
  then show ?thesis using translation_is_output by simp
qed

section \<open>The bound on the output\<close>

text \<open>
  The bound is looked at once per round of the loop, and a character class is one round: a class of
  many negated escapes expands without limit.
\<close>

lemma class_evades_bound:
  "translate_java scripts (''['' @ concat (replicate n [esc_char, CHR ''H'']) @ '']'') =
     Inr (''['' @ concat (replicate n (ranges_text not_horizontal)) @ '']'')"
proof -
  let ?e = "[esc_char, CHR ''H'']" and ?m = "replicate n (MemberEscape [esc_char, CHR ''H''])"
  have "lower_member scripts (MemberEscape ?e) = ranges_text not_horizontal" by (simp add: lower_escape_def class_escapes)
  then have low: "concat (map (lower_member scripts) ?m) = concat (replicate n (ranges_text not_horizontal))"
    by (simp add: map_replicate_const)
  have show_m: "concat (map show_member ?m) = concat (replicate n ?e)" by (simp add: map_replicate_const)
  have "member_ok (MemberEscape ?e)" by code_simp
  then have "list_all member_ok ?m" by (simp add: list_all_iff)
  from scan_bracket [OF this, of new_translator scripts _ False "[]"]
  obtain t' where "translate_loop scripts (length (''['' @ concat (replicate n ?e) @ '']''))
      (''['' @ concat (replicate n ?e) @ '']'') new_translator = Inr t'"
    "jt_out t' = ''['' @ concat (replicate n (ranges_text not_horizontal)) @ '']''"
    unfolding low show_m atom_scanned_def
    by (fastforce simp: new_translator_def max_translated_bytes_def loop_end)
  then show ?thesis using translation_is_output unfolding run_translator_def by metis
qed

lemma not_horizontal_length: "length (ranges_text not_horizontal) = 158"
  by (simp add: not_horizontal_def class_text_simps)

section \<open>Compiling\<close>

text \<open>
  \<^verbatim>\<open>Compile\<close> of \<^verbatim>\<open>regexx.go\<close>. The engines are parameters: RE2 gives a predicate and the literal prefix,
  the backtracking engine, with or without its compatibility flag, a match that may time out.
\<close>

record regex_engines =
  rx_re2 :: "string \<Rightarrow> ((string \<Rightarrow> bool) \<times> string \<times> bool) option"
  rx_backtracking :: "bool \<Rightarrow> string \<Rightarrow> string + (string \<Rightarrow> bool option)"
  rx_scripts :: "string \<Rightarrow> bool"

datatype regex_program = RE2 "string \<Rightarrow> bool" | Backtracking "string \<Rightarrow> bool option"

record regex_pattern =
  rp_source :: string
  rp_program :: regex_program
  rp_literal_prefix :: string
  rp_prefix_is_whole :: bool

definition regex_expression :: "bool \<Rightarrow> string \<Rightarrow> string" where
  "regex_expression anchored pattern =
     (if anchored then ''(?s)'' @ [esc_char] @ ''A(?:'' @ pattern @ '')'' @ [esc_char] @ ''z'' else ''(?s)'' @ pattern)"

definition compile_regex :: "regex_engines \<Rightarrow> bool \<Rightarrow> string \<Rightarrow> string + regex_pattern" where
  "compile_regex rx anchored source =
     (case translate_java (rx_scripts rx) source of
        Inl e \<Rightarrow> Inl e
      | Inr pattern \<Rightarrow>
          (let expr = regex_expression anchored pattern in
           case rx_re2 rx expr of
             Some (m, prefix, whole) \<Rightarrow>
               Inr \<lparr>rp_source = source, rp_program = RE2 m, rp_literal_prefix = prefix, rp_prefix_is_whole = whole\<rparr>
           | None \<Rightarrow>
               (case (case rx_backtracking rx True expr of Inr m \<Rightarrow> Inr m | Inl _ \<Rightarrow> rx_backtracking rx False expr) of
                  Inl e \<Rightarrow> Inl (''pattern does not compile on either engine: '' @ e)
                | Inr m \<Rightarrow>
                    Inr \<lparr>rp_source = source, rp_program = Backtracking m, rp_literal_prefix = [],
                         rp_prefix_is_whole = False\<rparr>)))"

text \<open>\<^verbatim>\<open>MatchString\<close>: a timeout is no match, and is reported with the source.\<close>

definition pattern_match :: "regex_pattern \<Rightarrow> string \<Rightarrow> bool \<times> string option" where
  "pattern_match p s =
     (case rp_program p of
        RE2 m \<Rightarrow> (m s, None)
      | Backtracking m \<Rightarrow> (case m s of Some ok \<Rightarrow> (ok, None) | None \<Rightarrow> (False, Some (rp_source p))))"

text \<open>
  A prefix rejects candidates, so it must be one every match has: it is, when RE2's own prefix is.
\<close>

lemma literal_prefix_sound:
  assumes "compile_regex rx anchored source = Inr p"
    and "\<And>expr m prefix whole s. rx_re2 rx expr = Some (m, prefix, whole) \<Longrightarrow> m s \<Longrightarrow> contains_str s prefix"
    and "fst (pattern_match p s)"
  shows "contains_str s (rp_literal_prefix p)"
proof -
  have nil: "contains_str s []" by (cases s) simp_all
  show ?thesis
    using assms nil
    by (auto simp: compile_regex_def pattern_match_def Let_def split: sum.splits option.splits)
qed

text \<open>
  Anchoring wraps the pattern in a group without checking that it is a whole pattern: one with an
  unbalanced bracket pair closes the group itself, and its first branch is then not anchored behind.
\<close>

lemma unbalanced_escapes_anchor:
  "map_sum id (regex_expression True) (translate_java (\<lambda>_. False) ''a)|(b'') =
     Inr (''(?s)'' @ [esc_char] @ ''A(?:a)|(b)'' @ [esc_char] @ ''z'')"
  by code_simp

end
