(* ===== verification/Engine.thy ===== *)
theory Engine
  imports Convergence Scenario_Gate Response_Wire Near_Miss Stub_Compile
begin

text \<open>
  \<^verbatim>\<open>internal/match/engine.go\<close>: one mock request from its first byte to its last, composed of the
  parts modelled before: the body is read under its cap, the request is bound to a pooled instance,
  the snapshot selects a stub, the scenario moves, the response is written, and the bookkeeping
  follows. Tracing is off, its default.
\<close>

section \<open>Reading the body\<close>

text \<open>
  What \<^verbatim>\<open>net/http\<close> offers of a body: whether there is one, the declared length (negative when
  unknown), the bytes that arrive, and whether an error instead of the end follows them.
\<close>

record body_source =
  bs_present :: bool
  bs_length :: int
  bs_data :: bytes
  bs_broken :: bool

text \<open>\<^verbatim>\<open>io.ReadAll\<close>, \<^verbatim>\<open>io.ReadFull\<close> and \<^verbatim>\<open>io.LimitReader\<close> over it.\<close>

definition read_all :: "body_source \<Rightarrow> bytes option" where
  "read_all src = (if bs_broken src then None else Some (bs_data src))"

definition read_full :: "int \<Rightarrow> body_source \<Rightarrow> bytes option" where
  "read_full n src = (if n \<le> int (length (bs_data src)) then Some (take (nat n) (bs_data src)) else None)"

definition limit_reader :: "int \<Rightarrow> body_source \<Rightarrow> body_source" where
  "limit_reader n src =
     src\<lparr>bs_data := take (nat n) (bs_data src), bs_broken := bs_broken src \<and> int (length (bs_data src)) < n\<rparr>"

text \<open>
  \<^verbatim>\<open>readBody\<close>: none is the refusal of a body over the cap. A body that cannot be read to its end
  counts as empty.
\<close>

definition engine_read_body :: "int \<Rightarrow> body_source \<Rightarrow> bytes option" where
  "engine_read_body limit src =
     (if \<not> bs_present src \<or> bs_length src = 0 then Some []
      else if limit \<le> 0 then
        (case read_all src of None \<Rightarrow> Some [] | Some body \<Rightarrow> Some body)
      else if 0 < bs_length src \<and> bs_length src \<le> limit then
        (case read_full (bs_length src) src of None \<Rightarrow> Some [] | Some body \<Rightarrow> Some body)
      else
        (case read_all (limit_reader (wrap64 (limit + 1)) src) of
           None \<Rightarrow> Some []
         | Some body \<Rightarrow> if limit < int (length body) then None else Some body))"

definition body_too_large :: wm_error where
  "body_too_large = new_error code_body_too_large ''request body exceeds max_body_bytes''"

section \<open>The engine and the world around it\<close>

text \<open>
  What a request of the journal, the access log and the metrics sees. \<open>sv_took\<close> stands for the
  clock's reading.
\<close>

record 't served_record =
  sv_request :: http_request
  sv_body :: bytes
  sv_stub :: "'t compiled_stub option"
  sv_status :: int

record access_line =
  al_method :: string
  al_path :: string
  al_status :: int
  al_matched :: bool
  al_stub :: string
  al_took :: int
  al_sampled_of :: int

record observation =
  ob_matched :: string
  ob_status :: string
  ob_candidates :: nat
  ob_took :: int

text \<open>
  The configured engine. \<open>en_renderer\<close> is the template engine applied to the request model that
  \<^verbatim>\<open>BuildContext\<close> assembles; the decoded path of the URL, which only the log shows, is a function.
\<close>

record ('t, 'x, 'p, 's) engine =
  en_snapshot :: "('t, settings) snapshot"
  en_reader :: "('x, 'p) reader"
  en_gate :: "('x, 'p, store_error, 's) scenario_gate option"
  en_transitioner :: "'s scenario_api option"
  en_renderer :: "(http_request \<Rightarrow> bytes \<Rightarrow> (string \<rightharpoonup> string) \<Rightarrow> (string \<times> json) list \<Rightarrow> 't \<Rightarrow> string + string) option"
  en_write_slack :: int
  en_max_body :: int
  en_diagnostics :: bool
  en_round :: "rat \<Rightarrow> rat"
  en_recording :: bool
  en_log_requests :: bool
  en_sample_n :: int
  en_url_path :: "http_request \<Rightarrow> string"
  en_store_error_text :: "store_error \<Rightarrow> string"

record ('t, 'x, 'p, 's) engine_world =
  ew_store :: 's
  ew_pool :: "('x, 'p, store_error) parsed_request list"
  ew_served :: u64
  ew_records :: "'t served_record list"
  ew_log :: "access_line list"
  ew_observed :: "observation list"
  ew_store_errors :: nat

text \<open>What differs from one request to the next: the pool's choice, the clock and the connection.\<close>

record arrival =
  ar_pick :: nat
  ar_now :: time
  ar_took :: int
  ar_surroundings :: surroundings
  ar_header :: header
  ar_request :: http_request
  ar_body :: body_source

section \<open>Bookkeeping\<close>

definition matched_label :: "bool \<Rightarrow> string" where
  "matched_label m = (if m then ''true'' else ''false'')"

definition status_strings :: "string list" where
  "status_strings = replicate 100 [] @ map (\<lambda>i. show_int (int i)) [100..<600]"

definition status_label :: "int \<Rightarrow> string" where
  "status_label status =
     (if 100 \<le> status \<and> status < 600 then status_strings ! nat status else ''unknown'')"

definition observe ::
    "bool \<Rightarrow> int \<Rightarrow> nat \<Rightarrow> int \<Rightarrow> ('t, 'x, 'p, 's) engine_world \<Rightarrow> ('t, 'x, 'p, 's) engine_world" where
  "observe matched status seen took w =
     w\<lparr>ew_observed := ew_observed w @
         [\<lparr>ob_matched = matched_label matched, ob_status = status_label status,
           ob_candidates = seen, ob_took = took\<rparr>]\<rparr>"

definition access_log ::
    "('t, 'x, 'p, 's) engine \<Rightarrow> arrival \<Rightarrow> 't compiled_stub option \<Rightarrow> int \<Rightarrow>
     ('t, 'x, 'p, 's) engine_world \<Rightarrow> ('t, 'x, 'p, 's) engine_world" where
  "access_log en ar cs status w =
     (if \<not> en_log_requests en then w
      else
        let n = ew_served w + 1;
            sample = (word_of_int (en_sample_n en) :: u64);
            w = w\<lparr>ew_served := n\<rparr>
        in if 1 < sample \<and> n mod sample \<noteq> 0 then w
           else w\<lparr>ew_log := ew_log w @
                  [\<lparr>al_method = hr_method (ar_request ar), al_path = en_url_path en (ar_request ar),
                    al_status = status, al_matched = (cs \<noteq> None),
                    al_stub = (case cs of None \<Rightarrow> [] | Some c \<Rightarrow> cs_id c), al_took = ar_took ar,
                    al_sampled_of = en_sample_n en\<rparr>]\<rparr>)"

definition finish ::
    "('t, 'x, 'p, 's) engine \<Rightarrow> arrival \<Rightarrow> bytes \<Rightarrow> 't compiled_stub option \<Rightarrow> int \<Rightarrow> nat \<Rightarrow>
     ('t, 'x, 'p, 's) engine_world \<Rightarrow> ('t, 'x, 'p, 's) engine_world" where
  "finish en ar body cs status seen w =
     (let w = (if en_recording en
               then w\<lparr>ew_records := ew_records w @
                      [\<lparr>sv_request = ar_request ar, sv_body = body, sv_stub = cs, sv_status = status\<rparr>]\<rparr>
               else w)
      in observe (cs \<noteq> None) status seen (ar_took ar) (access_log en ar cs status w))"

section \<open>Serving\<close>

definition engine_transition ::
    "('t, 'x, 'p, 's) engine \<Rightarrow> time \<Rightarrow> scenario_ref \<Rightarrow> ('t, 'x, 'p, 's) engine_world \<Rightarrow> ('t, 'x, 'p, 's) engine_world" where
  "engine_transition en now ref w =
     (case en_transitioner en of
        None \<Rightarrow> w
      | Some api \<Rightarrow>
          (case transition api
                  \<lparr>tj_name = sr_name ref, tj_required = sr_required_state ref, tj_new = sr_new_state ref, tj_now = now\<rparr>
                  (ew_store w) of
             (r, s) \<Rightarrow>
               w\<lparr>ew_store := s,
                 ew_store_errors := (if transition_error r = None then 0 else 1) + ew_store_errors w\<rparr>))"

definition advance_scenario ::
    "('t, 'x, 'p, 's) engine \<Rightarrow> time \<Rightarrow> 't compiled_stub option \<Rightarrow> ('t, 'x, 'p, 's) engine_world \<Rightarrow>
     ('t, 'x, 'p, 's) engine_world" where
  "advance_scenario en now cs w =
     (case cs of
        None \<Rightarrow> w
      | Some c \<Rightarrow>
          (case cs_scenario c of
             None \<Rightarrow> w
           | Some ref \<Rightarrow> if sr_new_state ref \<noteq> [] then engine_transition en now ref w else w))"

definition unmatched_no_stubs_body :: string where
  "unmatched_no_stubs_body = ''No response could be served as there are no stub mappings in this mockulus instance.''"

definition write_unmatched :: "header \<Rightarrow> string \<Rightarrow> wire_event list" where
  "write_unmatched h0 body =
     [Head 404 (set_header ''Content-Type'' [''text/plain;charset=UTF-8''] h0), Piece body]"

text \<open>The body of an unmatched answer, chosen by the \<^verbatim>\<open>switch\<close>.\<close>

definition unmatched_answer ::
    "('t, 'x, 'p, 's) engine \<Rightarrow> ('x, 'p, store_error) parsed_request \<Rightarrow> string" where
  "unmatched_answer en r =
     (if snapshot_len (en_snapshot en) = 0 then unmatched_no_stubs_body
      else if en_diagnostics en then diagnostic_body (en_round en) (en_reader en) (en_snapshot en) r
      else unmatched_body)"

definition answer_stub ::
    "('t, 'x, 'p, 's) engine \<Rightarrow> arrival \<Rightarrow> bytes \<Rightarrow> ('x, 'p, store_error) parsed_request \<Rightarrow> 't compiled_stub \<Rightarrow>
     int option \<times> wire_event list" where
  "answer_stub en ar body r cs =
     write_response (ar_surroundings ar) (hr_method (ar_request ar)) (cs_response cs) (en_write_slack en)
       (sn_settings (en_snapshot en))
       (if cr_templated (cs_response cs)
        then map_option (\<lambda>rn. rn (ar_request ar) body (pr_path_vars r) (cr_transformer_parameters (cs_response cs)))
               (en_renderer en)
        else None)
       (ar_header ar)"

text \<open>
  \<^verbatim>\<open>ServeHTTP\<close> between acquiring and releasing the request. No status is the panic that aborts the
  connection: the bookkeeping does not run then.
\<close>

definition scenario_unavailable :: "('t, 'x, 'p, 's) engine \<Rightarrow> store_error \<Rightarrow> wm_error" where
  "scenario_unavailable en err =
     new_error code_scenario_unavailable
       (''the scenario state this request depends on could not be read: '' @ en_store_error_text en err)"

definition serve_bound ::
    "('t, 'x, 'p, 's) engine \<Rightarrow> arrival \<Rightarrow> bytes \<Rightarrow> ('x, 'p, store_error) parsed_request \<Rightarrow>
     ('t, 'x, 'p, 's) engine_world \<Rightarrow>
     wire_event list \<times> ('x, 'p, store_error) parsed_request \<times> ('t, 'x, 'p, 's) engine_world" where
  "serve_bound en ar body r w =
     (case match_snapshot (en_reader en) (en_snapshot en) (en_gate en) r (ew_store w) of
        (cs, seen, r, s) \<Rightarrow>
          (let w = w\<lparr>ew_store := s\<rparr> in
           case pr_scenario_err r of
             Some err \<Rightarrow>
               (write_error (ar_surroundings ar) (ar_header ar) (scenario_unavailable en err), r,
                finish en ar body None (status_for code_scenario_unavailable) seen w)
           | None \<Rightarrow>
               (let w = advance_scenario en (ar_now ar) cs w;
                    (status, es) =
                      (case cs of
                         Some c \<Rightarrow> answer_stub en ar body r c
                       | None \<Rightarrow> (Some 404, write_unmatched (ar_header ar) (unmatched_answer en r)))
                in (es, r,
                    case status of
                      None \<Rightarrow> w
                    | Some st \<Rightarrow> finish en ar body cs st seen w))))"

definition serve ::
    "('t, 'x, 'p, 's) engine \<Rightarrow> arrival \<Rightarrow> ('t, 'x, 'p, 's) engine_world \<Rightarrow>
     wire_event list \<times> ('t, 'x, 'p, 's) engine_world" where
  "serve en ar w =
     (case engine_read_body (en_max_body en) (ar_body ar) of
        None \<Rightarrow>
          (write_error (ar_surroundings ar) (ar_header ar) body_too_large,
           observe False 413 0 (ar_took ar) w)
      | Some body \<Rightarrow>
          (let (r, pool) = acquire_request (ar_pick ar) (ar_request ar) body (ew_pool w);
               (es, r, w) = serve_bound en ar body r (w\<lparr>ew_pool := pool\<rparr>)
           in (es, w\<lparr>ew_pool := release_request r (ew_pool w)\<rparr>)))"

section \<open>What the body cap does\<close>

text \<open>What \<^verbatim>\<open>net/http\<close> guarantees: a declared length is never exceeded, and no body carries no bytes.\<close>

definition honest_body :: "body_source \<Rightarrow> bool" where
  "honest_body src \<longleftrightarrow>
     (bs_present src \<or> bs_data src = []) \<and>
     (0 \<le> bs_length src \<longrightarrow> int (length (bs_data src)) \<le> bs_length src \<and>
        (\<not> bs_broken src \<longrightarrow> int (length (bs_data src)) = bs_length src))"

lemma read_body_exact:
  assumes "honest_body src" and "\<not> bs_broken src" and "0 \<le> limit" and "limit < max_int64"
  shows "engine_read_body limit src =
     (if 0 < limit \<and> limit < int (length (bs_data src)) then None else Some (bs_data src))"
proof -
  have w: "wrap64 (limit + 1) = limit + 1" using assms(3,4) by (intro wrap64_id) (simp_all add: max_int64_def)
  have "length (take (nat (limit + 1)) xs) = min (length xs) (nat (limit + 1))" for xs :: bytes by simp
  then show ?thesis
    using assms(1-3) unfolding engine_read_body_def read_all_def read_full_def limit_reader_def w honest_body_def
    by (auto simp: min_def)
qed

lemma broken_body_empty:
  assumes "honest_body src" and "bs_broken src" and "0 \<le> limit" and "limit < max_int64"
    and "0 \<le> bs_length src \<longrightarrow> int (length (bs_data src)) < bs_length src"
  shows "engine_read_body limit src =
     (if 0 < limit \<and> limit < int (length (bs_data src)) then None else Some [])"
proof -
  have w: "wrap64 (limit + 1) = limit + 1" using assms(3,4) by (intro wrap64_id) (simp_all add: max_int64_def)
  have n: "\<not> (0 < bs_length src \<and> bs_length src \<le> int (length (bs_data src)))" using assms(5) by linarith
  show ?thesis
  proof (cases "\<not> bs_present src \<or> bs_length src = 0 \<or> limit = 0 \<or> (0 < bs_length src \<and> bs_length src \<le> limit)")
    case True
    have "int (length (bs_data src)) \<le> limit \<or> limit = 0"
      if "bs_present src" "bs_length src \<noteq> 0"
      using True that assms(5) by auto
    moreover have "length (bs_data src) = 0" if "\<not> bs_present src \<or> bs_length src = 0"
      using that assms(1) by (auto simp: honest_body_def)
    ultimately show ?thesis using True n assms(2)
      by (auto simp: engine_read_body_def read_all_def read_full_def)
  next
    case False
    then have "engine_read_body limit src =
        (case read_all (limit_reader (limit + 1) src) of None \<Rightarrow> Some []
         | Some body \<Rightarrow> if limit < int (length body) then None else Some body)"
      using assms(3) by (auto simp: engine_read_body_def w)
    then show ?thesis using False assms(2,3) by (simp add: read_all_def limit_reader_def min_def)
  qed
qed

text \<open>
  The largest cap the configuration accepts makes \<open>limit + 1\<close> wrap around: a body of undeclared
  length is then read as empty, whatever was sent.
\<close>

lemma largest_cap_drops_body:
  assumes "bs_length src < 0" and "\<not> bs_broken src"
  shows "engine_read_body max_int64 src = Some []"
  using assms by (simp add: engine_read_body_def read_all_def limit_reader_def max_int64_def wrap64_def)

section \<open>What selection leaves behind\<close>

lemma gate_of_vars: "gate_of api ref r w = (ok, r', w') \<Longrightarrow> pr_path_vars r' = pr_path_vars r"
  by (auto simp: gate_of_def memoize_scenario_state_def fail_scenario_read_def
      split: if_splits option.splits prod.splits sum.splits)

text \<open>The bindings the winner's response reads, when the winner has a template.\<close>

definition winner_vars :: "'t compiled_stub \<Rightarrow> ('x, 'p, 'e) parsed_request \<Rightarrow> (string \<rightharpoonup> string) \<Rightarrow> bool" where
  "winner_vars cs r vars \<longleftrightarrow>
     (cs_url_kind cs = URLTemplate \<longrightarrow> vars = map_of (rev (snd (template_match (cs_path_template cs) (pr_path r)))))"

lemma winner_vars_wire: "same_wire r r' \<Longrightarrow> winner_vars cs r' vars = winner_vars cs r vars"
  by (simp add: winner_vars_def same_wire_def)

lemma full_match_winner_vars:
  assumes "request_inv rd r" and "full_match rd cs r = (True, r')"
  shows "winner_vars cs r (pr_path_vars r')"
  using full_match_ok [OF assms(1), of cs] full_match_vars [OF assms(1), of cs] assms(2)
  by (auto simp: winner_vars_def stub_matches_def)

text \<open>The stubs that may answer, and the one that does.\<close>

definition eligible ::
    "('x, 'p) reader \<Rightarrow> ('x, 'p, 'e) parsed_request \<Rightarrow> (string \<Rightarrow> string) \<Rightarrow> 't compiled_stub list \<Rightarrow> 't compiled_stub \<Rightarrow> bool" where
  "eligible rd r current stubs cs \<longleftrightarrow> cs \<in> set stubs \<and> stub_matches rd cs r \<and> scenario_open current cs"

definition best_eligible ::
    "('x, 'p) reader \<Rightarrow> ('x, 'p, 'e) parsed_request \<Rightarrow> (string \<Rightarrow> string) \<Rightarrow> 't compiled_stub list \<Rightarrow> 't compiled_stub \<Rightarrow> bool" where
  "best_eligible rd r current stubs cs \<longleftrightarrow>
     eligible rd r current stubs cs \<and> (\<forall>cs'. eligible rd r current stubs cs' \<longrightarrow> \<not> selection_less cs' cs)"

context reachable_scenario_store
begin

lemma gate_no_error: "gate_of api ref r w = (ok', r', w') \<Longrightarrow> pr_scenario_err r' = pr_scenario_err r"
  by (auto simp: gate_of_def client_state_exact memoize_scenario_state_def split: if_splits option.splits)

lemma scan_settles:
  assumes "request_inv rd r" and "memo_ok (current_state doc w) r"
    and "scan_stubs rd (Some (gate_of api)) css r w = (c, r', w')"
  shows "w' = w \<and> pr_scenario_err r' = pr_scenario_err r \<and> same_wire r r' \<and>
    (\<forall>cs. c = Some cs \<longrightarrow> winner_vars cs r (pr_path_vars r'))"
  using assms
proof (induction css arbitrary: r)
  case (Cons cs css)
  obtain okm r1 where m: "full_match rd cs r = (okm, r1)" by fastforce
  with full_match_ok [OF Cons.prems(1), of cs] full_match_wire [of r rd cs] full_match_memo(1) [OF Cons.prems(1), of cs]
    full_match_memo(2) [OF Cons.prems(1), of cs]
  have 1: "request_inv rd r1" "same_wire r r1" "memo_ok (current_state doc w) r1" "pr_scenario_err r1 = pr_scenario_err r"
    using Cons.prems(2) by (simp_all add: memo_ok_def)
  have next_ok: ?case
    if "request_inv rd r2" "same_wire r r2" "memo_ok (current_state doc w) r2" "pr_scenario_err r2 = pr_scenario_err r"
      and "scan_stubs rd (Some (gate_of api)) css r2 w = (c, r', w')" for r2
    using Cons.IH [OF that(1,3,5)] that(2,4) same_wire_trans [OF that(2), of r']
    by (auto simp: winner_vars_def same_wire_def)
  show ?case
  proof (cases "okm \<and> cs_scenario cs \<noteq> None")
    case False
    show ?thesis
    proof (cases okm)
      case True
      with False m Cons.prems(3) have "c = Some cs" "r' = r1" "w' = w" by auto
      then show ?thesis using 1 m True full_match_winner_vars [OF Cons.prems(1), of cs r1] by simp
    next
      case f: False
      then show ?thesis using m Cons.prems(3) next_ok [OF 1] by simp
    qed
  next
    case True
    then obtain ref where ref: "cs_scenario cs = Some ref" by auto
    obtain ok2 r2 w2 where g: "gate_of api ref r1 w = (ok2, r2, w2)" by (metis prod_cases3)
    from gate_exact [OF 1(3) g, of rd] gate_no_error [OF g] gate_of_vars [OF g] 1
    have 2: "w2 = w" "memo_ok (current_state doc w) r2" "same_wire r1 r2" "request_inv rd r2"
      "pr_scenario_err r2 = pr_scenario_err r" "pr_path_vars r2 = pr_path_vars r1" by simp_all
    have wire: "same_wire r r2" by (rule same_wire_trans [OF 1(2) 2(3)])
    show ?thesis
    proof (cases ok2)
      case ok: True
      with True m ref g 2(1) Cons.prems(3) have "c = Some cs" "r' = r2" "w' = w" by auto
      then show ?thesis using 2 wire m True full_match_winner_vars [OF Cons.prems(1), of cs r1] by simp
    next
      case False
      then have "scan_stubs rd (Some (gate_of api)) css r2 w = (c, r', w')"
        using True m ref g 2(1) Cons.prems(3) by simp
      from next_ok [OF 2(4) wire 2(2) 2(5) this] show ?thesis .
    qed
  qed
qed simp

lemma selection_settles:
  assumes s: "s = build_snapshot stubs epoch" and meth: "pr_method r \<noteq> any_method" and inv: "request_inv rd r"
    and memo: "pr_scenario_states r = Map.empty" and stubs: "\<forall>cs \<in> set stubs. stub_ok cs"
    and m: "match_snapshot rd s (Some (gate_of api)) r w = (c, seen, r', w')"
  shows "w' = w \<and> pr_scenario_err r' = pr_scenario_err r \<and> same_wire r r' \<and>
    (case c of
       None \<Rightarrow> \<forall>cs. \<not> eligible rd r (current_state doc w) stubs cs
     | Some cs \<Rightarrow> best_eligible rd r (current_state doc w) stubs cs \<and> winner_vars cs r (pr_path_vars r'))"
proof -
  obtain k where k: "drop_seen (match_snapshot rd s (Some (gate_of api)) r w) =
      scan_stubs rd (Some (gate_of api)) (sort_selection_order stubs) (r\<lparr>pr_key_buf := k\<rparr>) w"
    using scenario_gate.serves_scan [where rd = rd and api = api and w = w, OF s meth] by blast
  have "request_inv rd (r\<lparr>pr_key_buf := k\<rparr>)" "memo_ok (current_state doc w) (r\<lparr>pr_key_buf := k\<rparr>)"
    using inv memo by (simp_all add: request_inv_def memo_ok_def)
  from scan_settles [OF this k [unfolded m drop_seen_simps, symmetric]]
  have "w' = w \<and> pr_scenario_err r' = pr_scenario_err r \<and> same_wire r r' \<and>
    (\<forall>cs. c = Some cs \<longrightarrow> winner_vars cs r (pr_path_vars r'))"
    by (simp add: same_wire_def winner_vars_def)
  then show ?thesis
    using gated_selection [OF s meth inv memo stubs, of w] m
    by (auto simp: eligible_def best_eligible_def split: option.splits)
qed

end

section \<open>Serving over the in-process store\<close>

lemma match_snapshot_settings:
  "match_snapshot rd (s\<lparr>sn_settings := g\<rparr>) gate r w = match_snapshot rd s gate r w"
  by (simp add: match_snapshot_def)

text \<open>The state of a scenario after a stub has answered, and the whole store.\<close>

definition job_of :: "time \<Rightarrow> scenario_ref \<Rightarrow> transition_job" where
  "job_of now ref =
     \<lparr>tj_name = sr_name ref, tj_required = sr_required_state ref, tj_new = sr_new_state ref, tj_now = now\<rparr>"



lemma advance_none [simp]: "advance_scenario en now None w = w"
  by (simp add: advance_scenario_def)

lemma write_response_status_none:
  "write_response su meth resp slack g rn h0 = (st, es) \<Longrightarrow> st = None \<longleftrightarrow> Aborted \<in> set es \<and> cr_fault resp \<noteq> []"
  by (auto simp: write_response_def Let_def await_delay_def write_rendered_def
      split: if_splits option.splits sum.splits prod.splits)

lemma finish_keeps [simp]:
  "ew_store (finish en ar body cs st n w) = ew_store w" "ew_pool (finish en ar body cs st n w) = ew_pool w"
  "ew_records (finish en ar body cs st n w) =
     ew_records w @ (if en_recording en
       then [\<lparr>sv_request = ar_request ar, sv_body = body, sv_stub = cs, sv_status = st\<rparr>] else [])"
  by (simp_all add: finish_def observe_def access_log_def Let_def)

section \<open>The program put together\<close>






text \<open>What the journal is told of a request, when it was answered.\<close>

definition recorded ::
    "('t, 'x, 'p, 's) engine \<Rightarrow> arrival \<Rightarrow> bytes \<Rightarrow> 't compiled_stub option \<Rightarrow> int option \<Rightarrow> 't served_record list" where
  "recorded en ar body cs st =
     (case st of
        None \<Rightarrow> []
      | Some k \<Rightarrow> if en_recording en
          then [\<lparr>sv_request = ar_request ar, sv_body = body, sv_stub = cs, sv_status = k\<rparr>] else [])"

lemma bound_fields:
  fixes r :: "('x, 'p, 'e) parsed_request"
  assumes "r = bind_request req body new_request"
  shows "pr_method r = hr_method req" "pr_scenario_states r = Map.empty" "pr_scenario_err r = None" "request_inv rd r"
  using assms bind_new_request_inv [of rd req body]
  by (simp_all add: bind_request_def new_request_def case_prod_beta Let_def)




section \<open>When the store cannot be read\<close>

text \<open>The stub waits for a scenario state.\<close>

definition state_bound :: "'t compiled_stub \<Rightarrow> bool" where
  "state_bound cs \<longleftrightarrow> (case cs_scenario cs of None \<Rightarrow> False | Some ref \<Rightarrow> sr_required_state ref \<noteq> [])"

text \<open>Every read of a scenario fails, and changes nothing.\<close>

definition reads_fail :: "'s scenario_api \<Rightarrow> bool" where
  "reads_fail api \<longleftrightarrow> (\<forall>n s. \<exists>e. sa_get api n s = (Inl e, s) \<and> \<not> is_not_found e)"

lemma gate_outage:
  assumes "reads_fail api" and "pr_scenario_states r = Map.empty" and "gate_of api ref r w = (ok, r', w')"
  shows "w' = w \<and> same_wire r r' \<and> pr_scenario_states r' = Map.empty \<and> (request_inv rd r \<longrightarrow> request_inv rd r') \<and>
    ok = (sr_required_state ref = []) \<and>
    (if sr_required_state ref = [] then pr_scenario_err r' = pr_scenario_err r else pr_scenario_err r' \<noteq> None)"
proof -
  obtain e where "sa_get api (sr_name ref) w = (Inl e, w)" "\<not> is_not_found e" using assms(1) unfolding reads_fail_def by blast
  then show ?thesis using assms(2,3)
    by (auto simp: gate_of_def memoized_state_def client_state_def split: if_splits)
      (auto simp: fail_scenario_read_def)
qed

lemma scan_outage:
  assumes "reads_fail api" and "request_inv rd r" and "pr_scenario_states r = Map.empty" and "\<forall>cs \<in> set css. stub_ok cs"
    and "scan_stubs rd (Some (gate_of api)) css r w = (c, r', w')"
  shows "w' = w \<and> same_wire r r' \<and> (pr_scenario_err r \<noteq> None \<longrightarrow> pr_scenario_err r' \<noteq> None) \<and>
    (case find (\<lambda>cs. stub_matches rd cs r) css of
       None \<Rightarrow> c = None \<and> pr_scenario_err r' = pr_scenario_err r
     | Some cs \<Rightarrow> if state_bound cs then pr_scenario_err r' \<noteq> None
         else c = Some cs \<and> pr_scenario_err r' = pr_scenario_err r \<and> winner_vars cs r (pr_path_vars r'))"
  using assms(2-5)
proof (induction css arbitrary: r)
  case (Cons cs css)
  obtain okm r1 where m: "full_match rd cs r = (okm, r1)" by fastforce
  with full_match_ok [OF Cons.prems(1), of cs] full_match_wire [of r rd cs] full_match_memo(1) [OF Cons.prems(1), of cs]
    full_match_memo(2) [OF Cons.prems(1), of cs]
  have 1: "okm = stub_matches rd cs r" "request_inv rd r1" "same_wire r r1" "pr_scenario_states r1 = Map.empty"
    "pr_scenario_err r1 = pr_scenario_err r"
    using Cons.prems(2) by simp_all
  have rest: "w' = w \<and> same_wire r2 r' \<and> (pr_scenario_err r2 \<noteq> None \<longrightarrow> pr_scenario_err r' \<noteq> None)"
    if "request_inv rd r2" "pr_scenario_states r2 = Map.empty" "scan_stubs rd (Some (gate_of api)) css r2 w = (c, r', w')" for r2
    using Cons.IH [OF that(1,2) _ that(3)] Cons.prems(3) by simp
  show ?case
  proof (cases okm)
    case False
    have scan: "scan_stubs rd (Some (gate_of api)) css r1 w = (c, r', w')" using Cons.prems(4) m False by simp
    have "find (\<lambda>cs. stub_matches rd cs r1) css = find (\<lambda>cs. stub_matches rd cs r) css"
      using Cons.prems(3) stub_matches_wire [OF _ 1(3), of _ rd] by (intro find_cong) auto
    moreover have "find (\<lambda>cs. stub_matches rd cs r) (cs # css) = find (\<lambda>cs. stub_matches rd cs r) css"
      using False 1(1) by simp
    moreover have "\<forall>cs \<in> set css. stub_ok cs" using Cons.prems(3) by simp
    ultimately show ?thesis
      using Cons.IH [OF 1(2,4) _ scan] 1(5) same_wire_trans [OF 1(3), of r']
      by (simp add: winner_vars_wire [OF 1(3)] split: option.splits if_split_asm)
  next
    case True
    then have find: "find (\<lambda>cs. stub_matches rd cs r) (cs # css) = Some cs" using 1(1) by simp
    note vars = full_match_winner_vars [OF Cons.prems(1), of cs r1]
    show ?thesis
    proof (cases "cs_scenario cs")
      case None
      then have "c = Some cs" "r' = r1" "w' = w" using Cons.prems(4) m True by simp_all
      then show ?thesis using find None 1 m True vars by (simp add: state_bound_def)
    next
      case (Some ref)
      obtain ok2 r2 w2 where g: "gate_of api ref r1 w = (ok2, r2, w2)" by (metis prod_cases3)
      note g' = gate_outage [OF assms(1) 1(4) g, of rd] gate_of_vars [OF g]
      show ?thesis
      proof (cases "sr_required_state ref = []")
        case t: True
        then have "ok2" "w2 = w" using g' by simp_all
        then have "c = Some cs" "r' = r2" "w' = w" using Cons.prems(4) m True Some g by simp_all
        then show ?thesis using find Some 1 m True vars g' t same_wire_trans [OF 1(3), of r2]
          by (simp add: state_bound_def)
      next
        case False
        then have "\<not> ok2" "w2 = w" using g' by simp_all
        then have "scan_stubs rd (Some (gate_of api)) css r2 w = (c, r', w')" using Cons.prems(4) m True Some g by simp
        from rest [OF _ _ this] have "w' = w" "same_wire r2 r'" "pr_scenario_err r' \<noteq> None" using g' 1(2) False by simp_all
        moreover have "same_wire r r2" using same_wire_trans [OF 1(3)] g' by blast
        ultimately show ?thesis using find Some False same_wire_trans [of r r2 r'] by (simp add: state_bound_def)
      qed
    qed
  qed
qed simp

definition first_match ::
    "('x, 'p) reader \<Rightarrow> ('x, 'p, 'e) parsed_request \<Rightarrow> 't compiled_stub list \<Rightarrow> 't compiled_stub option" where
  "first_match rd r stubs = find (\<lambda>cs. stub_matches rd cs r) (sort_selection_order stubs)"

lemma match_outage:
  assumes s: "s = build_snapshot stubs epoch" and "reads_fail api" and meth: "pr_method r \<noteq> any_method"
    and "request_inv rd r" and "pr_scenario_states r = Map.empty" and "\<forall>cs \<in> set stubs. stub_ok cs"
    and m: "match_snapshot rd s (Some (gate_of api)) r w = (c, seen, r', w')"
  shows "w' = w \<and> same_wire r r' \<and>
    (case first_match rd r stubs of
       None \<Rightarrow> c = None \<and> pr_scenario_err r' = pr_scenario_err r
     | Some cs \<Rightarrow> if state_bound cs then pr_scenario_err r' \<noteq> None
         else c = Some cs \<and> pr_scenario_err r' = pr_scenario_err r \<and> winner_vars cs r (pr_path_vars r'))"
proof -
  let ?o = "sort_selection_order stubs"
  have stubs: "\<forall>cs \<in> set ?o. stub_ok cs" using assms(6) by (simp add: sort_selection_order_key)
  obtain k where k: "drop_seen (match_snapshot rd s (Some (gate_of api)) r w) =
      scan_stubs rd (Some (gate_of api)) ?o (r\<lparr>pr_key_buf := k\<rparr>) w"
    using scenario_gate.serves_scan [where rd = rd and api = api and w = w, OF s meth] by blast
  have find: "find (\<lambda>cs. stub_matches rd cs (r\<lparr>pr_key_buf := k\<rparr>)) ?o = find (\<lambda>cs. stub_matches rd cs r) ?o"
    using stubs stub_matches_wire [OF _ same_wire_path_vars(3) [of r k], of _ rd] by (intro find_cong) auto
  have "request_inv rd (r\<lparr>pr_key_buf := k\<rparr>)" "pr_scenario_states (r\<lparr>pr_key_buf := k\<rparr>) = Map.empty"
    using assms(4,5) by (simp_all add: request_inv_def)
  from scan_outage [OF assms(2) this stubs k [unfolded m drop_seen_simps, symmetric]] show ?thesis
    by (simp add: find first_match_def same_wire_def winner_vars_def split: option.splits if_split_asm)
qed

text \<open>
  While the store cannot be read, a request whose first matching stub waits for a scenario state
  is refused with the scenario error and no other stub is served in its place; every other request
  is answered as if the store were well. Nothing is written to the store for a refused request.
\<close>

lemma outage_refuses_exactly:
  fixes en :: "('t, 'x, 'p, 's) engine"
  assumes "reads_fail api" and "en_gate en = Some (gate_of api)"
    and "en_snapshot en = (build_snapshot stubs epoch)\<lparr>sn_settings := g\<rparr>" and "\<forall>cs \<in> set stubs. stub_ok cs"
    and "hr_method (ar_request ar) \<noteq> any_method" and "r = bind_request (ar_request ar) body new_request"
    and "serve_bound en ar body r w = (es, r2, w2)"
  shows "(case first_match (en_reader en) r stubs of
      None \<Rightarrow> \<exists>r'. same_wire r r' \<and> es = write_unmatched (ar_header ar) (unmatched_answer en r')
    | Some cs \<Rightarrow>
        if state_bound cs
        then ew_store w2 = ew_store w \<and> ew_records w2 = ew_records w @ recorded en ar body None (Some 500) \<and>
          (\<exists>err. es = write_error (ar_surroundings ar) (ar_header ar) (scenario_unavailable en err))
        else \<exists>vars st. winner_vars cs r vars \<and> answer_stub en ar body (r\<lparr>pr_path_vars := vars\<rparr>) cs = (st, es))"
proof -
  note r = bound_fields [OF assms(6)]
  have meth: "pr_method r \<noteq> any_method" using assms(5) r(1) by simp
  obtain c seen r' s where m: "match_snapshot (en_reader en) (build_snapshot stubs epoch :: ('t, settings) snapshot)
      (Some (gate_of api)) r (ew_store w) = (c, seen, r', s)"
    using prod_cases4 by blast
  note out = match_outage [OF refl assms(1) meth r(4) r(2) assms(4) m]
  have snap: "match_snapshot (en_reader en) (en_snapshot en) (en_gate en) r (ew_store w) = (c, seen, r', ew_store w)"
    using m out unfolding assms(2,3) match_snapshot_settings by simp
  show ?thesis
  proof (cases "first_match (en_reader en) r stubs")
    case None
    then show ?thesis using out assms(7) snap r(3) by (auto simp: serve_bound_def)
  next
    case (Some cs)
    show ?thesis
    proof (cases "state_bound cs")
      case True
      then obtain err where "pr_scenario_err r' = Some err" using out Some by auto
      then show ?thesis using assms(7) snap Some True
        by (auto simp: serve_bound_def recorded_def status_for_def catalog_def code_defs)
    next
      case False
      then have "c = Some cs" "pr_scenario_err r' = None" "winner_vars cs r (pr_path_vars r')" using out Some r(3) by auto
      moreover have "answer_stub en ar body (r\<lparr>pr_path_vars := pr_path_vars r'\<rparr>) cs = answer_stub en ar body r' cs"
        by (simp add: answer_stub_def)
      ultimately show ?thesis using assms(7) snap Some False
        by (auto simp: serve_bound_def Let_def split: prod.splits)
    qed
  qed
qed

lemma capless:
  "advance_scenario (en\<lparr>en_max_body := k\<rparr>) = advance_scenario en" "answer_stub (en\<lparr>en_max_body := k\<rparr>) = answer_stub en"
  "unmatched_answer (en\<lparr>en_max_body := k\<rparr>) = unmatched_answer en"
  "scenario_unavailable (en\<lparr>en_max_body := k\<rparr>) = scenario_unavailable en"
  by (intro ext, simp add: advance_scenario_def engine_transition_def answer_stub_def unmatched_answer_def
      scenario_unavailable_def split: option.splits)+

lemma finish_capless: "finish (en\<lparr>en_max_body := k\<rparr>) = finish en"
proof -
  have "access_log (en\<lparr>en_max_body := k\<rparr>) = access_log en"
    by (intro ext) (simp add: access_log_def Let_def)
  then show ?thesis by (intro ext) (simp add: finish_def)
qed

lemma serve_bound_capless: "serve_bound (en\<lparr>en_max_body := k\<rparr>) = serve_bound en"
  unfolding serve_bound_def capless finish_capless by (intro ext) simp

text \<open>
  The body cap: a body of more bytes than the cap is answered with 413 and reaches neither the
  stubs, the store nor the journal; any other body is served as with no cap at all.
\<close>

lemma body_cap_exact:
  assumes "honest_body (ar_body ar)" and "\<not> bs_broken (ar_body ar)" and "0 \<le> en_max_body en" and "en_max_body en < max_int64"
  shows "serve en ar w =
    (if 0 < en_max_body en \<and> en_max_body en < int (length (bs_data (ar_body ar)))
     then ([Head 413 (set_header ''Content-Type'' [''application/json''] (ar_header ar)),
            Piece (error_body (su_quote (ar_surroundings ar)) [body_too_large])],
           observe False 413 0 (ar_took ar) w)
     else serve (en\<lparr>en_max_body := 0\<rparr>) ar w)"
proof -
  have "engine_read_body 0 (ar_body ar) = Some (bs_data (ar_body ar))"
    using read_body_exact [OF assms(1,2), of 0] by (simp add: max_int64_def)
  moreover note serve_bound_capless [of 0 en]
  moreover have "status_for code_body_too_large = 413" by (simp add: status_for_def catalog_def code_defs)
  ultimately show ?thesis
    using read_body_exact [OF assms] by (simp add: serve_def write_error_def body_too_large_def new_error_def)
qed

section \<open>A small instance\<close>













end
