(* ===== verification/Spec2Isabelle.thy ===== *)
theory Spec2Isabelle
  imports Path_Template Array_Pairing Json_Match Matchers Request Snapshot_Select Scenario_Gate Journal Convergence
    Response_Wire File_Name Json_Text Matcher_Compile Stub_Compile Near_Miss Java_Syntax Engine
begin

text \<open>
  A verification library for mockulus, a WireMock-compatible mock server in Go.

  \<^bold>\<open>The program.\<close> Clients register stub mappings over an admin API; the mappings live in a store
  shared by several replicas. Each replica compiles the stored documents into an immutable snapshot
  and serves requests from it without touching the store: the request is bound to a pooled parsed
  form, candidate stubs are found through URL indexes, their criteria are evaluated cheapest first,
  a scenario gate may ask the store for the current state, and the first stub in selection order
  that matches writes its response, moves its scenario and is recorded in the journal. A poller
  compares the store's token with the snapshot's and rebuilds; a write on the same replica is
  spliced into the snapshot at once.

  \<^bold>\<open>The theories, bottom up.\<close>
  \<^item> \<open>Mock_Prelude\<close>: strings as byte lists and the functions of Go's \<^verbatim>\<open>strings\<close>, \<^verbatim>\<open>strconv\<close> and
    \<^verbatim>\<open>sort\<close> packages the code uses, 64-bit wrap-around, stable sorting.
  \<^item> \<open>Path_Template\<close> (\<^verbatim>\<open>internal/stub/pathtemplate.go\<close>): URL path templates; matching is splitting
    at slashes, printing and parsing round trip, the literal prefix used by the index is sound.
  \<^item> \<open>Json_Number\<close>, \<open>Array_Pairing\<close>, \<open>Json_Match\<close> (\<^verbatim>\<open>internal/matchers/jsonunit.go\<close>): the
    \<^verbatim>\<open>equalToJson\<close> matcher. Numbers are compared as floats first and confirmed on canonical
    decimals; unordered arrays are paired by augmenting paths. The lemmas show that the two passes
    together decide equality of the exact decimal values, and that the pairing search finds a
    pairing exactly when one exists.
  \<^item> \<open>Subjects\<close>, \<open>Matchers\<close> (\<^verbatim>\<open>subject.go\<close>, \<^verbatim>\<open>matchers.go\<close>, \<^verbatim>\<open>multivalue.go\<close>, \<^verbatim>\<open>query.go\<close>): what a
    matcher reads and every matcher's verdict; the lazily filled readings of a body are those of a
    pure function whatever the order of the calls.
  \<^item> \<open>Query_Text\<close>, \<open>Request\<close> (\<^verbatim>\<open>internal/match/request.go\<close>, \<^verbatim>\<open>internal/httpx\<close>): queries, cookies,
    forms and hosts, and the pooled request: after any earlier use a bound request reads as a fresh
    one.
  \<^item> \<open>Snapshot\<close>, \<open>Snapshot_Select\<close> (\<^verbatim>\<open>internal/match/snapshot.go\<close>, \<^verbatim>\<open>internal/stub/compile.go\<close>): index
    building and the lazy merge of five candidate lists, which serves what a scan in selection
    order would.
  \<^item> \<open>Store\<close>, \<open>Memory_Store\<close>, \<open>Memory_Facts\<close> (\<^verbatim>\<open>internal/store/store.go\<close>, \<^verbatim>\<open>memory.go\<close>): the store
    contract as locales, the in-memory driver, its invariant, and the interpretation of every
    locale on it.
  \<^item> \<open>Scenario\<close>, \<open>Scenario_Gate\<close> (\<^verbatim>\<open>internal/scenario/scenario.go\<close>, \<^verbatim>\<open>gateFor\<close> of
    \<^verbatim>\<open>cmd/mockulus/main.go\<close>): the compare-and-swap transition as a step machine per replica; of
    contending replicas exactly one moves the scenario.
  \<^item> \<open>Journal\<close> (\<^verbatim>\<open>internal/journal/journal.go\<close>): the bounded writer with its flushers as a step
    relation; memory stays within the cap, every entry is accounted for, shutdown drains.
  \<^item> \<open>Builder\<close>, \<open>Convergence\<close> (\<^verbatim>\<open>builder.go\<close>, \<^verbatim>\<open>cache.go\<close>, \<^verbatim>\<open>splice.go\<close>, \<^verbatim>\<open>poller.go\<close> of
    \<^verbatim>\<open>internal/match\<close>): rebuilds through the compile cache, splices and polls. What the
    cache holds is derived from the history of the builder, not assumed; over any run of writes,
    bumps, clock moves, splices, polls and resyncs a resync makes a replica serve what the store
    asks for, and one poll does unless a splice or an expiry has come that no counter shows.
  \<^item> \<open>Error_Catalog\<close> (\<^verbatim>\<open>internal/wmcompat/errors.go\<close>), \<open>Response\<close>, \<open>Response_Wire\<close>
    (\<^verbatim>\<open>internal/response\<close>): what goes on the wire. Bytes written by hand are read back by an
    independent HTTP reader to what the stub declared.
  \<^item> \<open>Json_Text\<close>, \<open>Utf8\<close>, \<open>Base64\<close>: the parts of \<^verbatim>\<open>encoding/json\<close>, \<^verbatim>\<open>unicode/utf8\<close> and
    \<^verbatim>\<open>encoding/base64\<close> the code relies on byte for byte, with their round trips.
  \<^item> \<open>File_Name\<close> (\<^verbatim>\<open>internal/stub/filename.go\<close>): what names a body file; a normalised name stays
    under the directory and normalises to itself.
  \<^item> \<open>Matcher_Compile\<close> (\<^verbatim>\<open>internal/matchers/compile.go\<close>), \<open>Stub_Response\<close> (\<^verbatim>\<open>response.go\<close> and
    \<^verbatim>\<open>settings.go\<close> of \<^verbatim>\<open>internal/stub\<close>), \<open>Stub_Compile\<close> (\<^verbatim>\<open>internal/stub/mapping.go\<close>): from a mapping document to the compiled stub
    the snapshot holds: which documents are refused and with which problems, and that every stub
    accepted is one the selection lemmas apply to.
  \<^item> \<open>Near_Miss\<close> (\<^verbatim>\<open>internal/wmcompat/nearmiss.go\<close>, \<^verbatim>\<open>internal/match/nearmiss.go\<close>): the distance of a stub to a request, the closest
    three and their rendering; the two-row edit distance is the least number of edits.
  \<^item> \<open>Java_Syntax\<close> (\<^verbatim>\<open>internal/regexx\<close>): the rewriting of Java-only regular expression syntax as a
    one-pass scanner with a stack of open groups, against a grammar of patterns with a printer and
    a rewriting rule per construct; class texts read back to the ranges they stand for.
  \<^item> \<open>Engine\<close> (\<^verbatim>\<open>internal/match/engine.go\<close>): one request from its first byte to its bookkeeping,
    composed of all of the above; a mapping registered in the store is what answers, the scenario
    moves, and an outage of the store refuses exactly the requests that depend on a state.

  \<^bold>\<open>How state corresponds.\<close> A Go struct is a record with the same fields; a method that mutates its
  receiver takes and returns the record. Goroutines that share state are step relations whose steps
  are the code's critical sections (a mutex region, a channel operation, a store call). Integers
  are \<open>int\<close> with the 64-bit wrap written out where it can be reached, and 64-bit words for the store
  token and the sequence. Errors are values of a sum or an option.

  \<^bold>\<open>Bounds.\<close> Loops are structural or carry a measure; a scenario transition makes at most six store
  calls. The compare-and-swap token is a 64-bit counter, and the statements about it assume that it
  does not wrap (\<open>room\<close>); runs of the fleet have fewer than \<open>2 ^ 64\<close> events for the same reason. Literals and bodies are assumed shorter than \<open>2 ^ 60\<close> bytes where their
  length meets 64-bit arithmetic.

  \<^bold>\<open>Parameters.\<close> Code outside the repository enters as an argument: pattern engines, the JSONPath
  evaluator, the schema validator, XML, the JSON decoder of equalToJson operands, Unicode case
  tables, SHA-256, the template engine's output, \<^verbatim>\<open>net/http\<close>, clocks and random draws.

  \<^bold>\<open>Not modelled.\<close> Configuration and process wiring, the admin UI, metrics and tracing (no influence
  on answers); Handlebars and its helpers, Java date formats, JSONPath, the two regular expression
  engines, XML (with the inner matcher of \<^verbatim>\<open>matchesXPath\<close>) and multipart matchers (behind the
  parameters above); the Couchbase driver (a
  third-party SDK behind the store contract) and the file driver (reads files into the memory
  driver); scripts and the end-to-end runner.
\<close>

end
